(* ===== verification/Prelude.thy ===== *)
theory Prelude
  imports Main "HOL-Library.Word"
begin

text \<open>
  Shared vocabulary of the development: the ways a C++ operation can leave defined behaviour
  (\<open>fault\<close>), results that carry such a fault, unsigned subtraction of \<^verbatim>\<open>size_t\<close>, and the
  segment operations on byte vectors with the lemmas that the component theories use about them.
\<close>

section \<open>Results of C++ operations\<close>

text \<open>
  A model operation that can trip an \<^verbatim>\<open>assert\<close> or reach undefined behaviour returns a value of
  type \<open>'a result\<close>: \<open>Inl\<close> with the kind of fault, or \<open>Inr\<close> with the ordinary result.
\<close>

datatype fault =
    AssertionFailed   \<comment> \<open>a failed \<^verbatim>\<open>assert(...)\<close>\<close>
  | OutOfBounds       \<comment> \<open>an access outside a vector or an array\<close>
  | OverlappingCopy   \<comment> \<open>\<^verbatim>\<open>std::copy\<close> whose destination starts inside its source range\<close>
  | DivisionByZero    \<comment> \<open>integer division or remainder by zero\<close>
  | UseAfterFree      \<comment> \<open>an access through a pointer to a deleted object\<close>
  | DoubleClose       \<comment> \<open>\<^verbatim>\<open>close\<close> of a descriptor that is already closed\<close>
  | NullDereference   \<comment> \<open>an access through a null pointer\<close>
  | BadFunctionCall   \<comment> \<open>a call of an empty \<^verbatim>\<open>std::function\<close>\<close>

type_synonym 'a result = "fault + 'a"

definition and_then :: "'a result \<Rightarrow> ('a \<Rightarrow> 'b result) \<Rightarrow> 'b result" where
  "and_then r f = (case r of Inl e \<Rightarrow> Inl e | Inr a \<Rightarrow> f a)"

definition assert_that :: "bool \<Rightarrow> 'a result \<Rightarrow> 'a result" where
  "assert_that b r = (if b then r else Inl AssertionFailed)"

named_theorems result_simps \<open>evaluation of results\<close>

lemma and_then_simps [simp, result_simps]:
  "and_then (Inl e) f = Inl e"
  "and_then (Inr a) f = f a"
  by (simp_all add: and_then_def)

lemma and_then_eq_Inr [simp]:
  "and_then r f = Inr b \<longleftrightarrow> (\<exists>a. r = Inr a \<and> f a = Inr b)"
  by (cases r) simp_all

lemma assert_that_simps [simp, result_simps]:
  "b \<Longrightarrow> assert_that b r = r"
  "\<not> b \<Longrightarrow> assert_that b r = Inl AssertionFailed"
  by (simp_all add: assert_that_def)

lemma assert_that_eq_Inr [simp]: "assert_that b r = Inr a \<longleftrightarrow> b \<and> r = Inr a"
  by (cases b) simp_all

section \<open>Unsigned sizes\<close>

text \<open>
  \<^verbatim>\<open>size_t\<close> values are naturals; the one operation on them that can leave the naturals,
  subtraction, wraps modulo \<open>2 ^ 64\<close>.
\<close>

definition size_sub :: "nat \<Rightarrow> nat \<Rightarrow> nat" where
  "size_sub a b = (if b \<le> a then a - b else 2 ^ 64 - (b - a))"

lemma size_sub_le [simp]: "b \<le> a \<Longrightarrow> size_sub a b = a - b"
  by (simp add: size_sub_def)

section \<open>Bytes and segments of byte vectors\<close>

type_synonym byte = "8 word"

definition segment :: "nat \<Rightarrow> nat \<Rightarrow> 'a list \<Rightarrow> 'a list" where
  "segment from n xs = take n (drop from xs)"

text \<open>Overwriting \<open>length ys\<close> elements from position \<open>at\<close>: what \<^verbatim>\<open>memcpy\<close> does to its target.\<close>

definition overwrite :: "nat \<Rightarrow> 'a list \<Rightarrow> 'a list \<Rightarrow> 'a list" where
  "overwrite at ys xs = take at xs @ ys @ drop (at + length ys) xs"

named_theorems segment_simps \<open>lengths and contents of segments after an overwrite\<close>

lemma length_segment [segment_simps]: "from + n \<le> length xs \<Longrightarrow> length (segment from n xs) = n"
  by (simp add: segment_def)

lemma length_overwrite [segment_simps, simp]:
  "at + length ys \<le> length xs \<Longrightarrow> length (overwrite at ys xs) = length xs"
  by (simp add: overwrite_def)

lemma segment_0 [simp]: "segment from 0 xs = []"
  by (simp add: segment_def)

lemma overwrite_Nil [simp]: "overwrite at [] xs = xs"
  by (simp add: overwrite_def)

lemma segment_overwrite_same [segment_simps]:
  "at + length ys \<le> length xs \<Longrightarrow> segment at (length ys) (overwrite at ys xs) = ys"
  by (simp add: segment_def overwrite_def)

lemma segment_overwrite_before [segment_simps]:
  assumes "from + n \<le> at" and "at + length ys \<le> length xs"
  shows "segment from n (overwrite at ys xs) = segment from n xs"
proof -
  have "at = from + n + (at - from - n)" using assms(1) by simp
  then have "drop from (take at xs) = take (at - from) (drop from xs)"
    by (simp add: drop_take)
  then show ?thesis using assms
    by (simp add: segment_def overwrite_def take_drop min_def)
qed

lemma segment_split: "segment from (n + m) xs = segment from n xs @ segment (from + n) m xs"
  by (simp add: segment_def take_add drop_drop add.commute [of "from" n])

lemma drop_segment: "k \<le> n \<Longrightarrow> drop k (segment from n xs) = segment (from + k) (n - k) xs"
  by (simp add: segment_def drop_take add.commute)

lemma take_segment: "k \<le> n \<Longrightarrow> take k (segment from n xs) = segment from k xs"
  by (simp add: segment_def min_def)

text \<open>Appending after a segment and putting data in front of it.\<close>

lemma segment_overwrite_append:
  assumes "from + n = at" and "at + length ys \<le> length xs"
  shows "segment from (n + length ys) (overwrite at ys xs) = segment from n xs @ ys"
  using assms segment_overwrite_same [of at ys xs] segment_overwrite_before [of "from" n at ys xs]
  by (simp add: segment_split)

lemma segment_overwrite_after:
  assumes "at + length ys \<le> from" and "at + length ys \<le> length xs"
  shows "segment from n (overwrite at ys xs) = segment from n xs"
  using assms by (simp add: segment_def overwrite_def min_def)

lemma segment_overwrite_prepend:
  assumes "at + length ys = from" and "from \<le> length xs"
  shows "segment at (length ys + n) (overwrite at ys xs) = ys @ segment from n xs"
  using assms segment_overwrite_same [of at ys xs] segment_overwrite_after [of at ys "from" xs n]
  by (simp add: segment_split)

section \<open>Signed integer division\<close>

text \<open>Division and remainder of C++ signed integers truncate towards zero.\<close>

definition c_div :: "int \<Rightarrow> int \<Rightarrow> int" where
  "c_div a b = (if (a < 0) = (b < 0) then \<bar>a\<bar> div \<bar>b\<bar> else - (\<bar>a\<bar> div \<bar>b\<bar>))"

definition c_mod :: "int \<Rightarrow> int \<Rightarrow> int" where
  "c_mod a b = a - b * c_div a b"

lemma c_div_pos [simp]: "0 \<le> a \<Longrightarrow> 0 < b \<Longrightarrow> c_div a b = a div b"
  by (simp add: c_div_def)

lemma c_mod_pos [simp]: "0 \<le> a \<Longrightarrow> 0 < b \<Longrightarrow> c_mod a b = a mod b"
  by (simp add: c_mod_def minus_mult_div_eq_mod)

lemma c_div_neg: "a < 0 \<Longrightarrow> 0 < b \<Longrightarrow> c_div a b \<le> 0"
  by (simp add: c_div_def pos_imp_zdiv_nonneg_iff)

end
