(* ===== verification/Funcs.thy ===== *)
theory Funcs
  imports Prelude
begin

text \<open>
  \<^verbatim>\<open>netpoll/util/funcs.h\<close>: byte order conversion and \<^verbatim>\<open>splitString\<close>.

  The byte order of the host is the argument \<open>le\<close> (true on a little-endian machine). The object
  representation of an unsigned integer is the list of its bytes in memory order, which is what
  the code reads and writes through \<^verbatim>\<open>char *\<close> and \<^verbatim>\<open>memcpy\<close>. The lemmas show that the bytes
  stored after a conversion are the big-endian bytes of the value on either kind of host and
  that converting back restores the value.
\<close>

section \<open>Object representation of unsigned integers\<close>

fun le_bytes :: "nat \<Rightarrow> nat \<Rightarrow> byte list" where
  "le_bytes 0 n = []"
| "le_bytes (Suc k) n = of_nat n # le_bytes k (n div 256)"

fun of_le_bytes :: "byte list \<Rightarrow> nat" where
  "of_le_bytes [] = 0"
| "of_le_bytes (b # bs) = unat b + 256 * of_le_bytes bs"

definition be_bytes :: "nat \<Rightarrow> nat \<Rightarrow> byte list" where
  "be_bytes k n = rev (le_bytes k n)"

definition object_bytes :: "bool \<Rightarrow> nat \<Rightarrow> nat \<Rightarrow> byte list" where
  "object_bytes le k n = (if le then le_bytes k n else rev (le_bytes k n))"

definition object_value :: "bool \<Rightarrow> byte list \<Rightarrow> nat" where
  "object_value le bs = of_le_bytes (if le then bs else rev bs)"

text \<open>
  \<^verbatim>\<open>htons\<close>, \<^verbatim>\<open>htonl\<close> and their inverses, of the C library: the value whose object
  representation on this host is the big-endian representation of the argument.
\<close>

definition hton_bytes :: "bool \<Rightarrow> nat \<Rightarrow> nat \<Rightarrow> nat" where
  "hton_bytes le k n = object_value le (be_bytes k n)"

definition htons :: "bool \<Rightarrow> 16 word \<Rightarrow> 16 word" where
  "htons le s = of_nat (hton_bytes le 2 (unat s))"

definition htonl :: "bool \<Rightarrow> 32 word \<Rightarrow> 32 word" where
  "htonl le i = of_nat (hton_bytes le 4 (unat i))"

definition ntohs :: "bool \<Rightarrow> 16 word \<Rightarrow> 16 word" where
  "ntohs le s = of_nat (of_le_bytes (rev (object_bytes le 2 (unat s))))"

definition ntohl :: "bool \<Rightarrow> 32 word \<Rightarrow> 32 word" where
  "ntohl le i = of_nat (of_le_bytes (rev (object_bytes le 4 (unat i))))"

text \<open>
  \<^verbatim>\<open>hton64\<close> tests the first byte of the integer 1 and reverses the bytes of its argument in
  place unless that byte is 0.
\<close>

definition hton64 :: "bool \<Rightarrow> 64 word \<Rightarrow> 64 word" where
  "hton64 le n =
     (let sig = hd (object_bytes le 4 1)
      in if sig = 0 then n
         else of_nat (object_value le (rev (object_bytes le 8 (unat n)))))"

definition ntoh64 :: "bool \<Rightarrow> 64 word \<Rightarrow> 64 word" where
  "ntoh64 le n = hton64 le n"

section \<open>Splitting strings\<close>

text \<open>\<^verbatim>\<open>std::string::find(delimiter, pos)\<close>; \<open>None\<close> is \<^verbatim>\<open>npos\<close>.\<close>

function find_from :: "'a list \<Rightarrow> 'a list \<Rightarrow> nat \<Rightarrow> nat option" where
  "find_from s d pos =
     (if length s < pos + length d then None
      else if take (length d) (drop pos s) = d then Some pos
      else find_from s d (Suc pos))"
  by pat_completeness auto
termination
  by (relation "measure (\<lambda>(s, d, pos). Suc (length s) - pos)") auto

declare find_from.simps [simp del]

text \<open>The body of \<^verbatim>\<open>splitString\<close> from the position \<open>last\<close> on; \<open>v\<close> is the vector built so far.\<close>

lemma find_from_bounds:
  "find_from s d pos = Some i \<Longrightarrow>
     pos \<le> i \<and> i + length d \<le> length s \<and> take (length d) (drop i s) = d"
proof (induction s d pos rule: find_from.induct)
  case (1 s d pos)
  then show ?case
    by (auto simp: find_from.simps [of s d pos] split: if_splits)
qed

function split_loop :: "'a list \<Rightarrow> 'a list \<Rightarrow> bool \<Rightarrow> nat \<Rightarrow> 'a list list \<Rightarrow> 'a list list" where
  "split_loop s d acceptEmpty lst v =
     (case if d = [] then None else find_from s d lst of
        Some nxt \<Rightarrow>
          split_loop s d acceptEmpty (nxt + length d)
            (if nxt > lst \<or> acceptEmpty then v @ [segment lst (nxt - lst) s] else v)
      | None \<Rightarrow> if length s > lst \<or> acceptEmpty then v @ [drop lst s] else v)"
  by pat_completeness auto
termination
proof (relation "measure (\<lambda>(s, d, ae, lst, v). length s - lst)", goal_cases)
  case 1
  show ?case by simp
next
  case (2 s d ae lst v nxt)
  then show ?case
    by (cases d) (auto dest!: find_from_bounds)
qed

declare split_loop.simps [simp del]

definition splitString :: "'a list \<Rightarrow> 'a list \<Rightarrow> bool \<Rightarrow> 'a list list" where
  "splitString s d acceptEmpty = (if d = [] then [] else split_loop s d acceptEmpty 0 [])"

section \<open>Byte order\<close>

lemma length_le_bytes [simp]: "length (le_bytes k n) = k"
  by (induction k arbitrary: n) simp_all

lemma length_be_bytes [simp]: "length (be_bytes k n) = k"
  by (simp add: be_bytes_def)

lemma length_object_bytes [simp]: "length (object_bytes le k n) = k"
  by (simp add: object_bytes_def)

lemma of_le_bytes_le_bytes: "of_le_bytes (le_bytes k n) = n mod 256 ^ k"
proof (induction k arbitrary: n)
  case 0
  show ?case by simp
next
  case (Suc k)
  have "n mod (256 * 256 ^ k) = 256 * (n div 256 mod 256 ^ k) + n mod 256"
    by (rule mod_mult2_eq)
  then show ?case
    by (simp add: Suc unat_of_nat)
qed

lemma unat_byte_less: "unat (b :: byte) < 256"
proof -
  have "unat b < 2 ^ LENGTH(8)" by (rule unsigned_less)
  then show ?thesis by simp
qed

lemma word_of_nat_unat_byte: "of_nat (unat b) = (b :: byte)"
  by simp

lemma of_le_bytes_less: "of_le_bytes bs < 256 ^ length bs"
proof (induction bs)
  case Nil
  show ?case by simp
next
  case (Cons b bs)
  have "unat b < 256" by (rule unat_byte_less)
  then show ?case using Cons by simp
qed

lemma le_bytes_of_le_bytes: "le_bytes (length bs) (of_le_bytes bs) = bs"
proof (induction bs)
  case Nil
  show ?case by simp
next
  case (Cons b bs)
  have lt: "unat b < 256" by (rule unat_byte_less)
  have "(unat b + 256 * of_le_bytes bs) div 256 = of_le_bytes bs" using lt by simp
  moreover have "of_nat (unat b + 256 * of_le_bytes bs) = b"
  proof -
    have "(256 :: byte) = 0" by simp
    then have "of_nat (256 * of_le_bytes bs) = (0 :: byte)"
      by (simp only: of_nat_mult of_nat_numeral mult_zero_left)
    then show ?thesis by (simp only: of_nat_add word_of_nat_unat_byte add_0_right)
  qed
  ultimately show ?case using Cons by simp
qed

lemma object_value_object_bytes:
  "object_value le (object_bytes le k n) = n mod 256 ^ k"
  by (simp add: object_value_def object_bytes_def of_le_bytes_le_bytes)

lemma object_bytes_object_value:
  "length bs = k \<Longrightarrow> object_bytes le k (object_value le bs) = bs"
  using le_bytes_of_le_bytes [of bs] le_bytes_of_le_bytes [of "rev bs"]
  by (auto simp: object_bytes_def object_value_def)

lemma object_value_less: "length bs = k \<Longrightarrow> object_value le bs < 256 ^ k"
  using of_le_bytes_less [of bs] of_le_bytes_less [of "rev bs"]
  by (auto simp: object_value_def)

lemma object_bytes_hton_bytes:
  "object_bytes le k (hton_bytes le k n) = be_bytes k n"
  by (simp add: hton_bytes_def object_bytes_object_value)

text \<open>What the code stores in memory after a conversion: the big-endian bytes.\<close>

lemma object_bytes_htons: "object_bytes le 2 (unat (htons le s)) = be_bytes 2 (unat s)"
proof -
  have "hton_bytes le 2 (unat s) < 2 ^ 16"
    using object_value_less [of "be_bytes 2 (unat s)" 2 le] by (simp add: hton_bytes_def)
  then have "unat (htons le s) = hton_bytes le 2 (unat s)"
    by (simp add: htons_def unat_of_nat)
  then show ?thesis by (simp add: object_bytes_hton_bytes)
qed

lemma object_bytes_htonl: "object_bytes le 4 (unat (htonl le s)) = be_bytes 4 (unat s)"
proof -
  have "hton_bytes le 4 (unat s) < 2 ^ 32"
    using object_value_less [of "be_bytes 4 (unat s)" 4 le] by (simp add: hton_bytes_def)
  then have "unat (htonl le s) = hton_bytes le 4 (unat s)"
    by (simp add: htonl_def unat_of_nat)
  then show ?thesis by (simp add: object_bytes_hton_bytes)
qed

lemma numeral_4_eq_4: "4 = Suc (Suc (Suc (Suc 0)))"
  by simp

lemma hton64_sig: "hd (object_bytes le 4 (Suc 0)) = (if le then 1 else 0)"
proof -
  have "le_bytes (Suc (Suc (Suc (Suc 0)))) (Suc 0) = [1, 0, 0, 0]" by simp
  then have "le_bytes 4 (Suc 0) = [1, 0, 0, 0]" by (simp only: numeral_4_eq_4)
  then show ?thesis by (simp add: object_bytes_def)
qed

lemma unat_mod_256_8: "unat (n :: 64 word) mod 256 ^ 8 = unat n"
proof -
  have "unat n < 2 ^ LENGTH(64)" by (rule unsigned_less)
  moreover have "(256 :: nat) ^ 8 = 2 ^ LENGTH(64)" by simp
  ultimately show ?thesis by (metis mod_less)
qed

lemma hton64_alt: "hton64 le n = of_nat (hton_bytes le 8 (unat n))"
proof (cases le)
  case True
  then show ?thesis
    using hton64_sig [of True]
    by (simp add: hton64_def hton_bytes_def object_bytes_def be_bytes_def)
next
  case False
  have "hton_bytes False 8 (unat n) = unat n"
    by (simp only: hton_bytes_def object_value_def be_bytes_def rev_rev_ident if_False
        of_le_bytes_le_bytes unat_mod_256_8)
  with False show ?thesis
    using hton64_sig [of False] by (simp add: hton64_def)
qed

lemma object_bytes_hton64: "object_bytes le 8 (unat (hton64 le n)) = be_bytes 8 (unat n)"
proof -
  have "hton_bytes le 8 (unat n) < 2 ^ 64"
    using object_value_less [of "be_bytes 8 (unat n)" 8 le] by (simp add: hton_bytes_def)
  then have "unat (hton64 le n) = hton_bytes le 8 (unat n)"
    by (simp add: hton64_alt unat_of_nat)
  then show ?thesis by (simp add: object_bytes_hton_bytes)
qed

text \<open>Loading an integer from memory and converting it reads the bytes as big-endian.\<close>

lemma unat_object_value_16:
  "length bs = 2 \<Longrightarrow> unat (of_nat (object_value le bs) :: 16 word) = object_value le bs"
  using object_value_less [of bs 2 le] by (simp add: unat_of_nat)

lemma unat_object_value_32:
  "length bs = 4 \<Longrightarrow> unat (of_nat (object_value le bs) :: 32 word) = object_value le bs"
  using object_value_less [of bs 4 le] by (simp add: unat_of_nat)

lemma unat_object_value_64:
  "length bs = 8 \<Longrightarrow> unat (of_nat (object_value le bs) :: 64 word) = object_value le bs"
  using object_value_less [of bs 8 le] by (simp add: unat_of_nat)

lemma ntoh64_alt: "ntoh64 le n = of_nat (of_le_bytes (rev (object_bytes le 8 (unat n))))"
proof (cases le)
  case True
  then show ?thesis
    using hton64_sig [of True] by (simp add: ntoh64_def hton64_def object_value_def)
next
  case False
  have "of_le_bytes (rev (object_bytes False 8 (unat n))) = unat n"
    by (simp only: object_bytes_def rev_rev_ident if_False of_le_bytes_le_bytes unat_mod_256_8)
  with False show ?thesis
    using hton64_sig [of False] by (simp add: ntoh64_def hton64_def)
qed

lemma ntohs_load:
  "length bs = 2 \<Longrightarrow> ntohs le (of_nat (object_value le bs)) = of_nat (of_le_bytes (rev bs))"
  by (simp only: ntohs_def unat_object_value_16 object_bytes_object_value)

lemma ntohl_load:
  "length bs = 4 \<Longrightarrow> ntohl le (of_nat (object_value le bs)) = of_nat (of_le_bytes (rev bs))"
  by (simp only: ntohl_def unat_object_value_32 object_bytes_object_value)

lemma ntoh64_load:
  "length bs = 8 \<Longrightarrow> ntoh64 le (of_nat (object_value le bs)) = of_nat (of_le_bytes (rev bs))"
  by (simp only: ntoh64_alt unat_object_value_64 object_bytes_object_value)

lemma of_le_bytes_rev_be_bytes: "of_le_bytes (rev (be_bytes k n)) = n mod 256 ^ k"
  by (simp add: be_bytes_def of_le_bytes_le_bytes)

section \<open>Correctness of \<open>splitString\<close>\<close>

fun join :: "'a list \<Rightarrow> 'a list list \<Rightarrow> 'a list" where
  "join d [] = []"
| "join d [x] = x"
| "join d (x # y # ys) = x @ d @ join d (y # ys)"

lemma join_Cons: "xs \<noteq> [] \<Longrightarrow> join d (x # xs) = x @ d @ join d xs"
  by (cases xs) simp_all

lemma find_from_first:
  "\<lbrakk>pos \<le> j; j + length d \<le> length s; take (length d) (drop j s) = d\<rbrakk> \<Longrightarrow>
     \<exists>i. find_from s d pos = Some i \<and> i \<le> j"
proof (induction s d pos rule: find_from.induct)
  case (1 s d pos)
  show ?case
  proof (cases "take (length d) (drop pos s) = d")
    case True
    then show ?thesis using 1 by (subst find_from.simps) simp
  next
    case False
    then have "Suc pos \<le> j" using "1.prems" by (cases "pos = j") auto
    then show ?thesis
      using 1 False by (subst find_from.simps) simp
  qed
qed

lemma split_loop_append: "split_loop s d ae lst (u @ v) = u @ split_loop s d ae lst v"
proof (induction s d ae lst v arbitrary: u rule: split_loop.induct)
  case (1 s d ae lst v)
  show ?case
  proof (cases "if d = [] then None else find_from s d lst")
    case None
    then show ?thesis by (subst (1 2) split_loop.simps) simp
  next
    case (Some nxt)
    then show ?thesis
      using 1 [OF Some, of u]
      by (subst (1 2) split_loop.simps) (cases "nxt > lst \<or> ae", simp_all)
  qed
qed

lemma split_loop_None:
  "find_from s d lst = None \<Longrightarrow>
     split_loop s d ae lst [] = (if length s > lst \<or> ae then [drop lst s] else [])"
  by (subst split_loop.simps) simp

lemma split_loop_Some:
  assumes "d \<noteq> []" and "find_from s d lst = Some nxt"
  shows "split_loop s d ae lst [] =
    (if nxt > lst \<or> ae then [segment lst (nxt - lst) s] else []) @
    split_loop s d ae (nxt + length d) []"
  using assms split_loop_append [of s d ae "nxt + length d" "[segment lst (nxt - lst) s]" "[]"]
  by (subst split_loop.simps) simp

lemma split_loop_True_nonempty: "split_loop s d True lst [] \<noteq> []"
proof (cases "d = [] \<or> find_from s d lst = None")
  case True
  then show ?thesis by (subst split_loop.simps) auto
next
  case False
  then show ?thesis by (auto simp: split_loop_Some)
qed

lemma drop_at_occurrence:
  "\<lbrakk>lst \<le> nxt; take (length d) (drop nxt s) = d\<rbrakk> \<Longrightarrow>
     segment lst (nxt - lst) s @ d @ drop (nxt + length d) s = drop lst s"
proof -
  assume a: "lst \<le> nxt" "take (length d) (drop nxt s) = d"
  have "d @ drop (nxt + length d) s = drop nxt s"
    using a append_take_drop_id [of "length d" "drop nxt s"] by (simp add: add.commute)
  moreover have "segment lst (nxt - lst) s @ drop nxt s = drop lst s"
    using a append_take_drop_id [of "nxt - lst" "drop lst s"] by (simp add: segment_def)
  ultimately show ?thesis by simp
qed

lemma join_split_loop:
  "d \<noteq> [] \<Longrightarrow> join d (split_loop s d True lst v) = join d (v @ split_loop s d True lst [])"
  using split_loop_append [of s d True lst v "[]"] by simp

lemma join_split_loop_Nil:
  "d \<noteq> [] \<Longrightarrow> join d (split_loop s d True lst []) = drop lst s"
proof (induction "length s - lst" arbitrary: lst rule: less_induct)
  case less
  show ?case
  proof (cases "find_from s d lst")
    case None
    then show ?thesis by (simp add: split_loop_None)
  next
    case (Some nxt)
    note b = find_from_bounds [OF Some]
    have "length d > 0" using less.prems by simp
    with b have "length s - (nxt + length d) < length s - lst" by linarith
    from less.hyps [OF this less.prems]
    show ?thesis
      using b less.prems Some
      by (simp add: split_loop_Some join_Cons split_loop_True_nonempty drop_at_occurrence)
  qed
qed

lemma split_loop_filter:
  "d \<noteq> [] \<Longrightarrow>
     split_loop s d False lst [] = filter (\<lambda>x. x \<noteq> []) (split_loop s d True lst [])"
proof (induction "length s - lst" arbitrary: lst rule: less_induct)
  case less
  show ?case
  proof (cases "find_from s d lst")
    case None
    then show ?thesis by (simp add: split_loop_None)
  next
    case (Some nxt)
    note b = find_from_bounds [OF Some]
    have "length d > 0" using less.prems by simp
    with b have "length s - (nxt + length d) < length s - lst" by linarith
    from less.hyps [OF this less.prems]
    show ?thesis
      using b less.prems Some by (auto simp: split_loop_Some segment_def)
  qed
qed

lemma find_from_segment:
  assumes "find_from s d lst = Some nxt" and "d \<noteq> []"
  shows "find_from (segment lst (nxt - lst) s) d 0 = None"
proof (rule ccontr)
  let ?x = "segment lst (nxt - lst) s"
  assume "find_from ?x d 0 \<noteq> None"
  then obtain i where i: "i + length d \<le> length ?x" "take (length d) (drop i ?x) = d"
    using find_from_bounds by fastforce
  have len: "length ?x \<le> nxt - lst" "length ?x \<le> length s - lst" by (simp_all add: segment_def)
  have "take (length d) (drop (lst + i) s) = d"
    using i len by (simp add: segment_def drop_take add.commute min_def split: if_splits)
  moreover have pos: "length d > 0" using assms by simp
  moreover have "lst + i + length d \<le> length s" using i(1) len(2) pos by linarith
  ultimately obtain j where "find_from s d lst = Some j" "j \<le> lst + i"
    using find_from_first [of lst "lst + i" d s] by auto
  then have "nxt \<le> lst + i" using assms by simp
  then show False using i(1) len(1) pos by linarith
qed

lemma split_loop_no_delimiter:
  "d \<noteq> [] \<Longrightarrow> x \<in> set (split_loop s d True lst []) \<Longrightarrow> find_from x d 0 = None"
proof (induction "length s - lst" arbitrary: lst rule: less_induct)
  case less
  show ?case
  proof (cases "find_from s d lst")
    case None
    have "find_from (drop lst s) d 0 = None"
    proof (rule ccontr)
      assume "find_from (drop lst s) d 0 \<noteq> None"
      then obtain i where "i + length d \<le> length s - lst" "take (length d) (drop (lst + i) s) = d"
        using find_from_bounds by (fastforce simp: add.commute)
      moreover have "length d > 0" using less.prems by simp
      moreover from calculation have "lst + i + length d \<le> length s" by linarith
      ultimately show False
        using None find_from_first [of lst "lst + i" d s] by auto
    qed
    with None less.prems show ?thesis by (simp add: split_loop_None)
  next
    case (Some nxt)
    note b = find_from_bounds [OF Some]
    have "length d > 0" using less.prems by simp
    with b have "length s - (nxt + length d) < length s - lst" by linarith
    from less.hyps [OF this less.prems(1)]
    show ?thesis
      using less.prems Some find_from_segment [OF Some] by (auto simp: split_loop_Some)
  qed
qed

text \<open>
  C28. \<^verbatim>\<open>splitString\<close> splits at every occurrence of the delimiter: with \<^verbatim>\<open>acceptEmptyString\<close> the
  pieces joined by the delimiter give back the input and no piece contains the delimiter, and
  without it the result is the list of the non-empty pieces.
\<close>

theorem splitString_correct:
  assumes "d \<noteq> []"
  shows "join d (splitString s d True) = s \<and>
    (\<forall>x \<in> set (splitString s d True). find_from x d 0 = None) \<and>
    splitString s d False = filter (\<lambda>x. x \<noteq> []) (splitString s d True)"
  using assms join_split_loop_Nil [of d s 0] split_loop_filter [of d s 0]
    split_loop_no_delimiter [of d _ s 0]
  by (simp add: splitString_def)

theorem splitString_correct_witness:
  "join '', '' (splitString ''a, b, , c'' '', '' True) = ''a, b, , c'' \<and>
   splitString ''a, b, , c'' '', '' False = [''a'', ''b'', ''c'']"
proof
  show "join '', '' (splitString ''a, b, , c'' '', '' True) = ''a, b, , c''"
    using splitString_correct [of "'', ''" "''a, b, , c''"] by simp
  show "splitString ''a, b, , c'' '', '' False = [''a'', ''b'', ''c'']"
    by code_simp
qed

end
