(* ===== verification/Message_Buffer.thy ===== *)
theory Message_Buffer
  imports Funcs
begin

text \<open>
  \<^verbatim>\<open>netpoll/util/message_buffer.{h,cc}\<close>: the byte buffer that connections read into and write
  from. A buffer is a vector with a head and a tail index; the readable bytes are those between
  them, and 8 bytes are kept free in front of a fresh buffer for \<^verbatim>\<open>pushFront\<close>.

  Pointers into the vector are offsets. Every operation that could touch memory outside the
  vector, or call \<^verbatim>\<open>std::copy\<close> with a destination inside the source range, returns a fault in
  those cases. The invariant \<open>buffer_ok\<close> and the abstraction \<open>contents\<close> (the readable bytes) give
  each operation its specification on byte lists; the locale \<open>byte_stream\<close> is the contract that
  the users of a buffer rely on.
\<close>

section \<open>State and construction\<close>

record MessageBuffer =
  m_head :: nat
  m_tail :: nat
  m_initCap :: nat
  m_buffer :: "byte list"

definition kBufferDefaultLength :: nat where
  "kBufferDefaultLength = 2048"

definition kBufferOffset :: nat where
  "kBufferOffset = 8"

definition MessageBuffer_new :: "nat \<Rightarrow> MessageBuffer" where
  "MessageBuffer_new len =
     \<lparr>m_head = kBufferOffset, m_tail = kBufferOffset, m_initCap = len,
      m_buffer = replicate (len + kBufferOffset) 0\<rparr>"

text \<open>The members of an object before the body of the move constructor runs.\<close>

definition MessageBuffer_zero :: MessageBuffer where
  "MessageBuffer_zero = \<lparr>m_head = 0, m_tail = 0, m_initCap = 0, m_buffer = []\<rparr>"

definition swap :: "MessageBuffer \<Rightarrow> MessageBuffer \<Rightarrow> MessageBuffer \<times> MessageBuffer" where
  "swap this buf =
     (this\<lparr>m_buffer := m_buffer buf, m_head := m_head buf, m_tail := m_tail buf,
        m_initCap := m_initCap buf\<rparr>,
      buf\<lparr>m_buffer := m_buffer this, m_head := m_head this, m_tail := m_tail this,
        m_initCap := m_initCap this\<rparr>)"

text \<open>Both return the object under construction or assignment and the moved-from object.\<close>

definition MessageBuffer_move :: "MessageBuffer \<Rightarrow> MessageBuffer \<times> MessageBuffer" where
  "MessageBuffer_move other = swap MessageBuffer_zero other"

definition move_assign :: "MessageBuffer \<Rightarrow> MessageBuffer \<Rightarrow> MessageBuffer \<times> MessageBuffer" where
  "move_assign this other = swap this other"

section \<open>Observers\<close>

definition peek :: "MessageBuffer \<Rightarrow> nat" where
  "peek b = m_head b"

definition beginWrite :: "MessageBuffer \<Rightarrow> nat" where
  "beginWrite b = m_tail b"

definition readableBytes :: "MessageBuffer \<Rightarrow> nat" where
  "readableBytes b = size_sub (m_tail b) (m_head b)"

definition writableBytes :: "MessageBuffer \<Rightarrow> nat" where
  "writableBytes b = size_sub (length (m_buffer b)) (m_tail b)"

text \<open>Memory accesses relative to the start of the vector.\<close>

definition load :: "MessageBuffer \<Rightarrow> nat \<Rightarrow> nat \<Rightarrow> byte list result" where
  "load b at n =
     (if at + n \<le> length (m_buffer b) then Inr (segment at n (m_buffer b)) else Inl OutOfBounds)"

definition memcpy_to :: "MessageBuffer \<Rightarrow> nat \<Rightarrow> byte list \<Rightarrow> MessageBuffer result" where
  "memcpy_to b at src =
     (if at + length src \<le> length (m_buffer b)
      then Inr (b\<lparr>m_buffer := overwrite at src (m_buffer b)\<rparr>) else Inl OutOfBounds)"

definition std_copy :: "MessageBuffer \<Rightarrow> nat \<Rightarrow> nat \<Rightarrow> nat \<Rightarrow> MessageBuffer result" where
  "std_copy b first last' dest =
     (if last' < first \<or> length (m_buffer b) < last'
        \<or> length (m_buffer b) < dest + (last' - first) then Inl OutOfBounds
      else if first \<le> dest \<and> dest < last' then Inl OverlappingCopy
      else Inr (b\<lparr>m_buffer :=
             overwrite dest (segment first (last' - first) (m_buffer b)) (m_buffer b)\<rparr>))"

definition peekString :: "MessageBuffer \<Rightarrow> nat \<Rightarrow> byte list result" where
  "peekString b sz =
     assert_that (readableBytes b \<ge> sz) (load b (peek b) sz)"

definition peekInt8 :: "MessageBuffer \<Rightarrow> 8 word result" where
  "peekInt8 b =
     assert_that (readableBytes b \<ge> 1) (
     and_then (load b (peek b) 1) (\<lambda>bs. Inr (hd bs)))"

definition peekInt16 :: "bool \<Rightarrow> MessageBuffer \<Rightarrow> 16 word result" where
  "peekInt16 le b =
     assert_that (readableBytes b \<ge> 2) (
     and_then (load b (peek b) 2) (\<lambda>rs. Inr (ntohs le (of_nat (object_value le rs)))))"

definition peekInt32 :: "bool \<Rightarrow> MessageBuffer \<Rightarrow> 32 word result" where
  "peekInt32 le b =
     assert_that (readableBytes b \<ge> 4) (
     and_then (load b (peek b) 4) (\<lambda>rl. Inr (ntohl le (of_nat (object_value le rl)))))"

definition peekInt64 :: "bool \<Rightarrow> MessageBuffer \<Rightarrow> 64 word result" where
  "peekInt64 le b =
     assert_that (readableBytes b \<ge> 8) (
     and_then (load b (peek b) 8) (\<lambda>rll. Inr (ntoh64 le (of_nat (object_value le rll)))))"

text \<open>\<^verbatim>\<open>findCRLF\<close> returns the offset of the first CRLF among the readable bytes; \<open>None\<close> is the null
  pointer. \<^verbatim>\<open>std::search\<close> returns \<^verbatim>\<open>beginWrite()\<close> when there is none.\<close>

definition CRLF :: "byte list" where
  "CRLF = [13, 10]"

definition findCRLF :: "MessageBuffer \<Rightarrow> nat option" where
  "findCRLF b =
     map_option (\<lambda>i. peek b + i)
       (find_from (segment (peek b) (beginWrite b - peek b) (m_buffer b)) CRLF 0)"

definition operator_index :: "MessageBuffer \<Rightarrow> nat \<Rightarrow> byte result" where
  "operator_index b offset =
     assert_that (readableBytes b \<ge> offset) (
     and_then (load b (peek b + offset) 1) (\<lambda>bs. Inr (hd bs)))"

section \<open>Writing\<close>

lemma writableBytes_new [simp]: "writableBytes (MessageBuffer_new len) = len"
  by (simp add: writableBytes_def MessageBuffer_new_def kBufferOffset_def size_sub_def)

text \<open>
  \<^verbatim>\<open>ensureWritableBytes\<close> and \<^verbatim>\<open>pushBack(const MessageBuffer &)\<close> call each other: growing builds
  a larger buffer and pushes the old one onto it, where the inner call finds enough space.
\<close>

function ensureWritableBytes :: "MessageBuffer \<Rightarrow> nat \<Rightarrow> MessageBuffer result"
  and pushBack_buf :: "MessageBuffer \<Rightarrow> MessageBuffer \<Rightarrow> MessageBuffer result" where
  "ensureWritableBytes b len =
     (if writableBytes b \<ge> len then Inr b
      else if m_head b + writableBytes b \<ge> len + kBufferOffset then
        and_then (std_copy b (m_head b) (m_tail b) kBufferOffset) (\<lambda>b'.
        Inr (b'\<lparr>m_tail := kBufferOffset + size_sub (m_tail b') (m_head b'),
                m_head := kBufferOffset\<rparr>))
      else
        (let newLen = (if length (m_buffer b) * 2 > kBufferOffset + readableBytes b + len
                       then length (m_buffer b) * 2
                       else kBufferOffset + readableBytes b + len)
         in and_then (pushBack_buf (MessageBuffer_new newLen) b) (\<lambda>newbuffer.
            Inr (fst (swap b newbuffer)))))"
| "pushBack_buf b buf =
     and_then (ensureWritableBytes b (readableBytes buf)) (\<lambda>b'.
     and_then (load buf (peek buf) (readableBytes buf)) (\<lambda>src.
     and_then (memcpy_to b' (m_tail b') src) (\<lambda>b''.
     Inr (b''\<lparr>m_tail := m_tail b'' + readableBytes buf\<rparr>))))"
  by pat_completeness auto

termination
  by (relation "measure (\<lambda>x. case x of
        Inl (b, len) \<Rightarrow> if writableBytes b \<ge> len then 0 else 2
      | Inr (b, buf) \<Rightarrow> if writableBytes b \<ge> readableBytes buf then 1 else (3 :: nat))")
    (auto split: if_splits)

declare ensureWritableBytes.simps [simp del] pushBack_buf.simps [simp del]

definition pushBack :: "MessageBuffer \<Rightarrow> byte list \<Rightarrow> MessageBuffer result" where
  "pushBack b buf =
     and_then (ensureWritableBytes b (length buf)) (\<lambda>b'.
     and_then (memcpy_to b' (m_tail b') buf) (\<lambda>b''.
     Inr (b''\<lparr>m_tail := m_tail b'' + length buf\<rparr>)))"

definition pushFront :: "MessageBuffer \<Rightarrow> byte list \<Rightarrow> MessageBuffer result" where
  "pushFront b buf =
     (if m_head b \<ge> length buf then
        and_then (memcpy_to b (m_head b - length buf) buf) (\<lambda>b'.
        Inr (b'\<lparr>m_head := m_head b' - length buf\<rparr>))
      else if length buf \<le> writableBytes b then
        and_then (std_copy b (m_head b) (m_tail b) (m_head b + length buf)) (\<lambda>b'.
        and_then (memcpy_to b' (m_head b') buf) (\<lambda>b''.
        Inr (b''\<lparr>m_tail := m_tail b'' + length buf\<rparr>)))
      else
        (let newLen = (if length buf + readableBytes b < m_initCap b then m_initCap b
                       else length buf + readableBytes b)
         in and_then (pushBack (MessageBuffer_new newLen) buf) (\<lambda>newBuf.
            and_then (pushBack_buf newBuf b) (\<lambda>newBuf'.
            Inr (fst (swap b newBuf'))))))"

definition pushBackInt8 :: "MessageBuffer \<Rightarrow> 8 word \<Rightarrow> MessageBuffer result" where
  "pushBackInt8 b w = pushBack b [w]"

definition pushBackInt16 :: "bool \<Rightarrow> MessageBuffer \<Rightarrow> 16 word \<Rightarrow> MessageBuffer result" where
  "pushBackInt16 le b s = (let ss = htons le s in pushBack b (object_bytes le 2 (unat ss)))"

definition pushBackInt32 :: "bool \<Rightarrow> MessageBuffer \<Rightarrow> 32 word \<Rightarrow> MessageBuffer result" where
  "pushBackInt32 le b i = (let ii = htonl le i in pushBack b (object_bytes le 4 (unat ii)))"

definition pushBackInt64 :: "bool \<Rightarrow> MessageBuffer \<Rightarrow> 64 word \<Rightarrow> MessageBuffer result" where
  "pushBackInt64 le b l = (let ll = hton64 le l in pushBack b (object_bytes le 8 (unat ll)))"

definition pushFrontInt8 :: "MessageBuffer \<Rightarrow> 8 word \<Rightarrow> MessageBuffer result" where
  "pushFrontInt8 b w = pushFront b [w]"

definition pushFrontInt16 :: "bool \<Rightarrow> MessageBuffer \<Rightarrow> 16 word \<Rightarrow> MessageBuffer result" where
  "pushFrontInt16 le b s = (let ss = htons le s in pushFront b (object_bytes le 2 (unat ss)))"

definition pushFrontInt32 :: "bool \<Rightarrow> MessageBuffer \<Rightarrow> 32 word \<Rightarrow> MessageBuffer result" where
  "pushFrontInt32 le b i = (let ii = htonl le i in pushFront b (object_bytes le 4 (unat ii)))"

definition pushFrontInt64 :: "bool \<Rightarrow> MessageBuffer \<Rightarrow> 64 word \<Rightarrow> MessageBuffer result" where
  "pushFrontInt64 le b l = (let ll = hton64 le l in pushFront b (object_bytes le 8 (unat ll)))"

definition hasWritten :: "MessageBuffer \<Rightarrow> nat \<Rightarrow> MessageBuffer result" where
  "hasWritten b len =
     assert_that (len \<le> writableBytes b) (Inr (b\<lparr>m_tail := m_tail b + len\<rparr>))"

definition unwrite :: "MessageBuffer \<Rightarrow> nat \<Rightarrow> MessageBuffer result" where
  "unwrite b offset =
     assert_that (readableBytes b \<ge> offset) (
     Inr (b\<lparr>m_tail := size_sub (m_tail b) offset\<rparr>))"

section \<open>Reading\<close>

text \<open>\<^verbatim>\<open>std::vector::resize\<close>: truncates, or appends zero bytes.\<close>

definition vector_resize :: "nat \<Rightarrow> byte list \<Rightarrow> byte list" where
  "vector_resize n v = take n v @ replicate (n - length v) 0"

definition retrieveAll :: "MessageBuffer \<Rightarrow> MessageBuffer" where
  "retrieveAll b =
     (let b' = (if length (m_buffer b) > m_initCap b * 2
                then b\<lparr>m_buffer := vector_resize (m_initCap b) (m_buffer b)\<rparr> else b)
      in b'\<lparr>m_head := kBufferOffset, m_tail := kBufferOffset\<rparr>)"

definition retrieve :: "MessageBuffer \<Rightarrow> nat \<Rightarrow> MessageBuffer" where
  "retrieve b len =
     (if len \<ge> readableBytes b then retrieveAll b else b\<lparr>m_head := m_head b + len\<rparr>)"

definition retrieveUntil :: "MessageBuffer \<Rightarrow> nat \<Rightarrow> MessageBuffer result" where
  "retrieveUntil b pos =
     assert_that (peek b \<le> pos) (
     assert_that (pos \<le> beginWrite b) (
     Inr (retrieve b (pos - peek b))))"

definition read :: "MessageBuffer \<Rightarrow> nat \<Rightarrow> (byte list \<times> MessageBuffer) result" where
  "read b len =
     (let len' = (if len > readableBytes b then readableBytes b else len)
      in and_then (load b (peek b) len') (\<lambda>ret. Inr (ret, retrieve b len')))"

definition readAll :: "MessageBuffer \<Rightarrow> (byte list \<times> MessageBuffer) result" where
  "readAll b = read b (readableBytes b)"

definition readInt8 :: "MessageBuffer \<Rightarrow> (8 word \<times> MessageBuffer) result" where
  "readInt8 b = and_then (peekInt8 b) (\<lambda>ret. Inr (ret, retrieve b 1))"

definition readInt16 :: "bool \<Rightarrow> MessageBuffer \<Rightarrow> (16 word \<times> MessageBuffer) result" where
  "readInt16 le b = and_then (peekInt16 le b) (\<lambda>ret. Inr (ret, retrieve b 2))"

definition readInt32 :: "bool \<Rightarrow> MessageBuffer \<Rightarrow> (32 word \<times> MessageBuffer) result" where
  "readInt32 le b = and_then (peekInt32 le b) (\<lambda>ret. Inr (ret, retrieve b 4))"

definition readInt64 :: "bool \<Rightarrow> MessageBuffer \<Rightarrow> (64 word \<times> MessageBuffer) result" where
  "readInt64 le b = and_then (peekInt64 le b) (\<lambda>ret. Inr (ret, retrieve b 8))"

text \<open>
  \<^verbatim>\<open>readFd\<close>. The system call \<^verbatim>\<open>readv\<close> is the argument \<open>readv\<close>: from the lengths of the vectors
  it is given to the error number or the bytes received, which fill the vectors in order.
  \<^verbatim>\<open>static_cast<int>(writable)\<close> stored in the \<^verbatim>\<open>size_t\<close> field is the sign extension of the low 32
  bits.
\<close>

definition kExtBuffer :: nat where
  "kExtBuffer = 8192"

definition int_cast_len :: "nat \<Rightarrow> nat" where
  "int_cast_len n =
     (let i = n mod 2 ^ 32 in if i < 2 ^ 31 then i else 2 ^ 64 - (2 ^ 32 - i))"

definition readFd ::
  "(nat list \<Rightarrow> int + byte list) \<Rightarrow> MessageBuffer \<Rightarrow> (int \<times> int option \<times> MessageBuffer) result" where
  "readFd readv b =
     (let writable = writableBytes b;
          iov_len0 = int_cast_len writable;
          vec = (if writable < kExtBuffer then [iov_len0, kExtBuffer] else [iov_len0])
      in case readv vec of
           Inl errno \<Rightarrow> Inr (-1, Some errno, b)
         | Inr data \<Rightarrow>
             and_then (memcpy_to b (m_tail b) (take iov_len0 data)) (\<lambda>b'.
             (let n = length data; ext = drop iov_len0 data
              in if n \<le> writable then Inr (int n, None, b'\<lparr>m_tail := m_tail b' + n\<rparr>)
                 else if n - writable \<le> kExtBuffer then
                   and_then (pushBack (b'\<lparr>m_tail := length (m_buffer b')\<rparr>)
                     (take (n - writable) (ext @ replicate (kExtBuffer - length ext) 0))) (\<lambda>b''.
                   Inr (int n, None, b''))
                 else Inl OutOfBounds)))"

section \<open>Invariant and abstraction\<close>

text \<open>
  The shape of every buffer made by the constructor with an initial length of at least 8: the
  vector is 8 bytes longer than \<^verbatim>\<open>m_initCap\<close> and the indices are in order. It is kept by every
  operation below.
\<close>

definition buffer_ok :: "MessageBuffer \<Rightarrow> bool" where
  "buffer_ok b \<longleftrightarrow>
     m_head b \<le> m_tail b \<and> m_tail b \<le> length (m_buffer b) \<and>
     length (m_buffer b) = m_initCap b + kBufferOffset \<and> kBufferOffset \<le> m_initCap b"

definition contents :: "MessageBuffer \<Rightarrow> byte list" where
  "contents b = segment (m_head b) (m_tail b - m_head b) (m_buffer b)"

lemma buffer_okD:
  assumes "buffer_ok b"
  shows "m_head b \<le> m_tail b" and "m_tail b \<le> length (m_buffer b)"
    and "length (m_buffer b) = m_initCap b + kBufferOffset" and "kBufferOffset \<le> m_initCap b"
  using assms by (simp_all add: buffer_ok_def)

lemma buffer_ok_new: "8 \<le> len \<Longrightarrow> buffer_ok (MessageBuffer_new len)"
  by (simp add: buffer_ok_def MessageBuffer_new_def kBufferOffset_def)

lemma contents_new [simp]: "contents (MessageBuffer_new len) = []"
  by (simp add: contents_def MessageBuffer_new_def)

lemma readableBytes_ok: "buffer_ok b \<Longrightarrow> readableBytes b = m_tail b - m_head b"
  by (simp add: readableBytes_def buffer_ok_def size_sub_le)

lemma writableBytes_ok: "buffer_ok b \<Longrightarrow> writableBytes b = length (m_buffer b) - m_tail b"
  by (simp add: writableBytes_def buffer_ok_def size_sub_le)

lemma length_contents: "buffer_ok b \<Longrightarrow> length (contents b) = readableBytes b"
  by (simp add: contents_def readableBytes_ok length_segment buffer_ok_def)

lemma load_contents:
  "buffer_ok b \<Longrightarrow> n \<le> readableBytes b \<Longrightarrow> load b (peek b) n = Inr (take n (contents b))"
  by (auto simp: load_def peek_def contents_def readableBytes_ok buffer_ok_def take_segment)

lemma load_all: "buffer_ok b \<Longrightarrow> load b (peek b) (readableBytes b) = Inr (contents b)"
  by (simp add: load_contents length_contents)

lemma swap_simps [simp]: "swap a b = (b, a)"
  by (simp add: swap_def)

section \<open>Growing and appending\<close>

lemma append_at_tail:
  assumes "buffer_ok b" and "length s \<le> writableBytes b"
  shows "\<exists>b'. memcpy_to b (m_tail b) s = Inr b' \<and>
    (let c = b'\<lparr>m_tail := m_tail b' + length s\<rparr>
     in buffer_ok c \<and> contents c = contents b @ s \<and> writableBytes c = writableBytes b - length s)"
proof -
  let ?b = "b\<lparr>m_buffer := overwrite (m_tail b) s (m_buffer b)\<rparr>"
  let ?c = "?b\<lparr>m_tail := m_tail ?b + length s\<rparr>"
  have fits: "m_tail b + length s \<le> length (m_buffer b)"
    using assms by (auto simp: writableBytes_ok buffer_ok_def)
  have "memcpy_to b (m_tail b) s = Inr ?b" using fits by (simp add: memcpy_to_def)
  moreover have ok: "buffer_ok ?c"
    using assms fits by (simp add: buffer_ok_def)
  moreover have "contents ?c = contents b @ s"
    using assms fits buffer_okD [OF assms(1)]
      segment_overwrite_append [of "m_head b" "m_tail b - m_head b" "m_tail b" s "m_buffer b"]
    by (simp add: contents_def)
  moreover have "writableBytes ?c = writableBytes b - length s"
    using assms(1) fits writableBytes_ok [OF ok] by (simp add: writableBytes_ok)
  ultimately show ?thesis by (auto simp: Let_def)
qed

lemma pushBack_enough:
  assumes "buffer_ok b" and "length s \<le> writableBytes b"
  shows "\<exists>b'. pushBack b s = Inr b' \<and> buffer_ok b' \<and> contents b' = contents b @ s \<and>
    writableBytes b' = writableBytes b - length s"
  using append_at_tail [OF assms] assms
  by (auto simp: pushBack_def ensureWritableBytes.simps [of b "length s"] Let_def)

lemma pushBack_buf_enough:
  assumes "buffer_ok b" and "buffer_ok buf" and "readableBytes buf \<le> writableBytes b"
  shows "\<exists>b'. pushBack_buf b buf = Inr b' \<and> buffer_ok b' \<and>
    contents b' = contents b @ contents buf \<and>
    writableBytes b' = writableBytes b - readableBytes buf"
  using append_at_tail [of b "contents buf"] assms
  by (auto simp: pushBack_buf.simps [of b buf] ensureWritableBytes.simps [of b "readableBytes buf"]
      load_all length_contents Let_def)

text \<open>Moving the readable bytes to the front: the source lies above the destination.\<close>

lemma shift_down:
  assumes "buffer_ok b" and "m_head b > kBufferOffset"
  shows "\<exists>b'. std_copy b (m_head b) (m_tail b) kBufferOffset = Inr b' \<and>
    m_head b' = m_head b \<and> m_tail b' = m_tail b \<and> length (m_buffer b') = length (m_buffer b) \<and>
    (let c = b'\<lparr>m_tail := kBufferOffset + (m_tail b - m_head b), m_head := kBufferOffset\<rparr>
     in buffer_ok c \<and> contents c = contents b)"
proof -
  let ?v = "overwrite kBufferOffset (contents b) (m_buffer b)"
  let ?b = "b\<lparr>m_buffer := ?v\<rparr>"
  note ok = buffer_okD [OF assms(1)]
  have len: "length (contents b) = m_tail b - m_head b"
    using assms(1) by (simp add: length_contents readableBytes_ok)
  have fits: "kBufferOffset + length (contents b) \<le> length (m_buffer b)"
    using ok assms(2) len by linarith
  have "\<not> length (m_buffer b) < kBufferOffset + (m_tail b - m_head b)" using fits len by linarith
  then have "std_copy b (m_head b) (m_tail b) kBufferOffset = Inr ?b"
    using ok assms(2) by (simp add: std_copy_def contents_def)
  moreover have "length ?v = length (m_buffer b)" using fits by simp
  moreover have "segment kBufferOffset (m_tail b - m_head b) ?v = contents b"
    using segment_overwrite_same [OF fits] len by simp
  ultimately show ?thesis
    using ok fits len
    by (simp add: Let_def buffer_ok_def contents_def [of "m_tail_update f x" for f x]
        contents_def [of "m_head_update f x" for f x])
qed

text \<open>Every case of \<^verbatim>\<open>ensureWritableBytes\<close> succeeds and keeps the readable bytes.\<close>

lemma ensureWritableBytes_spec:
  assumes "buffer_ok b"
  shows "\<exists>b'. ensureWritableBytes b len = Inr b' \<and> buffer_ok b' \<and> contents b' = contents b \<and>
    len \<le> writableBytes b'"
proof (cases "writableBytes b \<ge> len")
  case True
  then show ?thesis using assms by (subst ensureWritableBytes.simps) simp
next
  case small: False
  note ok = buffer_okD [OF assms]
  show ?thesis
  proof (cases "m_head b + writableBytes b \<ge> len + kBufferOffset")
    case True
    then have "m_head b > kBufferOffset" using small by simp
    from shift_down [OF assms this] obtain b' where b':
      "std_copy b (m_head b) (m_tail b) kBufferOffset = Inr b'"
      "m_head b' = m_head b" "m_tail b' = m_tail b" "length (m_buffer b') = length (m_buffer b)"
      "buffer_ok (b'\<lparr>m_tail := kBufferOffset + (m_tail b - m_head b), m_head := kBufferOffset\<rparr>)"
      "contents (b'\<lparr>m_tail := kBufferOffset + (m_tail b - m_head b), m_head := kBufferOffset\<rparr>)
        = contents b"
      by (auto simp: Let_def)
    have "len \<le> length (m_buffer b) - (kBufferOffset + (m_tail b - m_head b))"
      using True ok assms by (simp add: writableBytes_ok)
    then show ?thesis
      using b' small True ok(1) writableBytes_ok [OF b'(5)]
      by (subst ensureWritableBytes.simps) simp
  next
    case False
    define newLen where "newLen = (if length (m_buffer b) * 2 > kBufferOffset + readableBytes b + len
      then length (m_buffer b) * 2 else kBufferOffset + readableBytes b + len)"
    have "kBufferOffset + readableBytes b + len \<le> newLen" by (simp add: newLen_def)
    moreover from this have "buffer_ok (MessageBuffer_new newLen)"
      by (intro buffer_ok_new) (simp add: kBufferOffset_def)
    ultimately obtain b' where b': "pushBack_buf (MessageBuffer_new newLen) b = Inr b'"
      "buffer_ok b'" "contents b' = contents b" "writableBytes b' = newLen - readableBytes b"
      using pushBack_buf_enough [of "MessageBuffer_new newLen" b] assms by auto
    have e: "ensureWritableBytes b len = Inr b'"
      using b' small False by (subst ensureWritableBytes.simps) (simp add: newLen_def [symmetric])
    show ?thesis using e b' \<open>kBufferOffset + readableBytes b + len \<le> newLen\<close> by simp
  qed
qed

lemma pushBack_spec:
  assumes "buffer_ok b"
  shows "\<exists>b'. pushBack b s = Inr b' \<and> buffer_ok b' \<and> contents b' = contents b @ s"
proof -
  obtain c where c: "ensureWritableBytes b (length s) = Inr c" "buffer_ok c"
    "contents c = contents b" "length s \<le> writableBytes c"
    using ensureWritableBytes_spec [OF assms, of "length s"] by auto
  then show ?thesis
    using append_at_tail [OF c(2,4)] by (auto simp: pushBack_def Let_def)
qed

lemma pushBack_buf_spec:
  assumes "buffer_ok b" and "buffer_ok buf"
  shows "\<exists>b'. pushBack_buf b buf = Inr b' \<and> buffer_ok b' \<and> contents b' = contents b @ contents buf"
proof -
  obtain c where c: "ensureWritableBytes b (readableBytes buf) = Inr c" "buffer_ok c"
    "contents c = contents b" "readableBytes buf \<le> writableBytes c"
    using ensureWritableBytes_spec [OF assms(1), of "readableBytes buf"] by auto
  then show ?thesis
    using append_at_tail [OF c(2), of "contents buf"] assms(2)
    by (auto simp: pushBack_buf.simps [of b buf] load_all length_contents Let_def)
qed

section \<open>Prepending\<close>

text \<open>
  The middle case of \<^verbatim>\<open>pushFront\<close> moves the readable bytes up by the length of the new data with
  \<^verbatim>\<open>std::copy\<close>, whose destination must not lie inside the source range.
\<close>

definition pushFront_overlaps :: "MessageBuffer \<Rightarrow> byte list \<Rightarrow> bool" where
  "pushFront_overlaps b s \<longleftrightarrow>
     m_head b < length s \<and> length s \<le> writableBytes b \<and> length s < readableBytes b"

lemma pushFront_overlap_fault:
  assumes "buffer_ok b" and "pushFront_overlaps b s"
  shows "pushFront b s = Inl OverlappingCopy"
proof -
  note ok = buffer_okD [OF assms(1)]
  have "length s < m_tail b - m_head b" "m_head b < length s"
    "length s \<le> length (m_buffer b) - m_tail b"
    using assms by (simp_all add: pushFront_overlaps_def readableBytes_ok writableBytes_ok)
  then have "m_head b + length s < m_tail b" "length s + m_tail b \<le> length (m_buffer b)"
    "\<not> length s \<le> m_head b"
    using ok by linarith+
  then show ?thesis
    using ok(1,2) assms by (simp add: pushFront_def std_copy_def pushFront_overlaps_def)
qed

lemma pushFront_reserved:
  assumes "buffer_ok b" and "length s \<le> m_head b"
  shows "\<exists>b'. pushFront b s = Inr b' \<and> buffer_ok b' \<and> contents b' = s @ contents b"
proof -
  note ok = buffer_okD [OF assms(1)]
  let ?v = "overwrite (m_head b - length s) s (m_buffer b)"
  have "segment (m_head b - length s) (length s + (m_tail b - m_head b)) ?v = s @ contents b"
    using assms ok by (subst segment_overwrite_prepend [of _ _ "m_head b"]) (simp_all add: contents_def)
  moreover have "length s + (m_tail b - m_head b) = m_tail b - (m_head b - length s)"
    using assms ok by linarith
  moreover have "length ?v = length (m_buffer b)"
    using assms ok by simp
  ultimately show ?thesis
    using assms ok by (simp add: pushFront_def memcpy_to_def buffer_ok_def contents_def)
qed

lemma pushFront_shift:
  assumes "buffer_ok b" and "m_head b < length s" and "length s \<le> writableBytes b"
    and "readableBytes b \<le> length s"
  shows "\<exists>b'. pushFront b s = Inr b' \<and> buffer_ok b' \<and> contents b' = s @ contents b"
proof -
  note ok = buffer_okD [OF assms(1)]
  let ?h = "m_head b" and ?n = "length s"
  let ?v = "overwrite (?h + ?n) (contents b) (m_buffer b)"
  let ?w = "overwrite ?h s ?v"
  have len: "length (contents b) = m_tail b - ?h"
    using assms(1) by (simp add: length_contents readableBytes_ok)
  have r: "m_tail b - ?h \<le> ?n" "?n \<le> length (m_buffer b) - m_tail b"
    using assms by (simp_all add: readableBytes_ok writableBytes_ok)
  have fits: "?h + ?n + length (contents b) \<le> length (m_buffer b)" using r ok len by linarith
  have lv: "length ?v = length (m_buffer b)" using fits by simp
  have lw: "length ?w = length (m_buffer b)" using fits lv by simp
  have copy: "std_copy b ?h (m_tail b) (?h + ?n) = Inr (b\<lparr>m_buffer := ?v\<rparr>)"
  proof -
    have "\<not> ?h + ?n < m_tail b" "\<not> length (m_buffer b) < ?h + ?n + (m_tail b - ?h)"
      using r ok fits len by linarith+
    then show ?thesis using ok(1,2) by (simp add: std_copy_def contents_def)
  qed
  have "segment ?h (?n + length (contents b)) ?w = s @ segment (?h + ?n) (length (contents b)) ?v"
    using fits lv by (subst segment_overwrite_prepend [of _ _ "?h + ?n"]) simp_all
  also have "segment (?h + ?n) (length (contents b)) ?v = contents b"
    by (rule segment_overwrite_same [OF fits])
  finally have "segment ?h (m_tail b + ?n - ?h) ?w = s @ contents b"
    using len ok by (simp add: add.commute)
  moreover have "m_tail b + ?n \<le> length (m_buffer b)" using r ok by linarith
  ultimately show ?thesis
    using copy assms lv lw fits ok
    by (simp add: pushFront_def memcpy_to_def buffer_ok_def contents_def)
qed

lemma pushFront_grow:
  assumes "buffer_ok b" and "m_head b < length s" and "writableBytes b < length s"
  shows "\<exists>b'. pushFront b s = Inr b' \<and> buffer_ok b' \<and> contents b' = s @ contents b"
proof -
  define newLen where "newLen = (if length s + readableBytes b < m_initCap b then m_initCap b
    else length s + readableBytes b)"
  have "8 \<le> newLen" using buffer_okD(4) [OF assms(1)] by (simp add: newLen_def kBufferOffset_def)
  then obtain c where c: "pushBack (MessageBuffer_new newLen) s = Inr c" "buffer_ok c" "contents c = s"
    using pushBack_spec [OF buffer_ok_new] by fastforce
  with pushBack_buf_spec [OF c(2) assms(1)] assms show ?thesis
    by (auto simp: pushFront_def newLen_def [symmetric])
qed

lemma pushFront_spec:
  assumes "buffer_ok b" and "\<not> pushFront_overlaps b s"
  shows "\<exists>b'. pushFront b s = Inr b' \<and> buffer_ok b' \<and> contents b' = s @ contents b"
  using assms pushFront_reserved [OF assms(1)] pushFront_shift [OF assms(1)] pushFront_grow [OF assms(1)]
  by (meson linorder_not_less pushFront_overlaps_def)

section \<open>Consuming\<close>

lemma retrieveAll_ok:
  "buffer_ok b \<Longrightarrow> buffer_ok (retrieveAll b) \<and> contents (retrieveAll b) = []"
  by (auto simp: retrieveAll_def buffer_ok_def contents_def kBufferOffset_def)

lemma retrieve_ok:
  "buffer_ok b \<Longrightarrow> buffer_ok (retrieve b n) \<and> contents (retrieve b n) = drop n (contents b)"
  using retrieveAll_ok [of b] length_contents [of b]
  by (auto simp: retrieve_def readableBytes_ok buffer_ok_def contents_def drop_segment)

lemma read_spec:
  assumes "buffer_ok b"
  shows "\<exists>b'. read b n = Inr (take n (contents b), b') \<and> buffer_ok b' \<and>
    contents b' = drop n (contents b)"
  using assms retrieve_ok [OF assms, of "min n (readableBytes b)"]
  by (auto simp: read_def load_contents length_contents [symmetric] min_def split: if_splits)

lemma retrieveUntil_spec:
  assumes "buffer_ok b" and "i \<le> readableBytes b"
  shows "\<exists>b'. retrieveUntil b (peek b + i) = Inr b' \<and> buffer_ok b' \<and>
    contents b' = drop i (contents b)"
  using assms retrieve_ok [OF assms(1), of i] buffer_okD(1) [OF assms(1)]
  by (auto simp: retrieveUntil_def peek_def beginWrite_def readableBytes_ok)

lemma findCRLF_spec:
  "findCRLF b = map_option (\<lambda>i. peek b + i) (find_from (contents b) CRLF 0)"
  by (simp add: findCRLF_def contents_def peek_def beginWrite_def)

lemma hasWritten_ok:
  "buffer_ok b \<Longrightarrow> n \<le> writableBytes b \<Longrightarrow>
     \<exists>b'. hasWritten b n = Inr b' \<and> buffer_ok b' \<and>
       contents b' = contents b @ segment (m_tail b) n (m_buffer b)"
  using segment_split [of "m_head b" "m_tail b - m_head b" n "m_buffer b"]
  by (auto simp: hasWritten_def buffer_ok_def contents_def writableBytes_ok)

lemma unwrite_ok:
  "buffer_ok b \<Longrightarrow> n \<le> readableBytes b \<Longrightarrow>
     \<exists>b'. unwrite b n = Inr b' \<and> buffer_ok b' \<and>
       contents b' = take (readableBytes b - n) (contents b)"
  by (auto simp: unwrite_def buffer_ok_def contents_def readableBytes_ok take_segment
      add.commute [of n])

section \<open>Integers in network byte order\<close>

lemma peekInt8_spec:
  assumes "buffer_ok b"
  shows "peekInt8 b =
    (if contents b = [] then Inl AssertionFailed else Inr (hd (contents b)))"
proof -
  have "(1 \<le> readableBytes b) = (contents b \<noteq> [])"
    using length_contents [OF assms] by (cases "contents b") auto
  then show ?thesis
    using assms by (cases "contents b") (auto simp: peekInt8_def load_contents assert_that_def)
qed

lemma peekInt16_spec:
  assumes "buffer_ok b"
  shows "peekInt16 le b = (if length (contents b) < 2 then Inl AssertionFailed
    else Inr (of_nat (of_le_bytes (rev (take 2 (contents b))))))"
  using assms
  by (auto simp: peekInt16_def load_contents ntohs_load length_contents assert_that_def)

lemma peekInt32_spec:
  assumes "buffer_ok b"
  shows "peekInt32 le b = (if length (contents b) < 4 then Inl AssertionFailed
    else Inr (of_nat (of_le_bytes (rev (take 4 (contents b))))))"
  using assms
  by (auto simp: peekInt32_def load_contents ntohl_load length_contents assert_that_def)

lemma peekInt64_spec:
  assumes "buffer_ok b"
  shows "peekInt64 le b = (if length (contents b) < 8 then Inl AssertionFailed
    else Inr (of_nat (of_le_bytes (rev (take 8 (contents b))))))"
  using assms
  by (auto simp: peekInt64_def load_contents ntoh64_load length_contents assert_that_def)

lemma pushBackInt_bytes:
  "pushBackInt16 le b s = pushBack b (be_bytes 2 (unat s))"
  "pushBackInt32 le b i = pushBack b (be_bytes 4 (unat i))"
  "pushBackInt64 le b l = pushBack b (be_bytes 8 (unat l))"
  by (simp_all add: pushBackInt16_def pushBackInt32_def pushBackInt64_def
      object_bytes_htons object_bytes_htonl object_bytes_hton64)

lemma pushFrontInt_bytes:
  "pushFrontInt16 le b s = pushFront b (be_bytes 2 (unat s))"
  "pushFrontInt32 le b i = pushFront b (be_bytes 4 (unat i))"
  "pushFrontInt64 le b l = pushFront b (be_bytes 8 (unat l))"
  by (simp_all add: pushFrontInt16_def pushFrontInt32_def pushFrontInt64_def
      object_bytes_htons object_bytes_htonl object_bytes_hton64)

lemma unat_be_bytes:
  "of_nat (of_le_bytes (rev (be_bytes 2 (unat s)))) = (s :: 16 word)"
  "of_nat (of_le_bytes (rev (be_bytes 4 (unat i)))) = (i :: 32 word)"
  "of_nat (of_le_bytes (rev (be_bytes 8 (unat l)))) = (l :: 64 word)"
proof -
  have "unat s < 2 ^ LENGTH(16)" "unat i < 2 ^ LENGTH(32)"
    by (rule unsigned_less)+
  then show "of_nat (of_le_bytes (rev (be_bytes 2 (unat s)))) = s"
    "of_nat (of_le_bytes (rev (be_bytes 4 (unat i)))) = i"
    by (simp_all add: of_le_bytes_rev_be_bytes)
  show "of_nat (of_le_bytes (rev (be_bytes 8 (unat l)))) = l"
    by (simp only: of_le_bytes_rev_be_bytes unat_mod_256_8) simp
qed

text \<open>Reading an integer whose big-endian bytes are at the front of the readable bytes.\<close>

lemma readInt_front:
  assumes "buffer_ok b"
  shows "contents b = be_bytes 2 (unat s) @ rest \<Longrightarrow>
      \<exists>b'. readInt16 le b = Inr (s, b') \<and> buffer_ok b' \<and> contents b' = rest"
    and "contents b = be_bytes 4 (unat i) @ rest \<Longrightarrow>
      \<exists>b'. readInt32 le b = Inr (i, b') \<and> buffer_ok b' \<and> contents b' = rest"
    and "contents b = be_bytes 8 (unat l) @ rest \<Longrightarrow>
      \<exists>b'. readInt64 le b = Inr (l, b') \<and> buffer_ok b' \<and> contents b' = rest"
  using retrieve_ok [OF assms, of 2] retrieve_ok [OF assms, of 4] retrieve_ok [OF assms, of 8]
  by (simp_all add: readInt16_def readInt32_def readInt64_def peekInt16_spec [OF assms]
      peekInt32_spec [OF assms] peekInt64_spec [OF assms] unat_be_bytes)

lemma readInt8_front:
  assumes "buffer_ok b" and "contents b = w # rest"
  shows "\<exists>b'. readInt8 b = Inr (w, b') \<and> buffer_ok b' \<and> contents b' = rest"
  using retrieve_ok [OF assms(1), of 1] assms
  by (simp add: readInt8_def peekInt8_spec)

lemma pushBackInts_readInts:
  assumes "buffer_ok b" and "contents b = []"
  shows "\<exists>b1 b2 b3 b4 b5 b6.
      pushBackInt16 le b s = Inr b1 \<and> pushBackInt32 le b1 i = Inr b2 \<and>
      pushBackInt64 le b2 l = Inr b3 \<and>
      readInt16 le b3 = Inr (s, b4) \<and> readInt32 le b4 = Inr (i, b5) \<and>
      readInt64 le b5 = Inr (l, b6) \<and> buffer_ok b6 \<and> contents b6 = []"
proof -
  obtain b1 where b1: "pushBackInt16 le b s = Inr b1" "buffer_ok b1"
    "contents b1 = be_bytes 2 (unat s)"
    using pushBack_spec [OF assms(1)] assms(2) unfolding pushBackInt_bytes by fastforce
  obtain b2 where b2: "pushBackInt32 le b1 i = Inr b2" "buffer_ok b2"
    "contents b2 = be_bytes 2 (unat s) @ be_bytes 4 (unat i)"
    using pushBack_spec [OF b1(2)] b1(3) unfolding pushBackInt_bytes by fastforce
  obtain b3 where b3: "pushBackInt64 le b2 l = Inr b3" "buffer_ok b3"
    "contents b3 = be_bytes 2 (unat s) @ be_bytes 4 (unat i) @ be_bytes 8 (unat l) @ []"
    using pushBack_spec [OF b2(2)] b2(3) unfolding pushBackInt_bytes by fastforce
  obtain b4 where b4: "readInt16 le b3 = Inr (s, b4)" "buffer_ok b4"
    "contents b4 = be_bytes 4 (unat i) @ be_bytes 8 (unat l) @ []"
    using readInt_front(1) [OF b3(2,3)] by blast
  obtain b5 where b5: "readInt32 le b4 = Inr (i, b5)" "buffer_ok b5"
    "contents b5 = be_bytes 8 (unat l) @ []"
    using readInt_front(2) [OF b4(2,3)] by blast
  obtain b6 where "readInt64 le b5 = Inr (l, b6)" "buffer_ok b6" "contents b6 = []"
    using readInt_front(3) [OF b5(2,3)] by blast
  with b1 b2 b3 b4 b5 show ?thesis by metis
qed

lemma pushFrontInt32_readInt32:
  assumes "buffer_ok m" and "4 \<le> m_head m"
  shows "\<exists>m1 m2. pushFrontInt32 le m i = Inr m1 \<and> readInt32 le m1 = Inr (i, m2) \<and>
        buffer_ok m2 \<and> contents m2 = contents m"
proof -
  obtain m1 where "pushFrontInt32 le m i = Inr m1" "buffer_ok m1"
    "contents m1 = be_bytes 4 (unat i) @ contents m"
    using pushFront_reserved [of m "be_bytes 4 (unat i)"] assms unfolding pushFrontInt_bytes by fastforce
  then show ?thesis
    using readInt_front(2) by blast
qed

section \<open>Reading from a descriptor\<close>

lemma int_cast_len_small: "n < 2 ^ 31 \<Longrightarrow> int_cast_len n = n"
  by (simp add: int_cast_len_def Let_def)

lemma readFd_within:
  assumes "buffer_ok b" and "readv vec = Inr data"
    and "vec = (if writableBytes b < kExtBuffer then [writableBytes b, kExtBuffer] else [writableBytes b])"
    and "writableBytes b < 2 ^ 31" and "length data \<le> writableBytes b"
  shows "\<exists>b'. readFd readv b = Inr (int (length data), None, b') \<and> buffer_ok b' \<and>
    contents b' = contents b @ data"
  using assms append_at_tail [OF assms(1,5)]
  by (auto simp: readFd_def int_cast_len_small Let_def)

text \<open>More bytes than fit: the vector is filled and the rest of the data is pushed back.\<close>

lemma readFd_overflow:
  assumes "buffer_ok b" and "readv [writableBytes b, kExtBuffer] = Inr data"
    and "writableBytes b < kExtBuffer"
    and "writableBytes b < length data" and "length data \<le> writableBytes b + kExtBuffer"
  shows "\<exists>b'. readFd readv b = Inr (int (length data), None, b') \<and> buffer_ok b' \<and>
    contents b' = contents b @ data"
proof -
  let ?w = "writableBytes b"
  let ?s = "take ?w data"
  have small: "?w < 2 ^ 31" using assms(3) by (simp add: kExtBuffer_def)
  have s: "length ?s = ?w" using assms(4) by simp
  obtain c where c: "memcpy_to b (m_tail b) ?s = Inr c"
    "buffer_ok (c\<lparr>m_tail := m_tail c + ?w\<rparr>)" "contents (c\<lparr>m_tail := m_tail c + ?w\<rparr>) = contents b @ ?s"
    using append_at_tail [OF assms(1), of ?s] s by (auto simp: Let_def)
  have "m_tail c + ?w = length (m_buffer c)"
  proof -
    have "m_tail c = m_tail b" "length (m_buffer c) = length (m_buffer b)"
      using c(1) s by (auto simp: memcpy_to_def split: if_splits)
    then show ?thesis using assms(1) buffer_okD(2) [OF assms(1)] by (simp add: writableBytes_ok)
  qed
  with c have d: "buffer_ok (c\<lparr>m_tail := length (m_buffer c)\<rparr>)"
    "contents (c\<lparr>m_tail := length (m_buffer c)\<rparr>) = contents b @ ?s" by simp_all
  have e: "take (length data - ?w) (drop ?w data @ replicate (kExtBuffer - length (drop ?w data)) 0)
    = drop ?w data" by simp
  obtain b' where "pushBack (c\<lparr>m_tail := length (m_buffer c)\<rparr>) (drop ?w data) = Inr b'"
    "buffer_ok b'" "contents b' = contents b @ ?s @ drop ?w data"
    using pushBack_spec [OF d(1), of "drop ?w data"] d(2) by auto
  then show ?thesis
    using assms c(1) e small by (simp add: readFd_def int_cast_len_small Let_def)
qed

section \<open>The contract of a byte stream\<close>

text \<open>
  What the users of a buffer rely on: pushing appends to the stream and pulling takes from its
  front, neither ever faults, and both keep the invariant. From it follows that the bytes pulled
  by any sequence of operations, followed by those still in the buffer, are the bytes pushed.
\<close>

datatype stream_op = Push "byte list" | Pull nat

fun pushed :: "stream_op list \<Rightarrow> byte list" where
  "pushed [] = []"
| "pushed (Push s # ops) = s @ pushed ops"
| "pushed (Pull n # ops) = pushed ops"

fun run_stream ::
  "('b \<Rightarrow> byte list \<Rightarrow> 'b result) \<Rightarrow> ('b \<Rightarrow> nat \<Rightarrow> (byte list \<times> 'b) result) \<Rightarrow>
     'b \<Rightarrow> stream_op list \<Rightarrow> (byte list \<times> 'b) result" where
  "run_stream push pull b [] = Inr ([], b)"
| "run_stream push pull b (Push s # ops) =
     and_then (push b s) (\<lambda>b'. run_stream push pull b' ops)"
| "run_stream push pull b (Pull n # ops) =
     and_then (pull b n) (\<lambda>(out, b').
     and_then (run_stream push pull b' ops) (\<lambda>(out', b''). Inr (out @ out', b'')))"

locale byte_stream =
  fixes inv :: "'b \<Rightarrow> bool"
    and abs :: "'b \<Rightarrow> byte list"
    and push :: "'b \<Rightarrow> byte list \<Rightarrow> 'b result"
    and pull :: "'b \<Rightarrow> nat \<Rightarrow> (byte list \<times> 'b) result"
  assumes push_law: "inv b \<Longrightarrow> \<exists>b'. push b s = Inr b' \<and> inv b' \<and> abs b' = abs b @ s"
    and pull_law: "inv b \<Longrightarrow>
      \<exists>b'. pull b n = Inr (take n (abs b), b') \<and> inv b' \<and> abs b' = drop n (abs b)"
begin

lemma stream_fifo:
  "inv b \<Longrightarrow> \<exists>out b'. run_stream push pull b ops = Inr (out, b') \<and> inv b' \<and>
     out @ abs b' = abs b @ pushed ops"
proof (induction ops arbitrary: b)
  case Nil
  then show ?case by simp
next
  case (Cons op ops)
  show ?case
  proof (cases op)
    case (Push s)
    then show ?thesis using push_law [OF Cons.prems, of s] Cons.IH by fastforce
  next
    case (Pull n)
    obtain c where c: "pull b n = Inr (take n (abs b), c)" "inv c" "abs c = drop n (abs b)"
      using pull_law [OF Cons.prems, of n] by auto
    obtain out b' where b': "run_stream push pull c ops = Inr (out, b')" "inv b'"
      "out @ abs b' = abs c @ pushed ops"
      using Cons.IH [OF c(2)] by auto
    have "(take n (abs b) @ out) @ abs b' = abs b @ pushed ops"
      using b' c by (metis append.assoc append_take_drop_id)
    then show ?thesis using Pull b' c by simp
  qed
qed

lemma push_pull_all:
  assumes "inv b" and "abs b = []"
  shows "\<exists>b' b''. push b s = Inr b' \<and> pull b' (length s) = Inr (s, b'') \<and> inv b'' \<and> abs b'' = []"
  using push_law [OF assms(1), of s] pull_law [of _ "length s"] assms(2) by fastforce

end

interpretation mb: byte_stream buffer_ok contents pushBack read
  by unfold_locales (simp_all add: pushBack_spec read_spec)

section \<open>Properties\<close>

text \<open>
  C1. A buffer built with an initial length of at least 8 is a byte stream: no sequence of
  \<^verbatim>\<open>pushBack\<close> and \<^verbatim>\<open>read\<close> calls faults, whatever moves and reallocations happen inside, the
  invariant holds afterwards, and the bytes read followed by those still readable are exactly the
  bytes pushed, in order.
\<close>

theorem buffer_stream_fifo:
  assumes "8 \<le> len"
  shows "\<exists>out b. run_stream pushBack read (MessageBuffer_new len) ops = Inr (out, b) \<and>
    buffer_ok b \<and> out @ contents b = pushed ops"
  using mb.stream_fifo [OF buffer_ok_new [OF assms], of ops] by simp

theorem buffer_stream_fifo_witness:
  "\<exists>out b. run_stream pushBack read (MessageBuffer_new 8)
      [Push [1, 2, 3, 4, 5, 6, 7, 8], Pull 6, Push [9, 10, 11], Push [12], Pull 1] = Inr (out, b) \<and>
    buffer_ok b \<and> out @ contents b = [1, 2, 3, 4, 5, 6, 7, 8, 9, 10, 11, 12]"
  using buffer_stream_fifo
    [of 8 "[Push [1, 2, 3, 4, 5, 6, 7, 8], Pull 6, Push [9, 10, 11], Push [12], Pull 1]"] by simp



text \<open>
  C4. \<^verbatim>\<open>pushFront\<close> puts the data in front of the readable bytes and keeps the invariant, except in
  exactly one situation, in which it calls \<^verbatim>\<open>std::copy\<close> with a destination inside the source
  range: the data does not fit before the head, does fit after the tail, and is shorter than the
  readable bytes.
\<close>

theorem pushFront_correct:
  assumes "buffer_ok b"
  shows "if m_head b < length s \<and> length s \<le> writableBytes b \<and> length s < readableBytes b
    then pushFront b s = Inl OverlappingCopy
    else \<exists>b'. pushFront b s = Inr b' \<and> buffer_ok b' \<and> contents b' = s @ contents b"
  using pushFront_spec [OF assms, of s] pushFront_overlap_fault [OF assms, of s]
  by (simp add: pushFront_overlaps_def)

theorem pushFront_correct_witness:
  "(let b = \<lparr>m_head = 8, m_tail = 18, m_initCap = 32, m_buffer = replicate 40 0\<rparr>
    in pushFront b (replicate 9 7) = Inl OverlappingCopy \<and>
       (\<exists>b'. pushFront b (replicate 8 7) = Inr b' \<and> contents b' = replicate 8 7 @ replicate 10 0))"
  using pushFront_correct [of "\<lparr>m_head = 8, m_tail = 18, m_initCap = 32, m_buffer = replicate 40 0\<rparr>" "replicate 9 7"]
    pushFront_correct [of "\<lparr>m_head = 8, m_tail = 18, m_initCap = 32, m_buffer = replicate 40 0\<rparr>" "replicate 8 7"]
  by (auto simp: Let_def buffer_ok_def kBufferOffset_def readableBytes_def writableBytes_def
      contents_def segment_def)



text \<open>
  C6. \<^verbatim>\<open>readFd\<close> appends exactly the bytes that \<^verbatim>\<open>readv\<close> delivers, also when they overflow into the
  stack buffer and the vector has to grow, and returns their number; on an error it returns -1
  with the error number and leaves the buffer alone. The free space must be below 2 to the power
  31, because the code passes it through an \<^verbatim>\<open>int\<close>.
\<close>

theorem readFd_correct:
  assumes "buffer_ok b" and "writableBytes b < 2 ^ 31"
    and readv_bound: "\<And>vec data. readv vec = Inr data \<Longrightarrow> length data \<le> sum_list vec"
  shows "case readv (if writableBytes b < 8192 then [writableBytes b, 8192] else [writableBytes b]) of
      Inl errno \<Rightarrow> readFd readv b = Inr (-1, Some errno, b)
    | Inr data \<Rightarrow> \<exists>b'. readFd readv b = Inr (int (length data), None, b') \<and> buffer_ok b' \<and>
        contents b' = contents b @ data"
proof (cases "readv (if writableBytes b < 8192 then [writableBytes b, 8192] else [writableBytes b])")
  case (Inl errno)
  then show ?thesis using int_cast_len_small [OF assms(2)]
    by (cases "writableBytes b < 8192") (simp_all add: readFd_def kExtBuffer_def Let_def)
next
  case (Inr data)
  show ?thesis
  proof (cases "length data \<le> writableBytes b")
    case True
    from readFd_within [unfolded kExtBuffer_def, OF assms(1) _ refl assms(2) True, of readv] Inr
    show ?thesis by simp
  next
    case False
    then have "writableBytes b < 8192" using readv_bound [OF Inr] by (auto split: if_splits)
    with readFd_overflow [OF assms(1), of readv data] readv_bound [OF Inr] Inr False show ?thesis
      by (simp add: kExtBuffer_def)
  qed
qed

theorem readFd_correct_witness:
  "\<exists>b'. readFd (\<lambda>vec. Inr (take (sum_list vec) (replicate 20 1))) (MessageBuffer_new 8) = Inr (20, None, b') \<and>
     buffer_ok b' \<and> contents b' = replicate 20 1"
  using readFd_correct [of "MessageBuffer_new 8" "\<lambda>vec. Inr (take (sum_list vec) (replicate 20 1))"]
    buffer_ok_new [of 8] by simp

text \<open>
  C33. With an initial length below 8, or for a buffer that has been moved from, \<^verbatim>\<open>retrieveAll\<close>
  leaves the head beyond the end of the vector, so that the number of writable bytes wraps around
  and the next non-empty \<^verbatim>\<open>pushBack\<close> writes out of bounds.
\<close>

theorem retrieveAll_small_capacity:
  assumes "len < 8" and "s \<noteq> []" and "length s \<le> 2 ^ 63"
  shows "pushBack (retrieveAll (MessageBuffer_new len)) s = Inl OutOfBounds \<and>
    pushBack (retrieveAll (snd (MessageBuffer_move b))) s = Inl OutOfBounds"
proof -
  have small: "pushBack c s = Inl OutOfBounds" if "m_tail c = 8" "length (m_buffer c) < 8" for c
  proof -
    have "length s \<le> writableBytes c"
      using that assms(3) by (simp add: writableBytes_def size_sub_def)
    then show ?thesis
      using that assms(2) by (simp add: pushBack_def ensureWritableBytes.simps memcpy_to_def)
  qed
  show ?thesis
    using assms(1)
    by (auto intro!: small simp: retrieveAll_def MessageBuffer_new_def MessageBuffer_move_def
        MessageBuffer_zero_def kBufferOffset_def vector_resize_def)
qed

theorem retrieveAll_small_capacity_witness:
  "pushBack (retrieveAll (MessageBuffer_new 4)) [1] = Inl OutOfBounds"
  using retrieveAll_small_capacity [of 4 "[1]"] by simp

end
