(* ===== verification/Lockfree_Queue.thy ===== *)
theory Lockfree_Queue
  imports Prelude
begin

text \<open>
  \<^verbatim>\<open>netpoll/util/lockfree_queue.h\<close>: \<^verbatim>\<open>MpscQueue\<close>, the lock-free queue with many producers and one
  consumer through which other threads hand functions to an event loop.

  The heap of nodes is explicit, with \<^verbatim>\<open>new\<close> returning any address that is not allocated and
  \<^verbatim>\<open>delete\<close> removing the node. \<^verbatim>\<open>enqueue\<close> and \<^verbatim>\<open>dequeue\<close> are split at their shared accesses into
  actions, which any number of producer threads and the consumer interleave. Dereferencing a
  node or an item that has been deleted is the fault \<open>UseAfterFree\<close>. The fields \<open>enqueued\<close> and
  \<open>dequeued\<close> record the history: the items in the order of the exchanges on \<^verbatim>\<open>head_\<close>, and the
  items the consumer has taken.
\<close>

section \<open>Nodes, producers and the consumer\<close>

record 'a BufferNode =
  dataPtr :: "'a option"
  nextPtr :: "nat option"

text \<open>Where a producer is inside \<^verbatim>\<open>enqueue\<close>, with the values of its locals.\<close>

datatype producer = PIdle | PAllocated nat | PExchanged nat nat

text \<open>Where the consumer is inside \<^verbatim>\<open>dequeue\<close>.\<close>

datatype 'a consumer = CIdle | CLoaded nat nat | CTaken nat nat 'a | CStored nat 'a

record 'a MpscQueue =
  heap :: "nat \<Rightarrow> 'a BufferNode option"
  q_head :: nat
  q_tail :: nat
  producers :: "nat \<Rightarrow> producer"
  consumer :: "'a consumer"
  enqueued :: "'a list"
  dequeued :: "'a list"

definition MpscQueue_new :: "nat \<Rightarrow> 'a MpscQueue" where
  "MpscQueue_new a =
     \<lparr>heap = (\<lambda>_. None)(a := Some \<lparr>dataPtr = None, nextPtr = None\<rparr>), q_head = a, q_tail = a,
      producers = (\<lambda>_. PIdle), consumer = CIdle, enqueued = [], dequeued = []\<rparr>"

definition deref :: "'a MpscQueue \<Rightarrow> nat \<Rightarrow> 'a BufferNode result" where
  "deref q a = (case heap q a of Some n \<Rightarrow> Inr n | None \<Rightarrow> Inl UseAfterFree)"

definition free :: "nat \<Rightarrow> 'a MpscQueue \<Rightarrow> 'a MpscQueue result" where
  "free a q = (case heap q a of
      Some n \<Rightarrow> Inr (q\<lparr>heap := (heap q)(a := None)\<rparr>) | None \<Rightarrow> Inl UseAfterFree)"

section \<open>The steps of \<open>enqueue\<close> and \<open>dequeue\<close>\<close>

definition enqueue_new :: "nat \<Rightarrow> nat \<Rightarrow> 'a \<Rightarrow> 'a MpscQueue \<Rightarrow> 'a MpscQueue" where
  "enqueue_new t a x q =
     q\<lparr>heap := (heap q)(a := Some \<lparr>dataPtr = Some x, nextPtr = None\<rparr>),
       producers := (producers q)(t := PAllocated a)\<rparr>"

definition enqueue_exchange :: "nat \<Rightarrow> nat \<Rightarrow> 'a MpscQueue \<Rightarrow> 'a MpscQueue" where
  "enqueue_exchange t node q =
     (let prevhead = q_head q
      in q\<lparr>q_head := node, producers := (producers q)(t := PExchanged prevhead node),
           enqueued := enqueued q @
             (case heap q node of Some n \<Rightarrow> (case dataPtr n of Some x \<Rightarrow> [x] | None \<Rightarrow> []) | None \<Rightarrow> [])\<rparr>)"

definition enqueue_link :: "nat \<Rightarrow> nat \<Rightarrow> nat \<Rightarrow> 'a MpscQueue \<Rightarrow> 'a MpscQueue result" where
  "enqueue_link t prevhead node q =
     and_then (deref q prevhead) (\<lambda>n.
     Inr (q\<lparr>heap := (heap q)(prevhead := Some (n\<lparr>nextPtr := Some node\<rparr>)),
            producers := (producers q)(t := PIdle)\<rparr>))"

definition dequeue_load :: "'a MpscQueue \<Rightarrow> 'a MpscQueue result" where
  "dequeue_load q =
     (let tail = q_tail q
      in and_then (deref q tail) (\<lambda>n.
         case nextPtr n of
           None \<Rightarrow> Inr q
         | Some nxt \<Rightarrow> Inr (q\<lparr>consumer := CLoaded tail nxt\<rparr>)))"

definition dequeue_take :: "nat \<Rightarrow> nat \<Rightarrow> 'a MpscQueue \<Rightarrow> 'a MpscQueue result" where
  "dequeue_take tail nxt q =
     and_then (deref q nxt) (\<lambda>n.
     case dataPtr n of
       None \<Rightarrow> Inl UseAfterFree
     | Some x \<Rightarrow> Inr (q\<lparr>heap := (heap q)(nxt := Some (n\<lparr>dataPtr := None\<rparr>)),
                        consumer := CTaken tail nxt x\<rparr>))"

definition dequeue_store :: "nat \<Rightarrow> nat \<Rightarrow> 'a \<Rightarrow> 'a MpscQueue \<Rightarrow> 'a MpscQueue" where
  "dequeue_store tail nxt x q =
     q\<lparr>q_tail := nxt, consumer := CStored tail x, dequeued := dequeued q @ [x]\<rparr>"

definition dequeue_delete :: "nat \<Rightarrow> 'a MpscQueue \<Rightarrow> 'a MpscQueue result" where
  "dequeue_delete tail q = and_then (free tail q) (\<lambda>q'. Inr (q'\<lparr>consumer := CIdle\<rparr>))"

definition empty :: "'a MpscQueue \<Rightarrow> bool result" where
  "empty q = and_then (deref q (q_tail q)) (\<lambda>n. Inr (nextPtr n = None))"

text \<open>The operations as one thread runs them without interference.\<close>

definition enqueue :: "nat \<Rightarrow> nat \<Rightarrow> 'a \<Rightarrow> 'a MpscQueue \<Rightarrow> 'a MpscQueue result" where
  "enqueue t a x q =
     (let q1 = enqueue_new t a x q; q2 = enqueue_exchange t a q1
      in enqueue_link t (q_head q1) a q2)"

definition dequeue :: "'a MpscQueue \<Rightarrow> ('a option \<times> 'a MpscQueue) result" where
  "dequeue q =
     and_then (dequeue_load q) (\<lambda>q1.
     case consumer q1 of
       CLoaded tail nxt \<Rightarrow>
         and_then (dequeue_take tail nxt q1) (\<lambda>q2.
         case consumer q2 of
           CTaken tail nxt x \<Rightarrow>
             and_then (dequeue_delete tail (dequeue_store tail nxt x q2)) (\<lambda>q3. Inr (Some x, q3))
         | _ \<Rightarrow> Inr (None, q2))
     | _ \<Rightarrow> Inr (None, q1))"

section \<open>Interleaved execution\<close>

datatype 'a action =
    Enq_New nat nat 'a
  | Enq_Exchange nat
  | Enq_Link nat
  | Deq_Load
  | Deq_Take
  | Deq_Store
  | Deq_Delete

text \<open>One action; \<open>None\<close> when the thread is not at that point of its operation.\<close>

fun act :: "'a action \<Rightarrow> 'a MpscQueue \<Rightarrow> 'a MpscQueue result option" where
  "act (Enq_New t a x) q =
     (if producers q t = PIdle \<and> heap q a = None then Some (Inr (enqueue_new t a x q)) else None)"
| "act (Enq_Exchange t) q =
     (case producers q t of PAllocated n \<Rightarrow> Some (Inr (enqueue_exchange t n q)) | _ \<Rightarrow> None)"
| "act (Enq_Link t) q =
     (case producers q t of PExchanged p n \<Rightarrow> Some (enqueue_link t p n q) | _ \<Rightarrow> None)"
| "act Deq_Load q = (if consumer q = CIdle then Some (dequeue_load q) else None)"
| "act Deq_Take q =
     (case consumer q of CLoaded t n \<Rightarrow> Some (dequeue_take t n q) | _ \<Rightarrow> None)"
| "act Deq_Store q =
     (case consumer q of CTaken t n x \<Rightarrow> Some (Inr (dequeue_store t n x q)) | _ \<Rightarrow> None)"
| "act Deq_Delete q =
     (case consumer q of CStored t x \<Rightarrow> Some (dequeue_delete t q) | _ \<Rightarrow> None)"

inductive reachable :: "'a MpscQueue \<Rightarrow> bool" where
  reachable_new: "reachable (MpscQueue_new a)"
| reachable_act: "reachable q \<Longrightarrow> act e q = Some (Inr q') \<Longrightarrow> reachable q'"

text \<open>A schedule: actions that are not enabled are skipped.\<close>

fun run_acts :: "'a action list \<Rightarrow> 'a MpscQueue \<Rightarrow> 'a MpscQueue result" where
  "run_acts [] q = Inr q"
| "run_acts (e # es) q =
     (case act e q of None \<Rightarrow> run_acts es q | Some r \<Rightarrow> and_then r (run_acts es))"

section \<open>Edges of a list\<close>

definition edges :: "'b list \<Rightarrow> ('b \<times> 'b) set" where
  "edges xs = set (zip xs (tl xs))"

lemma edges_simps [simp]:
  "edges [] = {}" "edges [x] = {}" "edges (x # y # ys) = insert (x, y) (edges (y # ys))"
  by (simp_all add: edges_def)

lemma edges_snoc: "xs \<noteq> [] \<Longrightarrow> edges (xs @ [y]) = insert (last xs, y) (edges xs)"
  by (induction xs rule: induct_list012) auto

lemma edges_mem: "(a, b) \<in> edges xs \<Longrightarrow> a \<in> set xs \<and> b \<in> set (tl xs)"
  by (induction xs rule: induct_list012) auto

lemma edges_fun: "distinct xs \<Longrightarrow> (a, b) \<in> edges xs \<Longrightarrow> (a, c) \<in> edges xs \<Longrightarrow> b = c"
  by (induction xs rule: induct_list012) (auto dest: edges_mem)

lemma edges_not_last: "distinct xs \<Longrightarrow> (a, b) \<in> edges xs \<Longrightarrow> a \<noteq> last xs"
proof (induction xs rule: induct_list012)
  case (3 x y zs)
  then show ?case using last_in_set [of "y # zs"] by (auto simp del: last_in_set)
qed auto

section \<open>The invariant\<close>

text \<open>
  \<open>ch\<close> lists the nodes from \<^verbatim>\<open>tail_\<close> to \<^verbatim>\<open>head_\<close> in the order of the exchanges, with the items
  they carry (the item of the first node has been taken). A missing link belongs to a producer
  between its exchange and its store.
\<close>

definition next_of :: "'a MpscQueue \<Rightarrow> nat \<Rightarrow> nat option" where
  "next_of q a = Option.bind (heap q a) nextPtr"

definition data_of :: "'a MpscQueue \<Rightarrow> nat \<Rightarrow> 'a option" where
  "data_of q a = Option.bind (heap q a) dataPtr"

definition taken :: "'a MpscQueue \<Rightarrow> nat \<Rightarrow> bool" where
  "taken q a = (case consumer q of CTaken t n x \<Rightarrow> a = n | _ \<Rightarrow> False)"

definition chain_inv :: "'a MpscQueue \<Rightarrow> (nat \<times> 'a) list \<Rightarrow> bool" where
  "chain_inv q ch \<longleftrightarrow>
     ch \<noteq> [] \<and> distinct (map fst ch) \<and> fst (hd ch) = q_tail q \<and> fst (last ch) = q_head q \<and>
     (\<forall>a \<in> fst ` set ch. heap q a \<noteq> None) \<and>
     next_of q (q_head q) = None \<and>
     (\<forall>(a, b) \<in> edges (map fst ch). next_of q a = Some b \<or>
        next_of q a = None \<and> (\<exists>t. producers q t = PExchanged a b)) \<and>
     (\<forall>(a, v) \<in> set (tl ch). data_of q a = (if taken q a then None else Some v))"

fun node_of :: "producer \<Rightarrow> nat option" where
  "node_of PIdle = None"
| "node_of (PAllocated n) = Some n"
| "node_of (PExchanged p n) = Some n"

definition producer_ok :: "'a MpscQueue \<Rightarrow> (nat \<times> 'a) list \<Rightarrow> producer \<Rightarrow> bool" where
  "producer_ok q ch p \<longleftrightarrow>
     (case p of
        PIdle \<Rightarrow> True
      | PAllocated n \<Rightarrow> n \<notin> fst ` set ch \<and> data_of q n \<noteq> None \<and> next_of q n = None \<and>
          (\<forall>x. consumer q \<noteq> CStored n x)
      | PExchanged a b \<Rightarrow> (a, b) \<in> edges (map fst ch) \<and> next_of q a = None)"

definition producers_inv :: "'a MpscQueue \<Rightarrow> (nat \<times> 'a) list \<Rightarrow> bool" where
  "producers_inv q ch \<longleftrightarrow>
     (\<forall>t. producer_ok q ch (producers q t)) \<and>
     (\<forall>t t' n. node_of (producers q t) = Some n \<longrightarrow> node_of (producers q t') = Some n \<longrightarrow> t = t')"

definition consumer_inv :: "'a MpscQueue \<Rightarrow> (nat \<times> 'a) list \<Rightarrow> bool" where
  "consumer_inv q ch \<longleftrightarrow>
     (case consumer q of
        CIdle \<Rightarrow> True
      | CLoaded t n \<Rightarrow> t = q_tail q \<and> next_of q t = Some n \<and> (\<exists>x. tl ch \<noteq> [] \<and> hd (tl ch) = (n, x))
      | CTaken t n x \<Rightarrow> t = q_tail q \<and> next_of q t = Some n \<and> tl ch \<noteq> [] \<and> hd (tl ch) = (n, x)
      | CStored t x \<Rightarrow> t \<notin> fst ` set ch \<and> heap q t \<noteq> None)"

definition mpsc_inv :: "'a MpscQueue \<Rightarrow> (nat \<times> 'a) list \<Rightarrow> bool" where
  "mpsc_inv q ch \<longleftrightarrow> chain_inv q ch \<and> producers_inv q ch \<and> consumer_inv q ch \<and>
     enqueued q = dequeued q @ map snd (tl ch)"

lemmas mpsc_inv_defs = mpsc_inv_def chain_inv_def producers_inv_def consumer_inv_def
  next_of_def data_of_def taken_def

lemma mpsc_inv_new: "mpsc_inv (MpscQueue_new a) [(a, x)]"
  by (simp add: mpsc_inv_defs MpscQueue_new_def producer_ok_def)

text \<open>Moving one producer on keeps the rest, when the other producers do not notice.\<close>

lemma producers_inv_update:
  assumes "producers_inv q ch" and "producers q' = (producers q)(t := p)"
    and "\<And>t'. t' \<noteq> t \<Longrightarrow> producer_ok q ch (producers q t') \<Longrightarrow> producer_ok q' ch' (producers q t')"
    and "producer_ok q' ch' p"
    and "\<And>n t'. node_of p = Some n \<Longrightarrow> t' \<noteq> t \<Longrightarrow> node_of (producers q t') \<noteq> Some n"
  shows "producers_inv q' ch'"
  using assms unfolding producers_inv_def fun_upd_def by metis

lemma producer_ok_frame:
  assumes "producer_ok q ch p"
    and "\<And>n. p = PAllocated n \<Longrightarrow> n \<notin> fst ` set ch \<Longrightarrow> data_of q n \<noteq> None \<Longrightarrow>
      heap q' n = heap q n \<and> n \<notin> fst ` set ch' \<and>
      ((\<exists>x. consumer q' = CStored n x) \<longrightarrow> (\<exists>x. consumer q = CStored n x))"
    and "\<And>a b. p = PExchanged a b \<Longrightarrow> (a, b) \<in> edges (map fst ch) \<Longrightarrow> next_of q a = None \<Longrightarrow>
      next_of q' a = None \<and> (a, b) \<in> edges (map fst ch')"
  shows "producer_ok q' ch' p"
  using assms by (cases p) (auto simp: producer_ok_def data_of_def next_of_def)

lemma producers_invD:
  assumes "producers_inv q ch"
  shows "producers q t = PAllocated n \<Longrightarrow> n \<notin> fst ` set ch \<and> data_of q n \<noteq> None \<and>
      next_of q n = None \<and> (\<forall>x. consumer q \<noteq> CStored n x)"
    and "producers q t = PExchanged a b \<Longrightarrow> (a, b) \<in> edges (map fst ch) \<and> next_of q a = None"
    and "node_of (producers q t) = Some n \<Longrightarrow> node_of (producers q t') = Some n \<Longrightarrow> t = t'"
proof -
  have "producer_ok q ch (producers q t)" using assms by (simp add: producers_inv_def)
  then show "producers q t = PAllocated n \<Longrightarrow> n \<notin> fst ` set ch \<and> data_of q n \<noteq> None \<and>
      next_of q n = None \<and> (\<forall>x. consumer q \<noteq> CStored n x)"
    "producers q t = PExchanged a b \<Longrightarrow> (a, b) \<in> edges (map fst ch) \<and> next_of q a = None"
    by (simp_all add: producer_ok_def)
qed (use assms in \<open>unfold producers_inv_def, blast\<close>)

lemma producers_inv_same:
  assumes "producers_inv q ch" and "producers q' = producers q"
    and "\<And>t. producer_ok q ch (producers q t) \<Longrightarrow> producer_ok q' ch' (producers q t)"
  shows "producers_inv q' ch'"
  using assms unfolding producers_inv_def by simp

lemma chain_invI:
  assumes "ch \<noteq> []" and "distinct (map fst ch)" and "fst (hd ch) = q_tail q"
    and "fst (last ch) = q_head q" and "\<And>a. a \<in> fst ` set ch \<Longrightarrow> heap q a \<noteq> None"
    and "next_of q (q_head q) = None"
    and "\<And>a b. (a, b) \<in> edges (map fst ch) \<Longrightarrow> next_of q a = Some b \<or>
        next_of q a = None \<and> (\<exists>t. producers q t = PExchanged a b)"
    and "\<And>a v. (a, v) \<in> set (tl ch) \<Longrightarrow> data_of q a = (if taken q a then None else Some v)"
  shows "chain_inv q ch"
  using assms unfolding chain_inv_def by blast

lemma chain_invD:
  assumes "chain_inv q ch"
  shows "ch \<noteq> []" and "distinct (map fst ch)" and "fst (hd ch) = q_tail q"
    and "fst (last ch) = q_head q" and "a \<in> fst ` set ch \<Longrightarrow> heap q a \<noteq> None"
    and "next_of q (q_head q) = None"
    and "(a, b) \<in> edges (map fst ch) \<Longrightarrow> next_of q a = Some b \<or>
        next_of q a = None \<and> (\<exists>t. producers q t = PExchanged a b)"
    and "(a, v) \<in> set (tl ch) \<Longrightarrow> data_of q a = (if taken q a then None else Some v)"
  using assms unfolding chain_inv_def by blast+

lemma chain_alive: "chain_inv q ch \<Longrightarrow> a \<in> fst ` set ch \<Longrightarrow> heap q a \<noteq> None"
  unfolding chain_inv_def by blast

lemma tl_in_set: "(a, v) \<in> set (tl ch) \<Longrightarrow> a \<in> fst ` set ch"
  by (cases ch) force+

lemma edge_nodes: "(a, b) \<in> edges (map fst ch) \<Longrightarrow> a \<in> fst ` set ch \<and> b \<in> fst ` set ch"
  using edges_mem [of a b "map fst ch"] by (cases ch) auto

text \<open>Changing nodes outside the chain keeps the chain.\<close>

lemma chain_inv_frame:
  assumes "chain_inv q ch" and "q_tail q' = q_tail q" and "q_head q' = q_head q"
    and "\<And>a. a \<in> fst ` set ch \<Longrightarrow> heap q' a = heap q a"
    and "\<And>t a b. producers q t = PExchanged a b \<Longrightarrow> (\<exists>t'. producers q' t' = PExchanged a b)"
    and "\<And>a. taken q' a = taken q a"
  shows "chain_inv q' ch"
proof -
  have mem: "q_head q \<in> fst ` set ch"
    using assms(1) unfolding chain_inv_def by (metis imageI last_in_set)
  have nx: "next_of q' a = next_of q a" "data_of q' a = data_of q a"
    if "a \<in> fst ` set ch" for a
    using assms(4) [OF that] by (simp_all add: next_of_def data_of_def)
  show ?thesis
    unfolding chain_inv_def
  proof (intro conjI)
    show "\<forall>(a, b) \<in> edges (map fst ch). next_of q' a = Some b \<or>
        next_of q' a = None \<and> (\<exists>t. producers q' t = PExchanged a b)"
      using assms(1,5) nx(1) unfolding chain_inv_def by (fastforce dest: edge_nodes)
    show "\<forall>(a, v) \<in> set (tl ch). data_of q' a = (if taken q' a then None else Some v)"
      using assms(1,6) nx(2) unfolding chain_inv_def by (fastforce dest: tl_in_set)
  qed (use assms(1-4) nx(1) [OF mem] in \<open>auto simp: chain_inv_def\<close>)
qed

lemma mpsc_inv_enqueue_new:
  assumes "mpsc_inv q ch" and "producers q t = PIdle" and "heap q a = None"
  shows "mpsc_inv (enqueue_new t a x q) ch"
proof -
  let ?q = "enqueue_new t a x q"
  have ch: "chain_inv q ch" and pr: "producers_inv q ch" and co: "consumer_inv q ch"
    using assms(1) by (simp_all add: mpsc_inv_def)
  have out: "a \<notin> fst ` set ch" using chain_alive [OF ch] assms(3) by blast
  have h: "consumer ?q = consumer q" "q_tail ?q = q_tail q" "q_head ?q = q_head q"
    "heap ?q a = Some \<lparr>dataPtr = Some x, nextPtr = None\<rparr>"
    by (simp_all add: enqueue_new_def)
  have nx: "heap ?q b = heap q b" "next_of ?q b = next_of q b" "data_of ?q b = data_of q b"
    if "b \<noteq> a" for b
    using that by (simp_all add: enqueue_new_def next_of_def data_of_def)
  have ps: "producers ?q = (producers q)(t := PAllocated a)" by (simp add: enqueue_new_def)
  have dead: "data_of q a = None" using assms(3) by (simp add: data_of_def)
  have ex: "\<exists>t'. producers ?q t' = PExchanged c d" if "producers q t'' = PExchanged c d" for t'' c d
    using that assms(2) ps by (intro exI [of _ t'']) auto
  have "chain_inv ?q ch"
  proof (rule chain_inv_frame [OF ch h(2,3)])
    show "heap ?q b = heap q b" if "b \<in> fst ` set ch" for b using that out nx(1) by metis
  qed (use ex h(1) in \<open>simp_all add: taken_def\<close>)
  moreover have "producers_inv ?q ch"
  proof (rule producers_inv_update [OF pr ps])
    fix t' assume "producer_ok q ch (producers q t')"
    then show "producer_ok ?q ch (producers q t')"
    proof (rule producer_ok_frame)
      show "heap ?q n = heap q n \<and> n \<notin> fst ` set ch \<and>
          ((\<exists>y. consumer ?q = CStored n y) \<longrightarrow> (\<exists>y. consumer q = CStored n y))"
        if "n \<notin> fst ` set ch" "data_of q n \<noteq> None" for n
        using that dead nx(1) h(1) by metis
      show "next_of ?q c = None \<and> (c, d) \<in> edges (map fst ch)"
        if "(c, d) \<in> edges (map fst ch)" "next_of q c = None" for c d
        using that edge_nodes [OF that(1)] out nx(2) by metis
    qed
  next
    show "producer_ok ?q ch (PAllocated a)"
      using out h co assms(3)
      by (auto simp: producer_ok_def data_of_def next_of_def consumer_inv_def)
  next
    fix n t' assume "node_of (PAllocated a) = Some n"
    then show "node_of (producers q t') \<noteq> Some n"
      using producers_invD(1,2) [OF pr, of t'] out dead
      by (cases "producers q t'") (auto dest: edge_nodes)
  qed
  moreover have "consumer_inv ?q ch"
  proof -
    have "q_tail q \<noteq> a" using ch out unfolding chain_inv_def by (metis hd_in_set imageI)
    then show ?thesis
      using co assms(3) nx(1,2) h(1,2) unfolding consumer_inv_def
      by (cases "consumer q") (simp_all, metis option.distinct(1))
  qed
  ultimately show ?thesis
    using assms(1) by (simp add: mpsc_inv_def enqueue_new_def)
qed

lemma mpsc_inv_exchange:
  assumes "mpsc_inv q ch" and "producers q t = PAllocated n"
  shows "\<exists>x. mpsc_inv (enqueue_exchange t n q) (ch @ [(n, x)])"
proof -
  let ?q = "enqueue_exchange t n q"
  have ch: "chain_inv q ch" and pr: "producers_inv q ch" and co: "consumer_inv q ch"
    using assms(1) by (simp_all add: mpsc_inv_def)
  have ne: "ch \<noteq> []" using ch by (simp add: chain_inv_def)
  from producers_invD(1) [OF pr assms(2)] obtain x where
    n: "n \<notin> fst ` set ch" "data_of q n = Some x" "next_of q n = None" "\<And>y. consumer q \<noteq> CStored n y"
    by blast
  have alive: "heap q n \<noteq> None" using n(2) by (auto simp: data_of_def split: bind_splits)
  have h: "heap ?q = heap q" "consumer ?q = consumer q" "q_tail ?q = q_tail q" "q_head ?q = n"
    "producers ?q = (producers q)(t := PExchanged (q_head q) n)"
    "dequeued ?q = dequeued q" "enqueued ?q = enqueued q @ [x]"
    using n(2) by (auto simp: enqueue_exchange_def Let_def data_of_def split: option.splits bind_splits)
  have nx: "next_of ?q b = next_of q b" "data_of ?q b = data_of q b" "taken ?q b = taken q b" for b
    by (simp_all add: next_of_def data_of_def taken_def h)
  have e: "edges (map fst (ch @ [(n, x)])) = insert (q_head q, n) (edges (map fst ch))"
    using ch ne edges_snoc [of "map fst ch" n] by (simp add: chain_inv_def last_map)
  have nt: "\<not> taken q n"
    using co n(1) hd_in_set [of "tl ch"] tl_in_set
    by (fastforce simp: taken_def consumer_inv_def split: consumer.splits)
  have "chain_inv ?q (ch @ [(n, x)])"
  proof (rule chain_invI)
    show "next_of ?q a = Some b \<or> next_of ?q a = None \<and> (\<exists>t. producers ?q t = PExchanged a b)"
      if "(a, b) \<in> edges (map fst (ch @ [(n, x)]))" for a b
    proof (cases "(a, b) = (q_head q, n)")
      case True
      then show ?thesis using chain_invD(6) [OF ch] by (auto simp: nx h)
    next
      case False
      then have "(a, b) \<in> edges (map fst ch)" using that e by auto
      then show ?thesis
        using chain_invD(7) [OF ch, of a b] assms(2) unfolding nx h(5)
        by (metis fun_upd_other producer.distinct(5))
    qed
    show "data_of ?q a = (if taken ?q a then None else Some v)"
      if "(a, v) \<in> set (tl (ch @ [(n, x)]))" for a v
      using that ne n(2) nt chain_invD(8) [OF ch, of a v] by (auto simp: nx)
  qed (use chain_invD(1-5) [OF ch] n alive in \<open>auto simp: nx h\<close>)
  moreover have "producers_inv ?q (ch @ [(n, x)])"
  proof (rule producers_inv_update [OF pr h(5)])
    fix t' assume t': "t' \<noteq> t" "producer_ok q ch (producers q t')"
    from t'(2) show "producer_ok ?q (ch @ [(n, x)]) (producers q t')"
    proof (rule producer_ok_frame)
      show "heap ?q m = heap q m \<and> m \<notin> fst ` set (ch @ [(n, x)]) \<and>
          ((\<exists>y. consumer ?q = CStored m y) \<longrightarrow> (\<exists>y. consumer q = CStored m y))"
        if "producers q t' = PAllocated m" "m \<notin> fst ` set ch" for m
        using that producers_invD(3) [OF pr, of t' m t] t'(1) assms(2) h by auto
      show "next_of ?q c = None \<and> (c, d) \<in> edges (map fst (ch @ [(n, x)]))"
        if "(c, d) \<in> edges (map fst ch)" "next_of q c = None" for c d
        using that nx e by simp
    qed
  next
    show "producer_ok ?q (ch @ [(n, x)]) (PExchanged (q_head q) n)"
      using ch nx e by (simp add: producer_ok_def chain_inv_def)
  next
    fix m t' assume "node_of (PExchanged (q_head q) n) = Some m" "t' \<noteq> t"
    then show "node_of (producers q t') \<noteq> Some m"
      using producers_invD(3) [OF pr, of t' n t] assms(2) by auto
  qed
  moreover have "consumer_inv ?q (ch @ [(n, x)])"
    using co n ne nx h by (auto simp: consumer_inv_def split: consumer.splits)
  ultimately show ?thesis
    using assms(1) ne h by (intro exI [of _ x]) (simp add: mpsc_inv_def)
qed

lemma mpsc_inv_link:
  assumes "mpsc_inv q ch" and "producers q t = PExchanged p n"
  shows "\<exists>q'. enqueue_link t p n q = Inr q' \<and> mpsc_inv q' ch"
proof -
  have ch: "chain_inv q ch" and pr: "producers_inv q ch" and co: "consumer_inv q ch"
    using assms(1) by (simp_all add: mpsc_inv_def)
  have ed: "(p, n) \<in> edges (map fst ch)" and np: "next_of q p = None"
    using producers_invD(2) [OF pr assms(2)] by simp_all
  have dist: "distinct (map fst ch)" using ch by (simp add: chain_inv_def)
  obtain nd where nd: "heap q p = Some nd"
    using chain_alive [OF ch] edge_nodes [OF ed] by blast
  define q' where "q' = q\<lparr>heap := (heap q)(p := Some (nd\<lparr>nextPtr := Some n\<rparr>)),
    producers := (producers q)(t := PIdle)\<rparr>"
  have step: "enqueue_link t p n q = Inr q'"
    using nd by (simp add: enqueue_link_def deref_def q'_def)
  have h: "consumer q' = consumer q" "q_tail q' = q_tail q" "q_head q' = q_head q"
    "producers q' = (producers q)(t := PIdle)"
    "dequeued q' = dequeued q" "enqueued q' = enqueued q"
    by (simp_all add: q'_def)
  have nx: "next_of q' b = (if b = p then Some n else next_of q b)" "data_of q' b = data_of q b"
    "taken q' b = taken q b" "heap q' b = None \<longleftrightarrow> heap q b = None" for b
    using nd by (simp_all add: next_of_def data_of_def taken_def q'_def)
  have hd_p: "q_head q \<noteq> p"
    using edges_not_last [OF dist ed] ch by (simp add: chain_inv_def last_map)
  have uniq: "b = n" if "(p, b) \<in> edges (map fst ch)" for b
    using edges_fun [OF dist ed that] by simp
  have "chain_inv q' ch"
  proof (rule chain_invI)
    show "next_of q' a = Some b \<or> next_of q' a = None \<and> (\<exists>t. producers q' t = PExchanged a b)"
      if "(a, b) \<in> edges (map fst ch)" for a b
      using chain_invD(7) [OF ch that] uniq [of b] that assms(2) unfolding nx h(4)
      by (cases "a = p") (simp, metis fun_upd_other producer.inject(2))
    show "data_of q' a = (if taken q' a then None else Some v)" if "(a, v) \<in> set (tl ch)" for a v
      using chain_invD(8) [OF ch that] by (simp add: nx)
  qed (use chain_invD(1-6) [OF ch] hd_p in \<open>simp_all add: nx h\<close>)
  moreover have "producers_inv q' ch"
  proof (rule producers_inv_update [OF pr h(4)])
    fix t' assume t': "t' \<noteq> t" "producer_ok q ch (producers q t')"
    from t'(2) show "producer_ok q' ch (producers q t')"
    proof (rule producer_ok_frame)
      show "heap q' m = heap q m \<and> m \<notin> fst ` set ch \<and>
          ((\<exists>y. consumer q' = CStored m y) \<longrightarrow> (\<exists>y. consumer q = CStored m y))"
        if "m \<notin> fst ` set ch" for m
        using that edge_nodes [OF ed] h by (auto simp: q'_def)
      show "next_of q' c = None \<and> (c, d) \<in> edges (map fst ch)"
        if "producers q t' = PExchanged c d" "(c, d) \<in> edges (map fst ch)" "next_of q c = None" for c d
        using that uniq [of d] producers_invD(3) [OF pr, of t' n t] t'(1) assms(2) by (auto simp: nx)
    qed
  qed (simp_all add: producer_ok_def)
  moreover have "consumer_inv q' ch"
    using co np nx h by (auto simp: consumer_inv_def split: consumer.splits)
  ultimately show ?thesis
    using assms(1) step h by (simp add: mpsc_inv_def)
qed

lemma mpsc_inv_load:
  assumes "mpsc_inv q ch" and "consumer q = CIdle"
  shows "\<exists>q'. dequeue_load q = Inr q' \<and> mpsc_inv q' ch"
proof -
  have ch: "chain_inv q ch" and pr: "producers_inv q ch"
    using assms(1) by (simp_all add: mpsc_inv_def)
  have "q_tail q \<in> fst ` set ch"
    using chain_invD(1,3) [OF ch] by (metis hd_in_set imageI)
  then obtain n where n: "heap q (q_tail q) = Some n" using chain_alive [OF ch] by blast
  show ?thesis
  proof (cases "nextPtr n")
    case None
    then show ?thesis using assms n by (simp add: dequeue_load_def deref_def Let_def)
  next
    case (Some m)
    let ?q = "q\<lparr>consumer := CLoaded (q_tail q) m\<rparr>"
    have nx: "next_of ?q b = next_of q b" "data_of ?q b = data_of q b" "taken ?q b = taken q b" for b
      using assms(2) by (simp_all add: next_of_def data_of_def taken_def)
    have nt: "next_of q (q_tail q) = Some m" using n Some by (simp add: next_of_def)
    have "\<exists>x. tl ch \<noteq> [] \<and> hd (tl ch) = (m, x)"
    proof (cases "tl ch")
      case Nil
      then have "ch = [hd ch]" using chain_invD(1) [OF ch] by (cases ch) auto
      then have "q_tail q = q_head q" using chain_invD(3,4) [OF ch] by (metis last.simps)
      then show ?thesis using nt chain_invD(6) [OF ch] by simp
    next
      case (Cons y ys)
      then have "ch = hd ch # y # ys" using chain_invD(1) [OF ch] by (cases ch) auto
      then have "(q_tail q, fst y) \<in> edges (map fst ch)"
        using chain_invD(3) [OF ch] by (metis edges_simps(3) insertI1 list.simps(9))
      then show ?thesis using chain_invD(7) [OF ch] nt Cons by (cases y) fastforce
    qed
    then have "consumer_inv ?q ch" using nt by (simp add: consumer_inv_def nx)
    moreover have "chain_inv ?q ch" using ch unfolding chain_inv_def nx by simp
    moreover have "producers_inv ?q ch"
      by (rule producers_inv_same [OF pr]) (use assms(2) nx in \<open>auto simp: producer_ok_def split: producer.splits\<close>)
    ultimately show ?thesis
      using assms(1) n Some by (simp add: dequeue_load_def deref_def Let_def mpsc_inv_def)
  qed
qed

lemma mpsc_inv_take:
  assumes "mpsc_inv q ch" and "consumer q = CLoaded t n"
  shows "\<exists>q' x. dequeue_take t n q = Inr q' \<and> consumer q' = CTaken t n x \<and>
    tl ch \<noteq> [] \<and> hd (tl ch) = (n, x) \<and> mpsc_inv q' ch"
proof -
  have ch: "chain_inv q ch" and pr: "producers_inv q ch"
    using assms(1) by (simp_all add: mpsc_inv_def)
  obtain x where t: "t = q_tail q" "next_of q t = Some n" "tl ch \<noteq> []" "hd (tl ch) = (n, x)"
    using assms by (auto simp: mpsc_inv_def consumer_inv_def)
  have mem: "(n, x) \<in> set (tl ch)" using t(3,4) by (metis hd_in_set)
  have "data_of q n = Some x"
    using chain_invD(8) [OF ch mem] assms(2) by (simp add: taken_def)
  then obtain nd where nd: "heap q n = Some nd" "dataPtr nd = Some x"
    by (auto simp: data_of_def split: bind_splits)
  define q' where "q' = q\<lparr>heap := (heap q)(n := Some (nd\<lparr>dataPtr := None\<rparr>)), consumer := CTaken t n x\<rparr>"
  have step: "dequeue_take t n q = Inr q'"
    using nd by (simp add: dequeue_take_def deref_def q'_def)
  have nx: "next_of q' b = next_of q b" "data_of q' b = (if b = n then None else data_of q b)"
    "taken q' b \<longleftrightarrow> b = n" "\<not> taken q b" "heap q' b = None \<longleftrightarrow> heap q b = None" for b
    using nd assms(2) by (simp_all add: next_of_def data_of_def taken_def q'_def)
  have h: "q_tail q' = q_tail q" "q_head q' = q_head q" "producers q' = producers q"
    "consumer q' = CTaken t n x" "enqueued q' = enqueued q" "dequeued q' = dequeued q"
    by (simp_all add: q'_def)
  have "chain_inv q' ch"
  proof (rule chain_invI)
    show "data_of q' a = (if taken q' a then None else Some v)" if "(a, v) \<in> set (tl ch)" for a v
      using chain_invD(8) [OF ch that] by (simp add: nx)
    show "next_of q' a = Some b \<or> next_of q' a = None \<and> (\<exists>t. producers q' t = PExchanged a b)"
      if "(a, b) \<in> edges (map fst ch)" for a b
      using chain_invD(7) [OF ch that] by (simp add: nx h)
  qed (use chain_invD(1-6) [OF ch] in \<open>simp_all add: nx h\<close>)
  moreover have "producers_inv q' ch"
  proof (rule producers_inv_same [OF pr h(3)])
    fix s assume "producer_ok q ch (producers q s)"
    then show "producer_ok q' ch (producers q s)"
      by (rule producer_ok_frame) (use tl_in_set [OF mem] nx h in \<open>auto simp: q'_def\<close>)
  qed
  moreover have "consumer_inv q' ch" using t by (simp add: consumer_inv_def h nx)
  ultimately show ?thesis
    using assms(1) step t h by (auto simp: mpsc_inv_def)
qed

lemma mpsc_inv_store:
  assumes "mpsc_inv q ch" and "consumer q = CTaken t n x"
  shows "mpsc_inv (dequeue_store t n x q) (tl ch)"
proof -
  define q' where "q' = dequeue_store t n x q"
  have ch: "chain_inv q ch" and pr: "producers_inv q ch"
    using assms(1) by (simp_all add: mpsc_inv_def)
  have t: "t = q_tail q" "next_of q t = Some n" "tl ch \<noteq> []" "hd (tl ch) = (n, x)"
    using assms by (auto simp: mpsc_inv_def consumer_inv_def)
  obtain v rest where c: "ch = (t, v) # (n, x) # rest"
    using t chain_invD(1,3) [OF ch] by (cases ch; cases "tl ch") auto
  have d: "t \<noteq> n" "t \<notin> fst ` set rest" "n \<notin> fst ` set rest"
    using chain_invD(2) [OF ch] by (auto simp: c)
  have nx: "next_of q' b = next_of q b" "data_of q' b = data_of q b" "\<not> taken q' b"
    "taken q b \<longleftrightarrow> b = n" "heap q' b = heap q b" "producers q' = producers q" for b
    using assms(2) by (simp_all add: next_of_def data_of_def taken_def q'_def dequeue_store_def)
  have h: "q_tail q' = n" "q_head q' = q_head q" "consumer q' = CStored t x"
    "enqueued q' = enqueued q" "dequeued q' = dequeued q @ [x]"
    by (simp_all add: q'_def dequeue_store_def)
  have "chain_inv q' (tl ch)"
  proof (rule chain_invI)
    show "data_of q' a = (if taken q' a then None else Some w)" if "(a, w) \<in> set (tl (tl ch))" for a w
    proof -
      have "a \<noteq> n" using that d(3) by (force simp: c)
      then show ?thesis using chain_invD(8) [OF ch, of a w] that by (simp add: nx c)
    qed
    show "next_of q' a = Some b \<or> next_of q' a = None \<and> (\<exists>t. producers q' t = PExchanged a b)"
      if "(a, b) \<in> edges (map fst (tl ch))" for a b
      using chain_invD(7) [OF ch, of a b] that by (simp add: nx c)
  qed (use chain_invD(1-6) [OF ch] d in \<open>auto simp: nx h c\<close>)
  moreover have "producers_inv q' (tl ch)"
  proof (rule producers_inv_same [OF pr nx(6)])
    fix s assume "producer_ok q ch (producers q s)"
    then show "producer_ok q' (tl ch) (producers q s)"
      by (rule producer_ok_frame) (use t(2) h in \<open>auto simp: nx c\<close>)
  qed
  moreover have "consumer_inv q' (tl ch)"
    using d chain_alive [OF ch, of t] by (simp add: consumer_inv_def h nx c)
  ultimately show ?thesis
    using assms(1) h by (simp add: mpsc_inv_def c flip: q'_def)
qed

lemma mpsc_inv_delete:
  assumes "mpsc_inv q ch" and "consumer q = CStored t x"
  shows "\<exists>q'. dequeue_delete t q = Inr q' \<and> consumer q' = CIdle \<and> mpsc_inv q' ch"
proof -
  have ch: "chain_inv q ch" and pr: "producers_inv q ch"
    using assms(1) by (simp_all add: mpsc_inv_def)
  have t: "t \<notin> fst ` set ch" "heap q t \<noteq> None"
    using assms by (auto simp: mpsc_inv_def consumer_inv_def)
  define q' where "q' = q\<lparr>heap := (heap q)(t := None), consumer := CIdle\<rparr>"
  have step: "dequeue_delete t q = Inr q'"
    using t(2) by (auto simp: dequeue_delete_def free_def q'_def)
  have h: "q_tail q' = q_tail q" "q_head q' = q_head q" "producers q' = producers q"
    "consumer q' = CIdle" "enqueued q' = enqueued q" "dequeued q' = dequeued q"
    "\<And>a. a \<noteq> t \<Longrightarrow> heap q' a = heap q a"
    by (simp_all add: q'_def)
  have "chain_inv q' ch"
  proof (rule chain_inv_frame [OF ch h(1,2)])
    show "heap q' a = heap q a" if "a \<in> fst ` set ch" for a using that t(1) h(7) by metis
  qed (use h assms(2) in \<open>auto simp: taken_def\<close>)
  moreover have "producers_inv q' ch"
  proof (rule producers_inv_same [OF pr h(3)])
    fix s assume ok: "producer_ok q ch (producers q s)"
    then show "producer_ok q' ch (producers q s)"
    proof (rule producer_ok_frame)
      show "heap q' m = heap q m \<and> m \<notin> fst ` set ch \<and>
          ((\<exists>y. consumer q' = CStored m y) \<longrightarrow> (\<exists>y. consumer q = CStored m y))"
        if "producers q s = PAllocated m" "m \<notin> fst ` set ch" for m
        using that ok assms(2) h(4,7) by (auto simp: producer_ok_def)
      show "next_of q' a = None \<and> (a, b) \<in> edges (map fst ch)"
        if "(a, b) \<in> edges (map fst ch)" "next_of q a = None" for a b
        using that edge_nodes [OF that(1)] t(1) h(7) unfolding next_of_def by metis
    qed
  qed
  moreover have "consumer_inv q' ch" by (simp add: consumer_inv_def h)
  ultimately show ?thesis
    using assms(1) step h by (simp add: mpsc_inv_def)
qed

lemma mpsc_inv_act:
  assumes "mpsc_inv q ch" and "act e q = Some r"
  shows "\<exists>q' ch'. r = Inr q' \<and> mpsc_inv q' ch'"
proof (cases e)
  case (Enq_New t a x)
  then show ?thesis using assms mpsc_inv_enqueue_new [OF assms(1), of t a x] by (auto split: if_splits)
next
  case (Enq_Exchange t)
  then show ?thesis using assms mpsc_inv_exchange [OF assms(1)] by (fastforce split: producer.splits)
next
  case (Enq_Link t)
  then show ?thesis using assms mpsc_inv_link [OF assms(1)] by (fastforce split: producer.splits)
next
  case Deq_Load
  then show ?thesis using assms mpsc_inv_load [OF assms(1)] by (auto split: if_splits)
next
  case Deq_Take
  then show ?thesis using assms mpsc_inv_take [OF assms(1)] by (fastforce split: consumer.splits)
next
  case Deq_Store
  then show ?thesis using assms mpsc_inv_store [OF assms(1)] by (fastforce split: consumer.splits)
next
  case Deq_Delete
  then show ?thesis using assms mpsc_inv_delete [OF assms(1)] by (fastforce split: consumer.splits)
qed

lemma reachable_inv: "reachable q \<Longrightarrow> \<exists>ch. mpsc_inv q ch"
proof (induction rule: reachable.induct)
  case (reachable_new a)
  show ?case using mpsc_inv_new [of a undefined] by (rule exI)
next
  case (reachable_act q e q')
  then show ?case using mpsc_inv_act by blast
qed

lemma run_acts_reachable:
  "reachable q \<Longrightarrow> \<exists>q'. run_acts es q = Inr q' \<and> reachable q'"
proof (induction es arbitrary: q)
  case Nil
  then show ?case by simp
next
  case (Cons e es)
  show ?case
  proof (cases "act e q")
    case None
    then show ?thesis using Cons by simp
  next
    case (Some r)
    obtain ch where "mpsc_inv q ch" using reachable_inv [OF Cons.prems] ..
    from mpsc_inv_act [OF this Some] obtain q' where "r = Inr q'" by blast
    then show ?thesis using Cons.IH [of q'] reachable_act [OF Cons.prems] Some by auto
  qed
qed

section \<open>Uninterrupted operations\<close>

text \<open>\<^verbatim>\<open>dequeue\<close> takes the next item whenever the link behind \<^verbatim>\<open>tail_\<close> is in place.\<close>

lemma dequeue_linked:
  assumes "mpsc_inv q ch" and "consumer q = CIdle" and "tl ch \<noteq> []"
    and "next_of q (q_tail q) \<noteq> None"
  shows "\<exists>q'. dequeue q = Inr (Some (snd (hd (tl ch))), q') \<and> mpsc_inv q' (tl ch) \<and>
    consumer q' = CIdle \<and> producers q' = producers q \<and> enqueued q' = enqueued q"
proof -
  obtain q1 where q1: "dequeue_load q = Inr q1" "mpsc_inv q1 ch"
    using mpsc_inv_load [OF assms(1,2)] by blast
  obtain m where m: "consumer q1 = CLoaded (q_tail q) m" "producers q1 = producers q" "enqueued q1 = enqueued q"
    using q1(1) assms(4)
    by (auto simp: dequeue_load_def deref_def next_of_def Let_def split: option.splits bind_splits)
  obtain q2 x where q2: "dequeue_take (q_tail q) m q1 = Inr q2" "consumer q2 = CTaken (q_tail q) m x"
    "hd (tl ch) = (m, x)" "mpsc_inv q2 ch"
    using mpsc_inv_take [OF q1(2) m(1)] by blast
  have q2': "producers q2 = producers q" "enqueued q2 = enqueued q"
    using q2(1) m by (auto simp: dequeue_take_def deref_def split: option.splits)
  let ?q3 = "dequeue_store (q_tail q) m x q2"
  obtain q4 where q4: "dequeue_delete (q_tail q) ?q3 = Inr q4" "consumer q4 = CIdle" "mpsc_inv q4 (tl ch)"
    using mpsc_inv_delete [OF mpsc_inv_store [OF q2(4,2)]] by (auto simp: dequeue_store_def)
  have "producers q4 = producers q" "enqueued q4 = enqueued q"
    using q4(1) q2' by (auto simp: dequeue_delete_def free_def dequeue_store_def split: option.splits)
  then show ?thesis
    using q1 m(1) q2(1-3) q4 by (auto simp: dequeue_def)
qed

lemma dequeue_empty:
  assumes "mpsc_inv q ch" and "consumer q = CIdle" and "tl ch = []"
  shows "dequeue q = Inr (None, q)"
proof -
  have ch: "chain_inv q ch" using assms(1) by (simp add: mpsc_inv_def)
  have "ch = [hd ch]" using chain_invD(1) [OF ch] assms(3) by (cases ch) auto
  then have "q_tail q = q_head q" using chain_invD(3,4) [OF ch] by (metis last.simps)
  then obtain n where "heap q (q_tail q) = Some n" "nextPtr n = None"
    using chain_invD(6) [OF ch] chain_alive [OF ch, of "q_tail q"] chain_invD(1,3) [OF ch]
    by (metis bind.bind_lunit hd_in_set imageI next_of_def not_None_eq)
  then show ?thesis using assms(2) by (simp add: dequeue_def dequeue_load_def deref_def Let_def)
qed

lemma chain_linked:
  assumes "mpsc_inv q ch" and "tl ch \<noteq> []" and "\<And>t p n. producers q t \<noteq> PExchanged p n"
  shows "next_of q (q_tail q) \<noteq> None"
proof -
  have ch: "chain_inv q ch" using assms(1) by (simp add: mpsc_inv_def)
  obtain a b rest where "ch = a # b # rest" using assms(2) by (cases ch; cases "tl ch") auto
  then have "(q_tail q, fst b) \<in> edges (map fst ch)" using chain_invD(3) [OF ch] by simp
  then show ?thesis using chain_invD(7) [OF ch] assms(3) by blast
qed

lemma enqueue_spec:
  assumes "mpsc_inv q ch" and "producers q t = PIdle" and "heap q a = None"
  shows "\<exists>q' y. enqueue t a x q = Inr q' \<and> mpsc_inv q' (ch @ [(a, y)]) \<and>
    producers q' = producers q \<and> consumer q' = consumer q \<and>
    enqueued q' = enqueued q @ [x] \<and> dequeued q' = dequeued q"
proof -
  let ?q1 = "enqueue_new t a x q"
  let ?q2 = "enqueue_exchange t a ?q1"
  have i1: "mpsc_inv ?q1 ch" by (rule mpsc_inv_enqueue_new [OF assms])
  obtain y where i2: "mpsc_inv ?q2 (ch @ [(a, y)])"
    using mpsc_inv_exchange [OF i1, of t a] by (auto simp: enqueue_new_def)
  have "producers ?q2 t = PExchanged (q_head ?q1) a" by (simp add: enqueue_exchange_def Let_def)
  from mpsc_inv_link [OF i2 this] obtain q' where
    q': "enqueue_link t (q_head ?q1) a ?q2 = Inr q'" "mpsc_inv q' (ch @ [(a, y)])" by blast
  then have "producers q' = (producers q)(t := PIdle)" "consumer q' = consumer q"
    "enqueued q' = enqueued q @ [x]" "dequeued q' = dequeued q"
    by (auto simp: enqueue_link_def deref_def enqueue_exchange_def enqueue_new_def Let_def
        split: option.splits)
  moreover have "(producers q)(t := PIdle) = producers q" using assms(2) by (metis fun_upd_triv)
  ultimately show ?thesis using q' by (auto simp: enqueue_def Let_def)
qed

section \<open>The contract of a task queue\<close>

text \<open>
  What an event loop needs from the queue of functions when no other thread is inside an
  operation: \<open>enq\<close> appends (given an unused address for its node), \<open>deq\<close> takes from the front and
  reports an empty queue. Draining the queue returns its contents in order.
\<close>

fun drain :: "('q \<Rightarrow> ('a option \<times> 'q) result) \<Rightarrow> nat \<Rightarrow> 'q \<Rightarrow> ('a list \<times> 'q) result" where
  "drain deq 0 q = Inr ([], q)"
| "drain deq (Suc n) q =
     and_then (deq q) (\<lambda>(r, q').
     case r of
       None \<Rightarrow> Inr ([], q')
     | Some x \<Rightarrow> and_then (drain deq n q') (\<lambda>(xs, q''). Inr (x # xs, q'')))"

locale task_queue =
  fixes inv :: "'q \<Rightarrow> bool"
    and abs :: "'q \<Rightarrow> 'a list"
    and unused :: "'q \<Rightarrow> nat \<Rightarrow> bool"
    and enq :: "nat \<Rightarrow> 'a \<Rightarrow> 'q \<Rightarrow> 'q result"
    and deq :: "'q \<Rightarrow> ('a option \<times> 'q) result"
  assumes enq_law: "inv q \<Longrightarrow> unused q a \<Longrightarrow>
      \<exists>q'. enq a x q = Inr q' \<and> inv q' \<and> abs q' = abs q @ [x]"
    and deq_nil: "inv q \<Longrightarrow> abs q = [] \<Longrightarrow> deq q = Inr (None, q)"
    and deq_cons: "inv q \<Longrightarrow> abs q = x # xs \<Longrightarrow>
      \<exists>q'. deq q = Inr (Some x, q') \<and> inv q' \<and> abs q' = xs"
begin

lemma drain_all:
  "inv q \<Longrightarrow> length (abs q) \<le> n \<Longrightarrow>
     \<exists>q'. drain deq n q = Inr (abs q, q') \<and> inv q' \<and> abs q' = []"
proof (induction n arbitrary: q)
  case 0
  then show ?case by simp
next
  case (Suc n)
  show ?case
  proof (cases "abs q")
    case Nil
    then show ?thesis using Suc.prems deq_nil by simp
  next
    case (Cons x xs)
    obtain q1 where "deq q = Inr (Some x, q1)" "inv q1" "abs q1 = xs"
      using deq_cons [OF Suc.prems(1) Cons] by blast
    with Suc.IH [of q1] Suc.prems Cons show ?thesis by auto
  qed
qed

end

definition quiescent :: "'a MpscQueue \<Rightarrow> bool" where
  "quiescent q \<longleftrightarrow> (\<exists>ch. mpsc_inv q ch) \<and> consumer q = CIdle \<and> (\<forall>t. producers q t = PIdle)"

definition queue_items :: "'a MpscQueue \<Rightarrow> 'a list" where
  "queue_items q = drop (length (dequeued q)) (enqueued q)"

lemma queue_items_chain: "mpsc_inv q ch \<Longrightarrow> queue_items q = map snd (tl ch)"
  by (simp add: queue_items_def mpsc_inv_def)

lemma dequeue_item:
  assumes "mpsc_inv q ch" and "consumer q = CIdle" and "queue_items q = x # xs"
    and "\<And>t p n. producers q t \<noteq> PExchanged p n"
  shows "\<exists>q'. dequeue q = Inr (Some x, q') \<and> mpsc_inv q' (tl ch) \<and> consumer q' = CIdle \<and>
    producers q' = producers q \<and> enqueued q' = enqueued q \<and> queue_items q' = xs"
proof -
  have c: "map snd (tl ch) = x # xs" using assms(3) queue_items_chain [OF assms(1)] by simp
  then have ne: "tl ch \<noteq> []" by auto
  obtain q' where "dequeue q = Inr (Some (snd (hd (tl ch))), q')" "mpsc_inv q' (tl ch)"
    "consumer q' = CIdle" "producers q' = producers q" "enqueued q' = enqueued q"
    using dequeue_linked [OF assms(1,2) ne chain_linked [OF assms(1) ne assms(4)]] by blast
  moreover have "snd (hd (tl ch)) = x" "map snd (tl (tl ch)) = xs" using c by (cases "tl ch"; simp)+
  ultimately show ?thesis using queue_items_chain by fastforce
qed

interpretation mpsc: task_queue quiescent queue_items "\<lambda>q a. heap q a = None" "enqueue 0" dequeue
proof
  fix q :: "'a MpscQueue" and a x assume q: "quiescent q" "heap q a = None"
  then obtain ch where "mpsc_inv q ch" "producers q 0 = PIdle" by (auto simp: quiescent_def)
  with enqueue_spec [of q ch 0 a x] q obtain q' y where q': "enqueue 0 a x q = Inr q'"
    "mpsc_inv q' (ch @ [(a, y)])" "producers q' = producers q" "consumer q' = consumer q"
    "enqueued q' = enqueued q @ [x]" "dequeued q' = dequeued q" by blast
  moreover have "length (dequeued q) \<le> length (enqueued q)"
    using \<open>mpsc_inv q ch\<close> by (simp add: mpsc_inv_def)
  ultimately show "\<exists>q'. enqueue 0 a x q = Inr q' \<and> quiescent q' \<and> queue_items q' = queue_items q @ [x]"
    using q(1) by (auto simp: quiescent_def queue_items_def)
next
  fix q :: "'a MpscQueue" assume "quiescent q" "queue_items q = []"
  then show "dequeue q = Inr (None, q)"
    using dequeue_empty queue_items_chain by (fastforce simp: quiescent_def)
next
  fix q :: "'a MpscQueue" and x xs assume q: "quiescent q" "queue_items q = x # xs"
  then obtain ch where "mpsc_inv q ch" by (auto simp: quiescent_def)
  with dequeue_item [of q ch x xs] q
  show "\<exists>q'. dequeue q = Inr (Some x, q') \<and> quiescent q' \<and> queue_items q' = xs"
    by (auto simp: quiescent_def)
qed

section \<open>Properties\<close>

text \<open>
  C9. The queue is memory safe and first-in first-out under every interleaving of any number of
  producers with the consumer: no schedule, of any length and with any reuse of freed addresses,
  dereferences a deleted node or item, and the items dequeued are always a prefix of the items
  enqueued, in the order of the exchanges on \<^verbatim>\<open>head_\<close>.
\<close>

theorem mpsc_safe_fifo:
  "\<exists>q rest. run_acts es (MpscQueue_new a) = Inr q \<and> enqueued q = dequeued q @ rest"
proof -
  obtain q where "run_acts es (MpscQueue_new a :: 'a MpscQueue) = Inr q" "reachable q"
    using run_acts_reachable [OF reachable_new] by blast
  with reachable_inv [of q] show ?thesis by (auto simp: mpsc_inv_def)
qed

text \<open>
  C12. Nothing is lost and nothing blocks: when no producer is between its exchange and its store,
  \<^verbatim>\<open>dequeue\<close> returns the oldest item that was enqueued and not yet taken, and it reports an empty
  queue only if every enqueued item has been taken.
\<close>

theorem mpsc_dequeue_progress:
  assumes "reachable q" and "consumer q = CIdle" and "\<And>t p n. producers q t \<noteq> PExchanged p n"
  shows "case drop (length (dequeued q)) (enqueued q) of
      [] \<Rightarrow> dequeue q = Inr (None, q)
    | x # xs \<Rightarrow> \<exists>q'. dequeue q = Inr (Some x, q') \<and> dequeued q' = dequeued q @ [x] \<and>
        enqueued q' = enqueued q"
proof -
  obtain ch where ch: "mpsc_inv q ch" using reachable_inv [OF assms(1)] ..
  show ?thesis
  proof (cases "queue_items q")
    case Nil
    then have "dequeue q = Inr (None, q)"
      using dequeue_empty [OF ch assms(2)] queue_items_chain [OF ch] by simp
    then show ?thesis using Nil by (simp add: queue_items_def)
  next
    case (Cons x xs)
    obtain q' where q': "dequeue q = Inr (Some x, q')" "mpsc_inv q' (tl ch)" "enqueued q' = enqueued q"
      "queue_items q' = xs"
      using dequeue_item [OF ch assms(2) Cons assms(3)] by blast
    have "dequeued q' = dequeued q @ [x]"
      using q'(2-4) Cons ch queue_items_chain [OF ch] queue_items_chain [OF q'(2)]
      by (simp add: mpsc_inv_def)
    then show ?thesis using q' Cons by (simp add: queue_items_def)
  qed
qed

definition demo_queue :: "nat MpscQueue" where
  "demo_queue = (case run_acts [Enq_New 1 5 7, Enq_New 2 6 8, Enq_Exchange 2, Enq_Exchange 1,
     Enq_Link 1, Deq_Load, Enq_Link 2] (MpscQueue_new 0) of Inr q \<Rightarrow> q | Inl _ \<Rightarrow> MpscQueue_new 0)"

theorem mpsc_dequeue_progress_witness:
  "\<exists>q'. dequeue demo_queue = Inr (Some 8, q') \<and> dequeued q' = [8] \<and> enqueued q' = [8, 7]"
proof -
  obtain q :: "nat MpscQueue" where q: "run_acts [Enq_New 1 5 7, Enq_New 2 6 8, Enq_Exchange 2, Enq_Exchange 1,
     Enq_Link 1, Deq_Load, Enq_Link 2] (MpscQueue_new 0) = Inr q" "reachable q"
    using run_acts_reachable [OF reachable_new] by blast
  have "demo_queue = q" using q(1) by (simp only: demo_queue_def sum.case)
  moreover have "enqueued q = [8, 7]" "dequeued q = []" "consumer q = CIdle"
    "producers q = (\<lambda>_. PIdle)"
    using q(1) by (auto simp: MpscQueue_new_def enqueue_new_def enqueue_exchange_def enqueue_link_def
        dequeue_load_def deref_def Let_def fun_upd_def)
  ultimately show ?thesis
    using mpsc_dequeue_progress [OF q(2)] by simp
qed

end
