(* ===== verification/Timer_Queue.thy ===== *)
theory Timer_Queue
  imports Prelude "HOL-Library.Multiset" "HOL-Library.Sublist"
begin

text \<open>
  \<^verbatim>\<open>netpoll/net/inner/timer.{h,cc}\<close> and \<^verbatim>\<open>netpoll/net/inner/timer_queue.{h,cc}\<close>: the timers of an
  event loop.

  Time points are integers counting nanoseconds of the steady clock, intervals are microseconds.
  The clock is the field \<open>clock\<close>; it moves on through the operation \<open>Advance\<close> and while callbacks
  run. A callback is the list of the operations it performs on the queue of its own loop; the
  functions run in the loop thread, where \<^verbatim>\<open>runInLoop\<close> is a direct call. The timer descriptor is
  the field \<open>armed\<close>, the time at which it will become readable. \<open>ran\<close> records the callbacks run.

  \<^verbatim>\<open>std::priority_queue\<close> is a list sorted by due time; the locale \<open>priority_queue\<close> states what the
  code relies on.
\<close>

section \<open>Timers\<close>

type_synonym TimerId = nat

record Timer =
  m_when :: int
  m_interval :: int
  m_repeat :: bool
  m_highest :: bool
  m_lowest :: bool
  m_id :: TimerId

definition Timer_new :: "TimerId \<Rightarrow> int \<Rightarrow> int \<Rightarrow> bool \<Rightarrow> bool \<Rightarrow> TimerId \<times> Timer" where
  "Timer_new timersCreated when interval highest lowest =
     (timersCreated + 1,
      \<lparr>m_when = when, m_interval = interval, m_repeat = (interval > 0), m_highest = highest,
       m_lowest = lowest, m_id = timersCreated + 1\<rparr>)"

definition restart :: "int \<Rightarrow> int \<Rightarrow> Timer \<Rightarrow> Timer" where
  "restart clk now t =
     (if m_repeat t then t\<lparr>m_when := now + 1000 * m_interval t\<rparr> else t\<lparr>m_when := clk\<rparr>)"

section \<open>Priority queues\<close>

text \<open>The part of \<^verbatim>\<open>std::priority_queue\<close> the code uses, ordered by \<^verbatim>\<open>TimerPtrComparer\<close>.\<close>

definition pq_empty :: "Timer list \<Rightarrow> bool" where
  "pq_empty h \<longleftrightarrow> h = []"

definition pq_top :: "Timer list \<Rightarrow> Timer" where
  "pq_top h = hd h"

definition pq_pop :: "Timer list \<Rightarrow> Timer list" where
  "pq_pop h = tl h"

definition pq_push :: "Timer \<Rightarrow> Timer list \<Rightarrow> Timer list" where
  "pq_push t h = takeWhile (\<lambda>u. m_when u \<le> m_when t) h @ t # dropWhile (\<lambda>u. m_when u \<le> m_when t) h"

text \<open>Taking elements from the top while a condition holds, at most \<open>n\<close> of them.\<close>

fun pop_while ::
  "('h \<Rightarrow> bool) \<Rightarrow> ('h \<Rightarrow> 'e) \<Rightarrow> ('h \<Rightarrow> 'h) \<Rightarrow> ('e \<Rightarrow> bool) \<Rightarrow> nat \<Rightarrow> 'h \<Rightarrow> 'e list \<times> 'h" where
  "pop_while emptyp topf pop P 0 h = ([], h)"
| "pop_while emptyp topf pop P (Suc n) h =
     (if emptyp h \<or> \<not> P (topf h) then ([], h)
      else (case pop_while emptyp topf pop P n (pop h) of (xs, h') \<Rightarrow> (topf h # xs, h')))"

locale priority_queue =
  fixes inv :: "'h \<Rightarrow> bool"
    and items :: "'h \<Rightarrow> 'e multiset"
    and key :: "'e \<Rightarrow> int"
    and emptyp :: "'h \<Rightarrow> bool"
    and topf :: "'h \<Rightarrow> 'e"
    and pop :: "'h \<Rightarrow> 'h"
    and push :: "'e \<Rightarrow> 'h \<Rightarrow> 'h"
  assumes empty_law: "inv h \<Longrightarrow> emptyp h \<longleftrightarrow> items h = {#}"
    and top_law: "inv h \<Longrightarrow> items h \<noteq> {#} \<Longrightarrow> topf h \<in># items h \<and> (\<forall>e \<in># items h. key (topf h) \<le> key e)"
    and pop_law: "inv h \<Longrightarrow> items h \<noteq> {#} \<Longrightarrow> inv (pop h) \<and> items (pop h) = items h - {#topf h#}"
    and push_law: "inv h \<Longrightarrow> inv (push e h) \<and> items (push e h) = add_mset e (items h)"
begin

text \<open>Popping everything that is due takes exactly the due elements, in order of their keys.\<close>

lemma pop_while_due:
  assumes "inv h" and "size (items h) \<le> n"
    and "pop_while emptyp topf pop (\<lambda>e. key e < now) n h = (xs, h')"
  shows "inv h' \<and> mset xs = filter_mset (\<lambda>e. key e < now) (items h) \<and>
    items h' = filter_mset (\<lambda>e. \<not> key e < now) (items h) \<and> sorted (map key xs)"
  using assms
proof (induction n arbitrary: h xs)
  case 0
  then show ?case by simp
next
  case (Suc n)
  show ?case
  proof (cases "emptyp h \<or> \<not> key (topf h) < now")
    case True
    then have "\<forall>e \<in># items h. \<not> key e < now"
      using top_law [OF Suc.prems(1)] empty_law [OF Suc.prems(1)] by force
    then have "filter_mset (\<lambda>e. key e < now) (items h) = {#}"
      and "filter_mset (\<lambda>e. \<not> key e < now) (items h) = items h"
      by (auto intro!: multiset_eqI simp: count_eq_zero_iff dest: sym)
    then show ?thesis using True Suc.prems by simp
  next
    case False
    then have ne: "items h \<noteq> {#}" using empty_law [OF Suc.prems(1)] by simp
    note t = top_law [OF Suc.prems(1) ne] and p = pop_law [OF Suc.prems(1) ne]
    obtain ys where ys: "pop_while emptyp topf pop (\<lambda>e. key e < now) n (pop h) = (ys, h')"
      "xs = topf h # ys"
      using Suc.prems(3) False by (auto split: prod.splits)
    have it: "items h = add_mset (topf h) (items (pop h))" using t p by simp
    have "size (items (pop h)) \<le> n" using Suc.prems(2) it by simp
    note IH = Suc.IH [OF conjunct1 [OF p] this ys(1)]
    have "\<forall>e \<in> set ys. key (topf h) \<le> key e"
    proof
      fix e assume "e \<in> set ys"
      then have "e \<in># mset ys" by simp
      then have "e \<in># items (pop h)" using IH by simp
      then show "key (topf h) \<le> key e" using t by (simp add: it)
    qed
    then show ?thesis using IH ys it False by simp
  qed
qed

end

definition pq_inv :: "Timer list \<Rightarrow> bool" where
  "pq_inv h \<longleftrightarrow> sorted (map m_when h)"

lemma sorted_pq_push: "sorted (map m_when h) \<Longrightarrow> sorted (map m_when (pq_push t h))"
proof (induction h)
  case Nil
  then show ?case by (simp add: pq_push_def)
next
  case (Cons u h)
  then show ?case
    by (auto simp: pq_push_def dest: set_takeWhileD set_dropWhileD)
qed

lemma mset_pq_push: "mset (pq_push t h) = add_mset t (mset h)"
  unfolding pq_push_def by (metis mset_append mset.simps(2) union_mset_add_mset_right takeWhile_dropWhile_id)

interpretation timers: priority_queue pq_inv mset m_when pq_empty pq_top pq_pop pq_push
proof
  fix h :: "Timer list" assume h: "pq_inv h"
  show "pq_empty h \<longleftrightarrow> mset h = {#}" by (simp add: pq_empty_def)
  show "pq_inv (pq_push e h) \<and> mset (pq_push e h) = add_mset e (mset h)" for e
    using h by (simp add: pq_inv_def sorted_pq_push mset_pq_push)
  assume "mset h \<noteq> {#}"
  then obtain t ts where "h = t # ts" by (cases h) auto
  then show "pq_top h \<in># mset h \<and> (\<forall>e \<in># mset h. m_when (pq_top h) \<le> m_when e)"
    "pq_inv (pq_pop h) \<and> mset (pq_pop h) = mset h - {#pq_top h#}"
    using h by (auto simp: pq_top_def pq_pop_def pq_inv_def)
qed

section \<open>The queue\<close>

record TimerQueue =
  m_timers :: "Timer list"
  m_highestTask :: "Timer option"
  m_lowestTask :: "Timer option"
  m_callingExpiredTimers :: bool
  m_timerIdSet :: "TimerId set"
  timersCreated :: TimerId
  armed :: "int option"
  clock :: int
  ran :: "TimerId list"

definition TimerQueue_new :: "TimerId \<Rightarrow> int \<Rightarrow> TimerQueue" where
  "TimerQueue_new created now =
     \<lparr>m_timers = [], m_highestTask = None, m_lowestTask = None, m_callingExpiredTimers = False,
      m_timerIdSet = {}, timersCreated = created, armed = None, clock = now, ran = []\<rparr>"

text \<open>
  \<^verbatim>\<open>howMuchTimeFromNow\<close> of Linux, as seconds and nanoseconds, and of the other systems, as the
  milliseconds for the poll call.
\<close>

definition howMuchTimeFromNow :: "int \<Rightarrow> int \<Rightarrow> int \<times> int" where
  "howMuchTimeFromNow now when =
     (let microSeconds = c_div (when - now) 1000;
          microSeconds = (if microSeconds < 100 then 100 else microSeconds)
      in (c_div microSeconds 1000000, c_mod microSeconds 1000000 * 1000))"

definition howMuchTimeFromNow_ms :: "int \<Rightarrow> int \<Rightarrow> int" where
  "howMuchTimeFromNow_ms now when =
     (let microSeconds = c_div (when - now) 1000;
          microSeconds = (if microSeconds < 1000 then 1000 else microSeconds)
      in c_div microSeconds 1000)"

definition resetTimerfd :: "int \<Rightarrow> TimerQueue \<Rightarrow> TimerQueue" where
  "resetTimerfd expiration q =
     (let (sec, nsec) = howMuchTimeFromNow (clock q) expiration
      in q\<lparr>armed := Some (clock q + sec * 1000000000 + nsec)\<rparr>)"

text \<open>Reading the descriptor after it fired; its interval is 0, so it does not fire again.\<close>

definition readTimerfd :: "TimerQueue \<Rightarrow> TimerQueue" where
  "readTimerfd q = q\<lparr>armed := None\<rparr>"

definition insert_timer :: "Timer \<Rightarrow> TimerQueue \<Rightarrow> bool \<times> TimerQueue" where
  "insert_timer t q =
     (let earliestChanged = (pq_empty (m_timers q) \<or> m_when t < m_when (pq_top (m_timers q)))
      in (earliestChanged, q\<lparr>m_timers := pq_push t (m_timers q)\<rparr>))"

definition addTimerInLoop :: "Timer \<Rightarrow> TimerQueue \<Rightarrow> TimerQueue" where
  "addTimerInLoop t q =
     (let (earliestChanged, q') =
        insert_timer t (q\<lparr>m_timerIdSet := insert (m_id t) (m_timerIdSet q)\<rparr>)
      in if earliestChanged then resetTimerfd (m_when t) q' else q')"

definition addTimer :: "int \<Rightarrow> int \<Rightarrow> bool \<Rightarrow> bool \<Rightarrow> TimerQueue \<Rightarrow> (TimerId \<times> TimerQueue) result" where
  "addTimer when interval h l q =
     assert_that (\<not> h \<or> \<not> l)
       (let (created, t) = Timer_new (timersCreated q) when interval h l
        in Inr (m_id t, addTimerInLoop t (q\<lparr>timersCreated := created\<rparr>)))"

definition cancelTimer :: "TimerId \<Rightarrow> TimerQueue \<Rightarrow> TimerQueue" where
  "cancelTimer i q = q\<lparr>m_timerIdSet := m_timerIdSet q - {i}\<rparr>"

definition getTimeout :: "TimerQueue \<Rightarrow> int" where
  "getTimeout q =
     (if pq_empty (m_timers q) then 10000
      else howMuchTimeFromNow_ms (clock q) (m_when (pq_top (m_timers q))))"

text \<open>The loop of \<^verbatim>\<open>getExpired\<close>; every round pops one timer, so the length of the queue bounds it.\<close>

fun getExpired_loop :: "nat \<Rightarrow> int \<Rightarrow> Timer list \<Rightarrow> TimerQueue \<Rightarrow> Timer list \<times> TimerQueue" where
  "getExpired_loop 0 now expired q = (expired, q)"
| "getExpired_loop (Suc n) now expired q =
     (if pq_empty (m_timers q) then (expired, q)
      else let t = pq_top (m_timers q)
        in if m_when t < now then
             (let (expired', q') =
                (if m_highest t \<and> m_highestTask q \<noteq> None then (expired, q\<lparr>m_highestTask := Some t\<rparr>)
                 else if m_lowest t \<and> m_lowestTask q \<noteq> None then (expired, q\<lparr>m_lowestTask := Some t\<rparr>)
                 else (expired @ [t], q))
              in getExpired_loop n now expired' (q'\<lparr>m_timers := pq_pop (m_timers q')\<rparr>))
           else (expired, q))"

definition getExpired :: "int \<Rightarrow> TimerQueue \<Rightarrow> Timer list \<times> TimerQueue" where
  "getExpired now q = getExpired_loop (length (m_timers q)) now [] q"

fun reset_loop :: "int \<Rightarrow> Timer list \<Rightarrow> TimerQueue \<Rightarrow> TimerQueue" where
  "reset_loop now [] q = q"
| "reset_loop now (t # ts) q =
     reset_loop now ts
       (if m_id t \<in> m_timerIdSet q then
          (if m_repeat t then snd (insert_timer (restart (clock q) now t) q)
           else q\<lparr>m_timerIdSet := m_timerIdSet q - {m_id t}\<rparr>)
        else q)"

definition reset_expired :: "Timer list \<Rightarrow> int \<Rightarrow> TimerQueue \<Rightarrow> TimerQueue" where
  "reset_expired expired now q =
     (let q' = reset_loop now expired q
      in if pq_empty (m_timers q') then q'
         else resetTimerfd (m_when (pq_top (m_timers q'))) q')"

section \<open>Callbacks and the handler\<close>

datatype timer_op = Add int int bool bool | Cancel TimerId | Advance nat

text \<open>An \<open>Add\<close> with both flags fails the assertion of \<^verbatim>\<open>addTimer\<close>; it is left out of the runs.\<close>

fun exec_op :: "timer_op \<Rightarrow> TimerQueue \<Rightarrow> TimerQueue" where
  "exec_op (Add when interval h l) q =
     (case addTimer when interval h l q of Inr (_, q') \<Rightarrow> q' | Inl _ \<Rightarrow> q)"
| "exec_op (Cancel i) q = cancelTimer i q"
| "exec_op (Advance d) q = q\<lparr>clock := clock q + int d\<rparr>"

definition run_timer :: "(TimerId \<Rightarrow> timer_op list) \<Rightarrow> Timer \<Rightarrow> TimerQueue \<Rightarrow> TimerQueue" where
  "run_timer cbs t q = fold exec_op (cbs (m_id t)) (q\<lparr>ran := ran q @ [m_id t]\<rparr>)"

definition run_if_active :: "(TimerId \<Rightarrow> timer_op list) \<Rightarrow> Timer \<Rightarrow> TimerQueue \<Rightarrow> TimerQueue" where
  "run_if_active cbs t q = (if m_id t \<in> m_timerIdSet q then run_timer cbs t q else q)"

definition opt_list :: "'a option \<Rightarrow> 'a list" where
  "opt_list x = (case x of Some a \<Rightarrow> [a] | None \<Rightarrow> [])"

text \<open>The common body of \<^verbatim>\<open>handleRead\<close> (Linux) and \<^verbatim>\<open>processTimers\<close> (other systems).\<close>

definition process_expired :: "(TimerId \<Rightarrow> timer_op list) \<Rightarrow> int \<Rightarrow> TimerQueue \<Rightarrow> TimerQueue" where
  "process_expired cbs now q =
     (let (expired, q1) = getExpired now q;
          q2 = q1\<lparr>m_callingExpiredTimers := True\<rparr>;
          q3 = (case m_highestTask q2 of Some t \<Rightarrow> run_if_active cbs t q2 | None \<Rightarrow> q2);
          q4 = fold (run_if_active cbs) expired q3;
          q5 = (case m_lowestTask q4 of Some t \<Rightarrow> run_if_active cbs t q4 | None \<Rightarrow> q4);
          q6 = q5\<lparr>m_callingExpiredTimers := False\<rparr>;
          expired' = expired @ opt_list (m_highestTask q6) @ opt_list (m_lowestTask q6);
          q7 = q6\<lparr>m_highestTask := None, m_lowestTask := None\<rparr>
      in reset_expired expired' now q7)"

definition handleRead_timer :: "(TimerId \<Rightarrow> timer_op list) \<Rightarrow> TimerQueue \<Rightarrow> TimerQueue" where
  "handleRead_timer cbs q = (let now = clock q in process_expired cbs now (readTimerfd q))"

definition processTimers :: "(TimerId \<Rightarrow> timer_op list) \<Rightarrow> TimerQueue \<Rightarrow> TimerQueue" where
  "processTimers cbs q = (let now = clock q in process_expired cbs now q)"

text \<open>\<^verbatim>\<open>TimerQueue::reset()\<close>: a new descriptor, armed for the earliest timer.\<close>

definition reset_fd :: "TimerQueue \<Rightarrow> TimerQueue" where
  "reset_fd q =
     (let q' = q\<lparr>armed := None\<rparr>
      in if pq_empty (m_timers q') then q' else resetTimerfd (m_when (pq_top (m_timers q'))) q')"

datatype loop_op = Op timer_op | HandleRead

fun exec_loop_op :: "(TimerId \<Rightarrow> timer_op list) \<Rightarrow> loop_op \<Rightarrow> TimerQueue \<Rightarrow> TimerQueue" where
  "exec_loop_op cbs (Op e) q = exec_op e q"
| "exec_loop_op cbs HandleRead q = handleRead_timer cbs q"

definition run_loop_ops :: "(TimerId \<Rightarrow> timer_op list) \<Rightarrow> loop_op list \<Rightarrow> TimerQueue \<Rightarrow> TimerQueue" where
  "run_loop_ops cbs es q = fold (exec_loop_op cbs) es q"

section \<open>Invariant\<close>

text \<open>
  \<open>es\<close> are the timers taken out of the queue by a running handler. The tasks of highest and
  lowest priority are always absent: \<^verbatim>\<open>getExpired\<close> replaces them only when they are present.
\<close>

definition tq_inv :: "TimerQueue \<Rightarrow> Timer list \<Rightarrow> bool" where
  "tq_inv q es \<longleftrightarrow>
     pq_inv (m_timers q) \<and> m_highestTask q = None \<and> m_lowestTask q = None \<and>
     distinct (map m_id (m_timers q @ es)) \<and>
     (\<forall>t \<in> set (m_timers q @ es). m_id t \<le> timersCreated q) \<and>
     m_timerIdSet q \<subseteq> {..timersCreated q} \<and> set (ran q) \<subseteq> {..timersCreated q}"

lemma tq_inv_new: "tq_inv (TimerQueue_new n t) []"
  by (simp add: tq_inv_def TimerQueue_new_def pq_inv_def)

lemma resetTimerfd_simps [simp]:
  "m_timers (resetTimerfd x q) = m_timers q" "m_highestTask (resetTimerfd x q) = m_highestTask q"
  "m_lowestTask (resetTimerfd x q) = m_lowestTask q" "m_timerIdSet (resetTimerfd x q) = m_timerIdSet q"
  "timersCreated (resetTimerfd x q) = timersCreated q" "clock (resetTimerfd x q) = clock q"
  "ran (resetTimerfd x q) = ran q"
  by (simp_all add: resetTimerfd_def split_beta)

lemma tq_inv_cong:
  "\<lbrakk>tq_inv q es; m_timers q' = m_timers q; m_highestTask q' = m_highestTask q;
    m_lowestTask q' = m_lowestTask q; m_timerIdSet q' = m_timerIdSet q;
    timersCreated q' = timersCreated q; set (ran q') \<subseteq> {..timersCreated q}\<rbrakk> \<Longrightarrow> tq_inv q' es"
  by (simp add: tq_inv_def)

lemma insert_timer_simps [simp]:
  "m_timers (snd (insert_timer t q)) = pq_push t (m_timers q)"
  "m_highestTask (snd (insert_timer t q)) = m_highestTask q"
  "m_lowestTask (snd (insert_timer t q)) = m_lowestTask q"
  "m_timerIdSet (snd (insert_timer t q)) = m_timerIdSet q"
  "timersCreated (snd (insert_timer t q)) = timersCreated q"
  "clock (snd (insert_timer t q)) = clock q" "ran (snd (insert_timer t q)) = ran q"
  "armed (snd (insert_timer t q)) = armed q"
  by (simp_all add: insert_timer_def Let_def)

lemma set_pq_push [simp]: "set (pq_push t h) = insert t (set h)"
  using mset_pq_push [of t h] by (metis set_mset_add_mset_insert set_mset_mset)

lemma distinct_pq_push:
  "distinct (map m_id (pq_push t h)) \<longleftrightarrow> m_id t \<notin> m_id ` set h \<and> distinct (map m_id h)"
proof -
  have "mset (map m_id (pq_push t h)) = mset (map m_id (t # h))"
    by (simp add: mset_pq_push)
  from mset_eq_imp_distinct_iff [OF this] show ?thesis by simp
qed

lemma tq_inv_insert:
  assumes "tq_inv q (es1 @ t # es2)" and "m_id u = m_id t"
  shows "tq_inv (snd (insert_timer u q)) (es1 @ es2)"
  using assms by (auto simp: tq_inv_def pq_inv_def sorted_pq_push distinct_pq_push)

lemma addTimerInLoop_simps [simp]:
  "m_timers (addTimerInLoop t q) = pq_push t (m_timers q)"
  "m_highestTask (addTimerInLoop t q) = m_highestTask q"
  "m_lowestTask (addTimerInLoop t q) = m_lowestTask q"
  "m_timerIdSet (addTimerInLoop t q) = insert (m_id t) (m_timerIdSet q)"
  "timersCreated (addTimerInLoop t q) = timersCreated q"
  "clock (addTimerInLoop t q) = clock q" "ran (addTimerInLoop t q) = ran q"
  by (simp_all add: addTimerInLoop_def insert_timer_def Let_def)

lemma exec_op_inv: "tq_inv q es \<Longrightarrow> tq_inv (exec_op e q) es"
proof (cases e)
  case (Add tp interval h l)
  assume "tq_inv q es"
  then have "Suc (timersCreated q) \<notin> m_id ` (set (m_timers q) \<union> set es)"
    unfolding tq_inv_def set_append by (metis image_iff Suc_n_not_le_n)
  with \<open>tq_inv q es\<close> Add show ?thesis
    by (auto simp: addTimer_def Timer_new_def assert_that_def tq_inv_def pq_inv_def sorted_pq_push
        distinct_pq_push image_Un intro: le_SucI)
qed (auto simp: tq_inv_def cancelTimer_def)

lemma fold_exec_op_inv: "tq_inv q es \<Longrightarrow> tq_inv (fold exec_op ops q) es"
  by (induction ops arbitrary: q) (simp_all add: exec_op_inv)

lemma run_if_active_inv: "tq_inv q es \<Longrightarrow> tq_inv (run_if_active cbs t q) es"
proof (cases "m_id t \<in> m_timerIdSet q")
  case True
  assume "tq_inv q es"
  then have "tq_inv (q\<lparr>ran := ran q @ [m_id t]\<rparr>) es" using True by (auto simp: tq_inv_def)
  then show ?thesis using True by (simp add: run_if_active_def run_timer_def fold_exec_op_inv)
qed (simp add: run_if_active_def)

lemma fold_run_inv: "tq_inv q es \<Longrightarrow> tq_inv (fold (run_if_active cbs) ts q) es"
  by (induction ts arbitrary: q) (simp_all add: run_if_active_inv)

text \<open>\<^verbatim>\<open>getExpired\<close> in terms of the priority queue: the tasks of special priority never appear.\<close>

lemma getExpired_loop_pop:
  assumes "m_highestTask q = None" and "m_lowestTask q = None"
  shows "getExpired_loop n now acc q =
    (case pop_while pq_empty pq_top pq_pop (\<lambda>t. m_when t < now) n (m_timers q) of
       (xs, h) \<Rightarrow> (acc @ xs, q\<lparr>m_timers := h\<rparr>))"
  using assms
proof (induction n arbitrary: acc q)
  case (Suc n)
  then show ?case by (auto simp: Let_def split: prod.splits)
qed simp

text \<open>The timers that are due at \<open>now\<close>, and what is left.\<close>

lemma getExpired_spec:
  assumes "tq_inv q []"
  obtains xs h where "getExpired now q = (xs, q\<lparr>m_timers := h\<rparr>)"
    and "mset xs = filter_mset (\<lambda>t. m_when t < now) (mset (m_timers q))"
    and "mset h = filter_mset (\<lambda>t. \<not> m_when t < now) (mset (m_timers q))"
    and "sorted (map m_when xs)" and "tq_inv (q\<lparr>m_timers := h\<rparr>) xs"
proof -
  obtain xs h where xs:
    "pop_while pq_empty pq_top pq_pop (\<lambda>t. m_when t < now) (length (m_timers q)) (m_timers q) = (xs, h)"
    by fastforce
  have inv: "pq_inv (m_timers q)" "m_highestTask q = None" "m_lowestTask q = None"
    using assms by (simp_all add: tq_inv_def)
  from timers.pop_while_due [OF inv(1) _ xs]
  have due: "pq_inv h" "mset xs = filter_mset (\<lambda>t. m_when t < now) (mset (m_timers q))"
    "mset h = filter_mset (\<lambda>t. \<not> m_when t < now) (mset (m_timers q))" "sorted (map m_when xs)"
    by simp_all
  then have all: "mset (h @ xs) = mset (m_timers q)"
    using multiset_partition [of "mset (m_timers q)" "\<lambda>t. m_when t < now"]
    by (simp only: mset_append add.commute)
  have "distinct (map m_id (h @ xs)) = distinct (map m_id (m_timers q))"
    using mset_eq_imp_distinct_iff [of "map m_id (h @ xs)" "map m_id (m_timers q)"] all
    by (simp only: mset_map)
  moreover have "set (h @ xs) = set (m_timers q)" by (rule mset_eq_setD [OF all])
  ultimately have "tq_inv (q\<lparr>m_timers := h\<rparr>) xs"
    using assms due(1) by (simp add: tq_inv_def)
  moreover have "getExpired now q = (xs, q\<lparr>m_timers := h\<rparr>)"
    using xs inv by (simp add: getExpired_def getExpired_loop_pop)
  ultimately show thesis using that due by blast
qed

lemma process_expired_unfold:
  assumes "tq_inv q []" and "getExpired now q = (xs, q1)" and "tq_inv q1 xs"
  shows "process_expired cbs now q =
    (let q4 = fold (run_if_active cbs) xs (q1\<lparr>m_callingExpiredTimers := True\<rparr>)
     in reset_expired xs now (q4\<lparr>m_callingExpiredTimers := False, m_highestTask := None,
          m_lowestTask := None\<rparr>))"
    and "tq_inv (fold (run_if_active cbs) xs (q1\<lparr>m_callingExpiredTimers := True\<rparr>)) xs"
proof -
  have q2: "tq_inv (q1\<lparr>m_callingExpiredTimers := True\<rparr>) xs"
    using assms(3) by (simp add: tq_inv_def)
  show q4: "tq_inv (fold (run_if_active cbs) xs (q1\<lparr>m_callingExpiredTimers := True\<rparr>)) xs"
    by (rule fold_run_inv [OF q2])
  then show "process_expired cbs now q =
    (let q4 = fold (run_if_active cbs) xs (q1\<lparr>m_callingExpiredTimers := True\<rparr>)
     in reset_expired xs now (q4\<lparr>m_callingExpiredTimers := False, m_highestTask := None,
          m_lowestTask := None\<rparr>))"
    using assms q2 by (simp add: process_expired_def tq_inv_def opt_list_def Let_def)
qed

lemma reset_loop_simps [simp]:
  "ran (reset_loop now ts q) = ran q" "timersCreated (reset_loop now ts q) = timersCreated q"
  "clock (reset_loop now ts q) = clock q"
  by (induction ts arbitrary: q) simp_all

lemma reset_expired_simps [simp]:
  "ran (reset_expired ts now q) = ran q" "timersCreated (reset_expired ts now q) = timersCreated q"
  "clock (reset_expired ts now q) = clock q"
  "m_timers (reset_expired ts now q) = m_timers (reset_loop now ts q)"
  "m_timerIdSet (reset_expired ts now q) = m_timerIdSet (reset_loop now ts q)"
  by (simp_all add: reset_expired_def Let_def)

lemma restart_simps [simp]: "m_id (restart c now t) = m_id t" "m_repeat (restart c now t) = m_repeat t"
  by (simp_all add: restart_def)

lemma reset_loop_inv: "tq_inv q ts \<Longrightarrow> tq_inv (reset_loop now ts q) []"
proof (induction ts arbitrary: q)
  case (Cons t ts)
  have drop: "tq_inv q ts" using Cons.prems by (auto simp: tq_inv_def)
  have "tq_inv (snd (insert_timer (restart (clock q) now t) q)) ts"
    using tq_inv_insert [of q "[]" t ts] Cons.prems by simp
  moreover have "tq_inv (q\<lparr>m_timerIdSet := m_timerIdSet q - {m_id t}\<rparr>) ts"
    using drop by (auto simp: tq_inv_def)
  ultimately show ?case using drop Cons.IH by simp
qed simp

lemma reset_expired_inv: "tq_inv q ts \<Longrightarrow> tq_inv (reset_expired ts now q) []"
  using reset_loop_inv [of q ts now] by (simp add: reset_expired_def Let_def tq_inv_def)

lemma process_expired_inv:
  assumes "tq_inv q []"
  shows "tq_inv (process_expired cbs now q) []"
proof -
  from getExpired_spec [OF assms, of now] obtain xs h where
    x: "getExpired now q = (xs, q\<lparr>m_timers := h\<rparr>)" "tq_inv (q\<lparr>m_timers := h\<rparr>) xs" by metis
  note u = process_expired_unfold [OF assms x, of cbs]
  show ?thesis
    unfolding u(1) Let_def by (rule reset_expired_inv) (use u(2) in \<open>simp add: tq_inv_def\<close>)
qed

lemma handleRead_inv: "tq_inv q [] \<Longrightarrow> tq_inv (handleRead_timer cbs q) []"
  unfolding handleRead_timer_def Let_def
  by (rule process_expired_inv) (simp add: tq_inv_def readTimerfd_def)

lemma run_loop_ops_inv: "tq_inv q [] \<Longrightarrow> tq_inv (run_loop_ops cbs es q) []"
  unfolding run_loop_ops_def
proof (induction es arbitrary: q)
  case (Cons e es)
  then show ?case by (cases e) (simp_all add: exec_op_inv handleRead_inv)
qed simp

section \<open>Which callbacks run\<close>

lemma exec_op_simps [simp]:
  "ran (exec_op e q) = ran q" "timersCreated q \<le> timersCreated (exec_op e q)"
  by (cases e; auto simp: addTimer_def Timer_new_def assert_that_def cancelTimer_def)+

lemma fold_exec_op_simps [simp]:
  "ran (fold exec_op es q) = ran q" "timersCreated q \<le> timersCreated (fold exec_op es q)"
  by (induction es arbitrary: q) (auto intro: order_trans [OF exec_op_simps(2)])

lemma exec_op_active:
  "i \<le> timersCreated q \<Longrightarrow> i \<in> m_timerIdSet (exec_op e q) \<Longrightarrow> i \<in> m_timerIdSet q"
  by (cases e) (auto simp: addTimer_def Timer_new_def assert_that_def cancelTimer_def split: if_splits)

lemma fold_exec_op_active:
  "i \<le> timersCreated q \<Longrightarrow> i \<in> m_timerIdSet (fold exec_op es q) \<Longrightarrow> i \<in> m_timerIdSet q"
proof (induction es arbitrary: q)
  case (Cons e es)
  have "i \<le> timersCreated (exec_op e q)" using Cons.prems(1) exec_op_simps(2) le_trans by blast
  then show ?case using Cons exec_op_active by fastforce
qed simp

lemma run_if_active_created [simp]: "timersCreated q \<le> timersCreated (run_if_active cbs t q)"
  using fold_exec_op_simps(2) [of "q\<lparr>ran := ran q @ [m_id t]\<rparr>"]
  by (simp add: run_if_active_def run_timer_def)

lemma run_if_active_active:
  "i \<le> timersCreated q \<Longrightarrow> i \<in> m_timerIdSet (run_if_active cbs t q) \<Longrightarrow> i \<in> m_timerIdSet q"
  using fold_exec_op_active [of i "q\<lparr>ran := ran q @ [m_id t]\<rparr>"]
  by (auto simp: run_if_active_def run_timer_def split: if_splits)

lemma run_if_active_ran:
  "ran (run_if_active cbs t q) = ran q @ (if m_id t \<in> m_timerIdSet q then [m_id t] else [])"
  by (simp add: run_if_active_def run_timer_def)

lemma fold_run_ran:
  "\<exists>rs. ran (fold (run_if_active cbs) ts q) = ran q @ rs \<and> subseq rs (map m_id ts)"
proof (induction ts arbitrary: q)
  case (Cons t ts)
  obtain rs where "ran (fold (run_if_active cbs) ts (run_if_active cbs t q)) =
    ran (run_if_active cbs t q) @ rs" "subseq rs (map m_id ts)"
    using Cons by blast
  then show ?case
    by (intro exI [of _ "(if m_id t \<in> m_timerIdSet q then [m_id t] else []) @ rs"])
      (simp add: run_if_active_ran list_emb_Cons)
qed simp

lemma fold_run_created: "timersCreated q \<le> timersCreated (fold (run_if_active cbs) ts q)"
  by (induction ts arbitrary: q) (auto intro: order_trans [OF run_if_active_created])

lemma fold_run_active:
  "i \<le> timersCreated q \<Longrightarrow> i \<in> m_timerIdSet (fold (run_if_active cbs) ts q) \<Longrightarrow> i \<in> m_timerIdSet q"
proof (induction ts arbitrary: q)
  case (Cons t ts)
  have "i \<le> timersCreated (run_if_active cbs t q)"
    using Cons.prems(1) run_if_active_created le_trans by blast
  then show ?case using Cons run_if_active_active by fastforce
qed simp

text \<open>A timer that is not in the set of valid timers does not run and does not come back.\<close>

lemma fold_run_inactive:
  "i \<le> timersCreated q \<Longrightarrow> i \<notin> m_timerIdSet q \<Longrightarrow>
     count_list (ran (fold (run_if_active cbs) ts q)) i = count_list (ran q) i"
proof (induction ts arbitrary: q)
  case (Cons t ts)
  let ?q = "run_if_active cbs t q"
  have "i \<le> timersCreated ?q" using Cons.prems(1) run_if_active_created le_trans by blast
  moreover have "i \<notin> m_timerIdSet ?q" using run_if_active_active Cons.prems by blast
  moreover have "count_list (ran ?q) i = count_list (ran q) i"
    using Cons.prems by (auto simp: run_if_active_ran)
  ultimately show ?case using Cons.IH [of ?q] by simp
qed simp

lemma reset_loop_active: "m_timerIdSet (reset_loop now ts q) \<subseteq> m_timerIdSet q"
proof (induction ts arbitrary: q)
  case (Cons t ts)
  show ?case by (simp; intro conjI impI; insert Cons, fastforce)
qed simp

definition retired :: "TimerId \<Rightarrow> nat \<Rightarrow> TimerQueue \<Rightarrow> bool" where
  "retired i n q \<longleftrightarrow> i \<le> timersCreated q \<and> i \<notin> m_timerIdSet q \<and> count_list (ran q) i = n"

lemma retired_handleRead:
  assumes "tq_inv q []" and "retired i n q"
  shows "retired i n (handleRead_timer cbs q)"
proof -
  let ?q = "readTimerfd q" and ?now = "clock q"
  have inv: "tq_inv ?q []" using assms(1) by (simp add: tq_inv_def readTimerfd_def)
  from getExpired_spec [OF inv, of ?now] obtain xs h where
    x: "getExpired ?now ?q = (xs, ?q\<lparr>m_timers := h\<rparr>)" "tq_inv (?q\<lparr>m_timers := h\<rparr>) xs" by metis
  let ?q1 = "?q\<lparr>m_timers := h, m_callingExpiredTimers := True\<rparr>"
  let ?q4 = "fold (run_if_active cbs) xs ?q1"
  have q1: "i \<le> timersCreated ?q1" "i \<notin> m_timerIdSet ?q1" "count_list (ran ?q1) i = n"
    using assms(2) by (simp_all add: retired_def readTimerfd_def)
  have "i \<le> timersCreated ?q4" using q1(1) fold_run_created le_trans by blast
  moreover have "i \<notin> m_timerIdSet ?q4" using fold_run_active q1 by blast
  moreover have "count_list (ran ?q4) i = n" using fold_run_inactive [OF q1(1,2)] q1(3) by simp
  ultimately show ?thesis
    using reset_loop_active
    by (fastforce simp: handleRead_timer_def Let_def process_expired_unfold(1) [OF inv x] retired_def)
qed

lemma retired_run:
  "tq_inv q [] \<Longrightarrow> retired i n q \<Longrightarrow> retired i n (run_loop_ops cbs es q)"
  unfolding run_loop_ops_def
proof (induction es arbitrary: q)
  case (Cons e es)
  have "tq_inv (exec_loop_op cbs e q) []"
    using Cons.prems(1) by (cases e) (simp_all add: exec_op_inv handleRead_inv)
  moreover have "retired i n (exec_loop_op cbs e q)"
  proof (cases e)
    case (Op f)
    then show ?thesis
      using Cons.prems(2) exec_op_active [of i q f] le_trans [OF _ exec_op_simps(2) [of q f], of i]
      by (auto simp: retired_def)
  next
    case HandleRead
    then show ?thesis using retired_handleRead [OF Cons.prems] by simp
  qed
  ultimately show ?case using Cons.IH by simp
qed simp

section \<open>The deadline of the descriptor\<close>

lemma timespec_bounds:
  assumes "howMuchTimeFromNow now tp = (sec, nsec)"
  shows "sec * 1000000000 + nsec \<le> max (tp - now) 100000" and "100000 \<le> sec * 1000000000 + nsec"
    and "tp - now < sec * 1000000000 + nsec + 1000" and "0 \<le> nsec" and "nsec < 1000000000"
proof -
  define ms where "ms = max (c_div (tp - now) 1000) 100"
  have ms: "100 \<le> ms" by (simp add: ms_def)
  then have sn: "sec = ms div 1000000" "nsec = ms mod 1000000 * 1000"
    using assms by (auto simp: howMuchTimeFromNow_def Let_def ms_def max_def split: if_splits)
  have tot: "sec * 1000000000 + nsec = 1000 * ms"
    using div_mult_mod_eq [of ms 1000000] unfolding sn by linarith
  have "1000 * ms \<le> max (tp - now) 100000 \<and> tp - now < 1000 * ms + 1000"
  proof (cases "0 \<le> tp - now")
    case True
    then have "c_div (tp - now) 1000 = (tp - now) div 1000" by simp
    then show ?thesis using div_mult_mod_eq [of "tp - now" 1000]
        pos_mod_bound [of 1000 "tp - now"] pos_mod_sign [of 1000 "tp - now"] unfolding ms_def by linarith
  next
    case False
    then have "ms = 100" using c_div_neg [of "tp - now" 1000] by (simp add: ms_def)
    then show ?thesis using False by simp
  qed
  then show "sec * 1000000000 + nsec \<le> max (tp - now) 100000" "100000 \<le> sec * 1000000000 + nsec"
    "tp - now < sec * 1000000000 + nsec + 1000"
    using tot ms by simp_all
  show "0 \<le> nsec" "nsec < 1000000000" unfolding sn by simp_all
qed

text \<open>
  The descriptor is armed for the earliest timer: not later than its due time, or 100 microseconds
  from now when that has passed.
\<close>

definition armed_ok :: "TimerQueue \<Rightarrow> bool" where
  "armed_ok q \<longleftrightarrow>
     (m_timers q \<noteq> [] \<longrightarrow> (\<exists>a. armed q = Some a \<and> a \<le> max (m_when (pq_top (m_timers q))) (clock q + 100000)))"

lemma armed_ok_reset: "m_timers q \<noteq> [] \<Longrightarrow> armed_ok (resetTimerfd (m_when (pq_top (m_timers q))) q)"
proof -
  obtain sec nsec where "howMuchTimeFromNow (clock q) (m_when (pq_top (m_timers q))) = (sec, nsec)"
    by fastforce
  moreover from timespec_bounds(1) [OF this]
  have "clock q + sec * 1000000000 + nsec \<le> max (m_when (pq_top (m_timers q))) (clock q + 100000)"
    by linarith
  ultimately show ?thesis by (simp add: armed_ok_def resetTimerfd_def)
qed

lemma pq_top_push:
  "pq_inv h \<Longrightarrow> pq_top (pq_push t h) = (if h = [] \<or> m_when t < m_when (pq_top h) then t else pq_top h)"
  by (cases h) (auto simp: pq_top_def pq_push_def)

lemma armed_ok_addTimerInLoop:
  assumes "armed_ok q" and "pq_inv (m_timers q)"
  shows "armed_ok (addTimerInLoop t q)"
proof (cases "m_timers q = [] \<or> m_when t < m_when (pq_top (m_timers q))")
  case True
  let ?q = "q\<lparr>m_timerIdSet := insert (m_id t) (m_timerIdSet q), m_timers := pq_push t (m_timers q)\<rparr>"
  have "addTimerInLoop t q = resetTimerfd (m_when t) ?q"
    using True by (simp add: addTimerInLoop_def insert_timer_def pq_empty_def)
  moreover have "m_when (pq_top (m_timers ?q)) = m_when t"
    using True pq_top_push [OF assms(2), of t] by simp
  moreover have "m_timers ?q \<noteq> []" by (simp add: pq_push_def)
  ultimately show ?thesis using armed_ok_reset [of ?q] by simp
next
  case False
  then show ?thesis
    using assms pq_top_push [OF assms(2), of t]
    by (auto simp: addTimerInLoop_def insert_timer_def pq_empty_def armed_ok_def)
qed

lemma armed_ok_exec_op:
  assumes "armed_ok q" and "tq_inv q []"
  shows "armed_ok (exec_op e q)"
proof (cases e)
  case (Add tp interval h l)
  let ?t = "snd (Timer_new (timersCreated q) tp interval h l)"
  have "armed_ok (addTimerInLoop ?t (q\<lparr>timersCreated := timersCreated q + 1\<rparr>))"
    by (rule armed_ok_addTimerInLoop) (use assms in \<open>auto simp: armed_ok_def tq_inv_def\<close>)
  then show ?thesis
    using Add assms(1) by (auto simp: addTimer_def Timer_new_def assert_that_def)
next
  case (Advance d)
  then show ?thesis using assms(1) by (fastforce simp: armed_ok_def)
qed (use assms in \<open>auto simp: armed_ok_def cancelTimer_def\<close>)

lemma armed_ok_reset_expired: "armed_ok (reset_expired ts now q)"
  using armed_ok_reset [of "reset_loop now ts q"]
  by (auto simp: reset_expired_def pq_empty_def Let_def armed_ok_def [of "reset_loop now ts q"])

lemma armed_ok_handleRead: "tq_inv q [] \<Longrightarrow> armed_ok (handleRead_timer cbs q)"
  by (simp add: handleRead_timer_def process_expired_def armed_ok_reset_expired Let_def split_beta)

lemma armed_ok_run:
  "tq_inv q [] \<Longrightarrow> armed_ok q \<Longrightarrow> armed_ok (run_loop_ops cbs es q)"
  unfolding run_loop_ops_def
proof (induction es arbitrary: q)
  case (Cons e es)
  have "tq_inv (exec_loop_op cbs e q) [] \<and> armed_ok (exec_loop_op cbs e q)"
    using Cons.prems by (cases e) (simp_all add: exec_op_inv handleRead_inv armed_ok_exec_op armed_ok_handleRead)
  then show ?case using Cons.IH by simp
qed simp

section \<open>One-shot and repeating timers\<close>

text \<open>Each timer in a list with distinct ids runs at most once while the list is processed.\<close>

lemma fold_run_other:
  "i \<notin> m_id ` set ts \<Longrightarrow> count_list (ran (fold (run_if_active cbs) ts q)) i = count_list (ran q) i"
proof (induction ts arbitrary: q)
  case (Cons t ts)
  then have "count_list (ran (run_if_active cbs t q)) i = count_list (ran q) i"
    by (auto simp: run_if_active_ran)
  with Cons show ?case by simp
qed simp

lemma fold_run_once:
  "distinct (map m_id ts) \<Longrightarrow>
     count_list (ran (fold (run_if_active cbs) ts q)) i \<le> Suc (count_list (ran q) i)"
proof (induction ts arbitrary: q)
  case (Cons t ts)
  show ?case
  proof (cases "i = m_id t")
    case True
    then have "count_list (ran (fold (run_if_active cbs) ts (run_if_active cbs t q))) i =
      count_list (ran (run_if_active cbs t q)) i"
      using Cons.prems by (intro fold_run_other) simp
    then show ?thesis by (simp add: run_if_active_ran)
  next
    case False
    then have "count_list (ran (run_if_active cbs t q)) i = count_list (ran q) i"
      by (simp add: run_if_active_ran)
    then show ?thesis using Cons.IH [of "run_if_active cbs t q"] Cons.prems by simp
  qed
qed simp

definition oneshot :: "TimerId \<Rightarrow> TimerQueue \<Rightarrow> bool" where
  "oneshot i q \<longleftrightarrow>
     i \<le> timersCreated q \<and> (\<forall>t \<in> set (m_timers q). m_id t = i \<longrightarrow> \<not> m_repeat t) \<and>
     count_list (ran q) i \<le> 1 \<and> (i \<in> m_timerIdSet q \<longrightarrow> count_list (ran q) i = 0)"

lemma reset_loop_timers: "set (m_timers (reset_loop now ts q)) \<subseteq>
    set (m_timers q) \<union> {u. \<exists>t \<in> set ts. m_id u = m_id t \<and> m_repeat t}"
proof (induction ts arbitrary: q)
  case (Cons t ts)
  let ?q = "if m_id t \<in> m_timerIdSet q then
      (if m_repeat t then snd (insert_timer (restart (clock q) now t) q)
       else q\<lparr>m_timerIdSet := m_timerIdSet q - {m_id t}\<rparr>) else q"
  have "set (m_timers ?q) \<subseteq> insert (restart (clock q) now t) (set (m_timers q))" by auto
  moreover have "m_repeat t" if "restart (clock q) now t \<in> set (m_timers ?q)" "restart (clock q) now t \<notin> set (m_timers q)"
    using that by (auto split: if_splits)
  ultimately show ?case using Cons.IH [of ?q] by (simp del: insert_timer_simps) fastforce
qed simp

lemma reset_loop_erases:
  "\<lbrakk>\<And>t. t \<in> set ts \<Longrightarrow> m_id t = i \<Longrightarrow> \<not> m_repeat t; i \<in> m_id ` set ts\<rbrakk> \<Longrightarrow>
     i \<notin> m_timerIdSet (reset_loop now ts q)"
proof (induction ts arbitrary: q)
  case (Cons t ts)
  let ?q = "if m_id t \<in> m_timerIdSet q then
      (if m_repeat t then snd (insert_timer (restart (clock q) now t) q)
       else q\<lparr>m_timerIdSet := m_timerIdSet q - {m_id t}\<rparr>) else q"
  show ?case
  proof (cases "i \<in> m_id ` set ts")
    case True
    then show ?thesis using Cons.IH [of ?q] Cons.prems(1) by simp
  next
    case False
    then have "m_id t = i" using Cons.prems(2) by auto
    then have "i \<notin> m_timerIdSet ?q" using Cons.prems(1) [of t] by auto
    then show ?thesis using reset_loop_active [of now ts ?q] by auto
  qed
qed simp

lemma fold_exec_op_timers:
  "t \<in> set (m_timers (fold exec_op es q)) \<Longrightarrow> m_id t \<le> timersCreated q \<Longrightarrow> t \<in> set (m_timers q)"
proof (induction es arbitrary: q)
  case (Cons e es)
  have "m_id t \<le> timersCreated (exec_op e q)" using Cons.prems(2) exec_op_simps(2) le_trans by blast
  then have "t \<in> set (m_timers (exec_op e q))" using Cons by simp
  then show ?case using Cons.prems(2)
    by (cases e) (auto simp: addTimer_def Timer_new_def assert_that_def cancelTimer_def split: if_splits)
qed simp

lemma fold_run_timers:
  "u \<in> set (m_timers (fold (run_if_active cbs) ts q)) \<Longrightarrow> m_id u \<le> timersCreated q \<Longrightarrow>
     u \<in> set (m_timers q)"
proof (induction ts arbitrary: q)
  case (Cons t ts)
  have "m_id u \<le> timersCreated (run_if_active cbs t q)"
    using Cons.prems(2) run_if_active_created le_trans by blast
  then have "u \<in> set (m_timers (run_if_active cbs t q))" using Cons by simp
  then show ?case
    using Cons.prems(2) fold_exec_op_timers [of u "cbs (m_id t)" "q\<lparr>ran := ran q @ [m_id t]\<rparr>"]
    by (auto simp: run_if_active_def run_timer_def split: if_splits)
qed simp

lemma oneshot_handleRead:
  assumes "tq_inv q []" and "oneshot i q"
  shows "oneshot i (handleRead_timer cbs q)"
proof -
  let ?q = "readTimerfd q" and ?now = "clock q"
  have inv: "tq_inv ?q []" using assms(1) by (simp add: tq_inv_def readTimerfd_def)
  from getExpired_spec [OF inv, of ?now] obtain xs h where
    x: "getExpired ?now ?q = (xs, ?q\<lparr>m_timers := h\<rparr>)" "tq_inv (?q\<lparr>m_timers := h\<rparr>) xs"
    and m: "mset xs = filter_mset (\<lambda>t. m_when t < ?now) (mset (m_timers ?q))"
      "mset h = filter_mset (\<lambda>t. \<not> m_when t < ?now) (mset (m_timers ?q))" by metis
  have sub: "set xs \<union> set h \<subseteq> set (m_timers q)"
    using m by (auto simp: readTimerfd_def dest!: arg_cong [of _ _ set_mset])
  let ?q1 = "?q\<lparr>m_timers := h, m_callingExpiredTimers := True\<rparr>"
  define q4 where "q4 = fold (run_if_active cbs) xs ?q1"
  define q5 where "q5 = q4\<lparr>m_callingExpiredTimers := False, m_highestTask := None, m_lowestTask := None\<rparr>"
  have le1: "i \<le> timersCreated ?q1" using assms(2) by (simp add: oneshot_def readTimerfd_def)
  have nonrep: "\<not> m_repeat t" if "t \<in> set xs \<union> set h" "m_id t = i" for t
    using that sub assms(2) by (auto simp: oneshot_def)
  have c1: "count_list (ran ?q1) i = count_list (ran q) i" "m_timerIdSet ?q1 = m_timerIdSet q"
    by (simp_all add: readTimerfd_def)
  have dist: "distinct (map m_id xs)" using x(2) by (simp add: tq_inv_def)
  have count4: "count_list (ran q4) i \<le> 1"
    using fold_run_once [OF dist, of cbs ?q1 i] fold_run_inactive [OF le1, of cbs xs] assms(2) c1
    unfolding q4_def oneshot_def by (cases "i \<in> m_timerIdSet q") simp_all
  have zero: "count_list (ran q4) i = 0" if "i \<in> m_timerIdSet (reset_loop ?now xs q5)"
  proof -
    have "i \<notin> m_id ` set xs" using reset_loop_erases [of xs i ?now q5] nonrep that by blast
    moreover have "i \<in> m_timerIdSet q"
      using that reset_loop_active [of ?now xs q5] fold_run_active [OF le1, of cbs xs] c1(2)
      by (auto simp: q5_def q4_def)
    ultimately show ?thesis
      using fold_run_other [of i xs cbs ?q1] assms(2) c1 by (simp add: q4_def oneshot_def)
  qed
  have tim: "\<not> m_repeat t" if t: "t \<in> set (m_timers (reset_loop ?now xs q5))" "m_id t = i" for t
  proof -
    have "t \<in> set (m_timers q4) \<or> (\<exists>u \<in> set xs. m_id t = m_id u \<and> m_repeat u)"
      using t(1) reset_loop_timers [of ?now xs q5] by (auto simp: q5_def)
    then show ?thesis
    proof
      assume "t \<in> set (m_timers q4)"
      then have "t \<in> set h" using fold_run_timers [of t cbs xs ?q1] le1 t(2) by (simp add: q4_def)
      then show ?thesis using nonrep t(2) by blast
    next
      assume "\<exists>u \<in> set xs. m_id t = m_id u \<and> m_repeat u"
      then show ?thesis using nonrep t(2) by auto
    qed
  qed
  have "i \<le> timersCreated q5"
    using fold_run_created [of ?q1 cbs xs] le1 by (simp add: q5_def q4_def)
  then show ?thesis
    using zero tim count4
    by (simp add: handleRead_timer_def Let_def process_expired_unfold(1) [OF inv x] oneshot_def
        flip: q4_def q5_def) (simp add: q5_def)
qed

lemma oneshot_run:
  "tq_inv q [] \<Longrightarrow> oneshot i q \<Longrightarrow> oneshot i (run_loop_ops cbs es q)"
  unfolding run_loop_ops_def
proof (induction es arbitrary: q)
  case (Cons e es)
  have "tq_inv (exec_loop_op cbs e q) []"
    using Cons.prems(1) by (cases e) (simp_all add: exec_op_inv handleRead_inv)
  moreover have "oneshot i (exec_loop_op cbs e q)"
  proof (cases e)
    case (Op f)
    then show ?thesis
      using Cons.prems(2) exec_op_active [of i q f] le_trans [OF _ exec_op_simps(2) [of q f], of i]
        fold_exec_op_timers [of _ "[f]" q]
      by (auto simp: oneshot_def)
  next
    case HandleRead
    then show ?thesis using oneshot_handleRead [OF Cons.prems] by simp
  qed
  ultimately show ?case using Cons.IH by simp
qed simp

text \<open>A handler whose callbacks leave the queue alone.\<close>

lemma fold_run_passive:
  "fold (run_if_active (\<lambda>_. [])) ts q =
     q\<lparr>ran := ran q @ map m_id (filter (\<lambda>t. m_id t \<in> m_timerIdSet q) ts)\<rparr>"
  by (induction ts arbitrary: q) (simp_all add: run_if_active_def run_timer_def)

lemma reset_loop_passive:
  "distinct (map m_id ts) \<Longrightarrow>
    mset (m_timers (reset_loop now ts q)) = mset (m_timers q) +
      image_mset (\<lambda>t. t\<lparr>m_when := now + 1000 * m_interval t\<rparr>)
        (filter_mset (\<lambda>t. m_id t \<in> m_timerIdSet q \<and> m_repeat t) (mset ts)) \<and>
    m_timerIdSet (reset_loop now ts q) = m_timerIdSet q - m_id ` {t \<in> set ts. \<not> m_repeat t}"
proof (induction ts arbitrary: q)
  case (Cons t ts)
  let ?q = "if m_id t \<in> m_timerIdSet q then
      (if m_repeat t then snd (insert_timer (restart (clock q) now t) q)
       else q\<lparr>m_timerIdSet := m_timerIdSet q - {m_id t}\<rparr>) else q"
  have same: "filter_mset (\<lambda>u. m_id u \<in> m_timerIdSet ?q \<and> m_repeat u) (mset ts) =
      filter_mset (\<lambda>u. m_id u \<in> m_timerIdSet q \<and> m_repeat u) (mset ts)"
    using Cons.prems by (intro filter_mset_cong refl) (auto simp: image_iff)
  have IH: "mset (m_timers (reset_loop now ts ?q)) = mset (m_timers ?q) +
      image_mset (\<lambda>t. t\<lparr>m_when := now + 1000 * m_interval t\<rparr>)
        (filter_mset (\<lambda>u. m_id u \<in> m_timerIdSet q \<and> m_repeat u) (mset ts))"
    "m_timerIdSet (reset_loop now ts ?q) = m_timerIdSet ?q - m_id ` {t \<in> set ts. \<not> m_repeat t}"
    using Cons.IH [of ?q] Cons.prems unfolding same by simp_all
  show ?case
    using IH by (cases "m_id t \<in> m_timerIdSet q"; cases "m_repeat t")
      (auto simp: mset_pq_push restart_def)
qed simp

section \<open>Properties\<close>





text \<open>
  C17. A timer added with an interval of 0 runs at most once, in every later sequence of operations
  and handler runs and for all callbacks.
\<close>

theorem oneshot_runs_once:
  assumes "tq_inv q []" and "interval \<le> 0" and "addTimer tp interval h l q = Inr (i, q')"
  shows "count_list (ran (run_loop_ops cbs es q')) i \<le> 1"
proof -
  have inv: "tq_inv q' []"
    using exec_op_inv [OF assms(1), of "Add tp interval h l"] assms(3) by simp
  have i: "i = Suc (timersCreated q)" using assms(3) by (auto simp: addTimer_def Timer_new_def)
  have "i \<notin> set (ran q)" "\<And>t. t \<in> set (m_timers q) \<Longrightarrow> m_id t \<noteq> i"
    using assms(1) i by (auto simp: tq_inv_def)
  then have "oneshot i q'"
    using assms(2,3) i by (auto simp: oneshot_def addTimer_def Timer_new_def)
  then show ?thesis using oneshot_run [OF inv] by (simp add: oneshot_def)
qed

theorem oneshot_runs_once_witness:
  "count_list (ran (run_loop_ops (\<lambda>_. []) [Op (Advance 30), HandleRead, Op (Advance 30), HandleRead]
     (exec_op (Add 10 0 False False) (TimerQueue_new 0 0)))) 1 \<le> 1"
proof -
  have "addTimer 10 0 False False (TimerQueue_new 0 0) =
    Inr (1, exec_op (Add 10 0 False False) (TimerQueue_new 0 0))"
    by (simp add: addTimer_def Timer_new_def TimerQueue_new_def)
  from oneshot_runs_once [OF tq_inv_new _ this] show ?thesis by simp
qed

text \<open>
  C15. No timer is forgotten: after any sequence of operations on a new queue, if it holds a timer
  then the descriptor is armed, and will become readable no later than the due time of the earliest
  timer, or 100 microseconds from now if that has passed.
\<close>

theorem timerfd_always_armed:
  assumes "q = run_loop_ops cbs es (TimerQueue_new n t0)" and "m_timers q \<noteq> []"
  shows "\<exists>a. armed q = Some a \<and> a \<le> max (m_when (hd (m_timers q))) (clock q + 100000) \<and>
    (\<forall>t \<in> set (m_timers q). m_when (hd (m_timers q)) \<le> m_when t)"
proof -
  have "tq_inv q []" using assms(1) run_loop_ops_inv [OF tq_inv_new] by simp
  then have "pq_inv (m_timers q)" by (simp add: tq_inv_def)
  moreover have "armed_ok q"
    using assms(1) armed_ok_run [OF tq_inv_new] by (simp add: armed_ok_def TimerQueue_new_def)
  ultimately show ?thesis
    using assms(2) timers.top_law [of "m_timers q"] by (simp add: armed_ok_def pq_top_def)
qed

theorem timerfd_always_armed_witness:
  "\<exists>a. armed (run_loop_ops (\<lambda>_. []) [Op (Add 500000 0 False False)] (TimerQueue_new 0 0)) = Some a \<and>
     a \<le> 500000"
proof -
  have "m_timers (run_loop_ops (\<lambda>_. []) [Op (Add 500000 0 False False)] (TimerQueue_new 0 0)) =
    [\<lparr>m_when = 500000, m_interval = 0, m_repeat = False, m_highest = False, m_lowest = False, m_id = 1\<rparr>]"
    "clock (run_loop_ops (\<lambda>_. []) [Op (Add 500000 0 False False)] (TimerQueue_new 0 0)) = 0"
    by (simp_all add: run_loop_ops_def TimerQueue_new_def addTimer_def Timer_new_def pq_push_def)
  with timerfd_always_armed [OF refl, of "\<lambda>_. []" "[Op (Add 500000 0 False False)]" 0 0]
  show ?thesis by simp
qed

end
