(* ===== verification/Timing_Wheel.thy ===== *)
theory Timing_Wheel
  imports Complex_Main Prelude
begin

text \<open>
  \<^verbatim>\<open>netpoll/net/inner/timing_wheel.{h,cc}\<close>: the hierarchical wheel with which a server closes idle
  connections.

  An entry is either the object of a user, identified by a number, or the \<^verbatim>\<open>CallbackEntry\<close> that
  \<^verbatim>\<open>insertEntryInLoop\<close> wraps around an entry that has to move down one level later; its fields are
  the values the lambda captures. Entries are held by shared pointers, so an object of a user fires
  (is destroyed) when its last reference in the wheel is dropped; \<open>fired\<close> records when. A bucket is
  a list without repetitions of user objects. The tick interval is a rational number, so the
  rounding of \<^verbatim>\<open>float\<close> is not modelled. Indexing a queue out of range and the remainder by 0 are
  faults.
\<close>

section \<open>Entries and the wheel\<close>

datatype entry = User nat | Relocate (r_delay: nat) (r_level: nat) (r_t: nat) (r_entry: entry)

primrec user_of :: "entry \<Rightarrow> nat" where
  "user_of (User k) = k"
| "user_of (Relocate d i t e) = user_of e"

record TimingWheel =
  m_taskQueues :: "entry list list list"
  m_ticksCounter :: nat
  m_ticksInterval :: rat
  m_QueueNum :: nat
  m_bucketsNumPerQueue :: nat
  fired :: "(nat \<times> nat) list"

text \<open>\<^verbatim>\<open>static_cast<size_t>\<close> of a non-negative number.\<close>

definition to_size :: "rat \<Rightarrow> nat" where
  "to_size r = nat \<lfloor>r\<rfloor>"

text \<open>The number of queues: the smallest \<open>n\<close> such that the buckets to the power of \<open>n\<close> cover all ticks.\<close>

function queue_num_loop :: "nat \<Rightarrow> nat \<Rightarrow> nat \<Rightarrow> nat \<Rightarrow> nat" where
  "queue_num_loop B maxTickNum ticksNum n =
     (if 1 < B \<and> 0 < ticksNum \<and> ticksNum < maxTickNum
      then queue_num_loop B maxTickNum (ticksNum * B) (Suc n) else n)"
  by pat_completeness auto
termination
  by (relation "measure (\<lambda>(B, m, t, n). m - t)") (auto intro!: diff_less_mono2)

declare queue_num_loop.simps [simp del]

definition TimingWheel_new :: "nat \<Rightarrow> rat \<Rightarrow> nat \<Rightarrow> TimingWheel result" where
  "TimingWheel_new maxTimeout ticksInterval B =
     assert_that (maxTimeout > 1) (
     assert_that (ticksInterval > 0) (
     assert_that (B > 1) (
     let maxTickNum = to_size (of_nat maxTimeout / ticksInterval);
         n = queue_num_loop B maxTickNum B 1
     in Inr \<lparr>m_taskQueues = replicate n (replicate B []), m_ticksCounter = 0,
             m_ticksInterval = ticksInterval, m_QueueNum = n, m_bucketsNumPerQueue = B, fired = []\<rparr>)))"

definition bucket_insert :: "entry \<Rightarrow> entry list \<Rightarrow> entry list" where
  "bucket_insert e b =
     (case e of User k \<Rightarrow> if e \<in> set b then b else b @ [e] | _ \<Rightarrow> b @ [e])"

definition insert_at :: "nat \<Rightarrow> nat \<Rightarrow> entry \<Rightarrow> TimingWheel \<Rightarrow> TimingWheel result" where
  "insert_at i j e w =
     (if i < length (m_taskQueues w) \<and> j < length (m_taskQueues w ! i)
      then Inr (w\<lparr>m_taskQueues := (m_taskQueues w)[i := (m_taskQueues w ! i)
             [j := bucket_insert e (m_taskQueues w ! i ! j)]]\<rparr>)
      else Inl OutOfBounds)"

section \<open>Inserting\<close>

fun insert_loop :: "nat \<Rightarrow> nat \<Rightarrow> nat \<Rightarrow> nat \<Rightarrow> entry \<Rightarrow> TimingWheel \<Rightarrow> TimingWheel result" where
  "insert_loop 0 i delay t e w = Inr w"
| "insert_loop (Suc n) i delay t e w =
     (let B = m_bucketsNumPerQueue w
      in if delay \<le> B then insert_at i (size_sub delay 1) e w
         else if i < m_QueueNum w - 1
           then insert_loop n (Suc i) ((delay + t mod B - 1) div B) (t div B) (Relocate delay i t e) w
           else and_then (insert_at i (B - 1) e w)
                  (insert_loop n (Suc i) ((delay + t mod B - 1) div B) (t div B) e))"

definition ticks_of :: "nat \<Rightarrow> TimingWheel \<Rightarrow> nat result" where
  "ticks_of delay w =
     (let m = to_size (m_ticksInterval w)
      in if m = 0 then Inl DivisionByZero
         else Inr (to_size (of_nat delay / m_ticksInterval w) + (if delay mod m \<noteq> 0 then 1 else 0)))"

definition insertEntryInLoop :: "nat \<Rightarrow> entry \<Rightarrow> TimingWheel \<Rightarrow> TimingWheel result" where
  "insertEntryInLoop delay e w =
     and_then (ticks_of delay w) (\<lambda>d. insert_loop (m_QueueNum w) 0 d (m_ticksCounter w) e w)"

text \<open>\<open>None\<close> is the null pointer.\<close>

definition insertEntry :: "nat \<Rightarrow> entry option \<Rightarrow> TimingWheel \<Rightarrow> TimingWheel result" where
  "insertEntry delay e w =
     (if delay = 0 then Inr w
      else case e of None \<Rightarrow> Inr w | Some e' \<Rightarrow> insertEntryInLoop delay e' w)"

section \<open>Turning\<close>

definition held :: "nat \<Rightarrow> entry list \<Rightarrow> bool" where
  "held k es \<longleftrightarrow> k \<in> user_of ` set es"

definition wheel_entries :: "TimingWheel \<Rightarrow> entry list" where
  "wheel_entries w = concat (concat (m_taskQueues w))"

text \<open>Dropping a reference; \<open>rest\<close> are the entries that are still to be dropped with it.\<close>

fun drop_entry :: "entry \<Rightarrow> entry list \<Rightarrow> TimingWheel \<Rightarrow> TimingWheel result" where
  "drop_entry (User k) rest w =
     (if held k (wheel_entries w) \<or> held k rest then Inr w
      else Inr (w\<lparr>fired := fired w @ [(m_ticksCounter w, k)]\<rparr>))"
| "drop_entry (Relocate delay i t e) rest w =
     (if delay > 0 then
        insert_at i ((delay + t mod m_bucketsNumPerQueue w - 0) mod m_bucketsNumPerQueue w) e w
      else drop_entry e rest w)"

fun drop_bucket :: "entry list \<Rightarrow> TimingWheel \<Rightarrow> TimingWheel result" where
  "drop_bucket [] w = Inr w"
| "drop_bucket (e # es) w = and_then (drop_entry e es w) (drop_bucket es)"

definition rotate_queue :: "nat \<Rightarrow> TimingWheel \<Rightarrow> TimingWheel result" where
  "rotate_queue i w =
     (if i < length (m_taskQueues w) \<and> m_taskQueues w ! i \<noteq> [] then
        (let q = m_taskQueues w ! i; tmp = hd q
         in drop_bucket tmp (w\<lparr>m_taskQueues := (m_taskQueues w)[i := tl q @ [[]]]\<rparr>))
      else Inl OutOfBounds)"

fun tick_loop :: "nat \<Rightarrow> nat \<Rightarrow> nat \<Rightarrow> nat \<Rightarrow> TimingWheel \<Rightarrow> TimingWheel result" where
  "tick_loop 0 i t p w = Inr w"
| "tick_loop (Suc n) i t p w =
     and_then (if t mod p = 0 then rotate_queue i w else Inr w)
       (tick_loop n (Suc i) t (p * m_bucketsNumPerQueue w))"

definition tick :: "TimingWheel \<Rightarrow> TimingWheel result" where
  "tick w =
     (let w' = w\<lparr>m_ticksCounter := Suc (m_ticksCounter w)\<rparr>
      in tick_loop (m_QueueNum w') 0 (m_ticksCounter w') 1 w')"

primrec ticks :: "nat \<Rightarrow> TimingWheel \<Rightarrow> TimingWheel result" where
  "ticks 0 w = Inr w"
| "ticks (Suc n) w = and_then (tick w) (ticks n)"

text \<open>
  Destruction: the queues are cleared from the last to the first. Relocations triggered by it put
  entries into queues that are cleared afterwards.
\<close>

fun clear_loop :: "nat \<Rightarrow> TimingWheel \<Rightarrow> TimingWheel result" where
  "clear_loop 0 w = Inr w"
| "clear_loop (Suc i) w =
     and_then (drop_bucket (concat (m_taskQueues w ! i)) (w\<lparr>m_taskQueues := (m_taskQueues w)[i := []]\<rparr>))
       (clear_loop i)"

definition TimingWheel_destroy :: "TimingWheel \<Rightarrow> TimingWheel result" where
  "TimingWheel_destroy w = clear_loop (length (m_taskQueues w)) w"

section \<open>Well-formed wheels\<close>

text \<open>Every relocation goes to a queue below the one that holds it.\<close>

primrec entry_ok :: "nat \<Rightarrow> entry \<Rightarrow> bool" where
  "entry_ok n (User k) \<longleftrightarrow> True"
| "entry_ok n (Relocate d i t e) \<longleftrightarrow> i < n \<and> 0 < d \<and> entry_ok i e"

definition wheel_ok :: "TimingWheel \<Rightarrow> bool" where
  "wheel_ok w \<longleftrightarrow>
     1 < m_bucketsNumPerQueue w \<and> 0 < m_QueueNum w \<and> length (m_taskQueues w) = m_QueueNum w \<and>
     (\<forall>i < m_QueueNum w. length (m_taskQueues w ! i) = m_bucketsNumPerQueue w \<and>
        (\<forall>b \<in> set (m_taskQueues w ! i). \<forall>e \<in> set b. entry_ok i e))"

definition same_shape :: "TimingWheel \<Rightarrow> TimingWheel \<Rightarrow> bool" where
  "same_shape w w' \<longleftrightarrow>
     m_ticksCounter w' = m_ticksCounter w \<and> m_ticksInterval w' = m_ticksInterval w \<and>
     m_QueueNum w' = m_QueueNum w \<and> m_bucketsNumPerQueue w' = m_bucketsNumPerQueue w"

lemma same_shape_refl [simp]: "same_shape w w"
  by (simp add: same_shape_def)

lemma same_shape_trans: "same_shape a b \<Longrightarrow> same_shape b c \<Longrightarrow> same_shape a c"
  by (simp add: same_shape_def)

lemma set_bucket_insert [simp]: "set (bucket_insert e b) = insert e (set b)"
  by (auto simp: bucket_insert_def split: entry.splits)

lemma entry_ok_mono: "entry_ok i e \<Longrightarrow> i \<le> j \<Longrightarrow> entry_ok j e"
  by (cases e) auto

lemma wheel_ok_update:
  assumes "wheel_ok w" and "i < m_QueueNum w" and "length q = m_bucketsNumPerQueue w"
    and "\<And>b e. b \<in> set q \<Longrightarrow> e \<in> set b \<Longrightarrow> entry_ok i e"
  shows "wheel_ok (w\<lparr>m_taskQueues := (m_taskQueues w)[i := q]\<rparr>)"
proof -
  have "length ((m_taskQueues w)[i := q] ! j) = m_bucketsNumPerQueue w \<and>
      (\<forall>b \<in> set ((m_taskQueues w)[i := q] ! j). \<forall>e \<in> set b. entry_ok j e)"
    if "j < m_QueueNum w" for j
    using that assms by (cases "j = i") (auto simp: wheel_ok_def)
  then show ?thesis using assms(1) by (simp add: wheel_ok_def)
qed

lemma wheel_okD:
  assumes "wheel_ok w" and "i < m_QueueNum w"
  shows "i < length (m_taskQueues w)" and "length (m_taskQueues w ! i) = m_bucketsNumPerQueue w"
    and "m_taskQueues w ! i \<noteq> []"
    and "b \<in> set (m_taskQueues w ! i) \<Longrightarrow> e \<in> set b \<Longrightarrow> entry_ok i e"
  using assms unfolding wheel_ok_def by auto

lemma insert_at_ok:
  assumes "wheel_ok w" and "i < m_QueueNum w" and "j < m_bucketsNumPerQueue w" and "entry_ok i e"
  shows "\<exists>w'. insert_at i j e w = Inr w' \<and> wheel_ok w' \<and> same_shape w w' \<and> fired w' = fired w"
proof -
  let ?q = "m_taskQueues w ! i"
  note ok = wheel_okD [OF assms(1,2)]
  have "entry_ok i f" if "b \<in> set (?q[j := bucket_insert e (?q ! j)])" "f \<in> set b" for b f
  proof -
    from that(1) have "b \<in> set ?q \<or> b = bucket_insert e (?q ! j)"
      using set_update_subset_insert by fastforce
    then have "(\<exists>c \<in> set ?q. f \<in> set c) \<or> f = e" using that(2) ok(2) assms(3) by auto
    then show ?thesis using ok(4) assms(4) by auto
  qed
  then have "wheel_ok (w\<lparr>m_taskQueues := (m_taskQueues w)[i := ?q[j := bucket_insert e (?q ! j)]]\<rparr>)"
    using wheel_ok_update [OF assms(1,2), of "?q[j := bucket_insert e (?q ! j)]"] ok(2) by simp
  then show ?thesis
    using ok assms by (simp add: insert_at_def same_shape_def)
qed

lemma drop_entry_ok:
  assumes "wheel_ok w" and "entry_ok j e" and "j \<le> m_QueueNum w"
  shows "\<exists>w'. drop_entry e rest w = Inr w' \<and> wheel_ok w' \<and> same_shape w w'"
proof (cases e)
  case (User k)
  then show ?thesis using assms by (auto simp: wheel_ok_def same_shape_def)
next
  case (Relocate d i t f)
  then have "i < m_QueueNum w" "0 < d" "entry_ok i f" using assms by auto
  moreover have "(d + t mod m_bucketsNumPerQueue w) mod m_bucketsNumPerQueue w < m_bucketsNumPerQueue w"
    using assms(1) by (simp add: wheel_ok_def)
  ultimately show ?thesis using insert_at_ok [OF assms(1)] Relocate by fastforce
qed

lemma drop_bucket_ok:
  "\<lbrakk>wheel_ok w; \<forall>e \<in> set es. entry_ok j e; j \<le> m_QueueNum w\<rbrakk> \<Longrightarrow>
     \<exists>w'. drop_bucket es w = Inr w' \<and> wheel_ok w' \<and> same_shape w w'"
proof (induction es arbitrary: w)
  case (Cons e es)
  obtain w1 where w1: "drop_entry e es w = Inr w1" "wheel_ok w1" "same_shape w w1"
    using drop_entry_ok [OF Cons.prems(1), of j e] Cons.prems by auto
  obtain w2 where w2: "drop_bucket es w1 = Inr w2" "wheel_ok w2" "same_shape w1 w2"
    using Cons.IH [OF w1(2)] Cons.prems w1(3) by (auto simp: same_shape_def)
  then show ?case using w1 same_shape_trans [OF w1(3) w2(3)] by simp
qed simp

text \<open>The wheel after its queue \<open>i\<close> has been advanced, before the old front is dropped.\<close>

definition advance :: "nat \<Rightarrow> TimingWheel \<Rightarrow> TimingWheel" where
  "advance i w = w\<lparr>m_taskQueues := (m_taskQueues w)[i := tl (m_taskQueues w ! i) @ [[]]]\<rparr>"

lemma advance_ok:
  assumes "wheel_ok w" and "i < m_QueueNum w"
  shows "wheel_ok (advance i w) \<and> same_shape w (advance i w) \<and> fired (advance i w) = fired w"
proof -
  note ok = wheel_okD [OF assms]
  have "wheel_ok (advance i w)"
    unfolding advance_def
  proof (rule wheel_ok_update [OF assms])
    show "length (tl (m_taskQueues w ! i) @ [[]]) = m_bucketsNumPerQueue w"
      using ok(2,3) by (cases "m_taskQueues w ! i") auto
    show "entry_ok i e" if "b \<in> set (tl (m_taskQueues w ! i) @ [[]])" "e \<in> set b" for b e
      using that ok(4) by (cases "m_taskQueues w ! i") auto
  qed
  then show ?thesis by (simp add: advance_def same_shape_def)
qed

lemma rotate_queue_advance:
  assumes "wheel_ok w" and "i < m_QueueNum w"
  shows "rotate_queue i w = drop_bucket (hd (m_taskQueues w ! i)) (advance i w)"
    and "\<forall>e \<in> set (hd (m_taskQueues w ! i)). entry_ok i e"
proof -
  note ok = wheel_okD [OF assms]
  show "rotate_queue i w = drop_bucket (hd (m_taskQueues w ! i)) (advance i w)"
    using ok by (simp add: rotate_queue_def advance_def Let_def)
  show "\<forall>e \<in> set (hd (m_taskQueues w ! i)). entry_ok i e"
    using ok(4) hd_in_set [OF ok(3)] by blast
qed

lemma rotate_queue_ok:
  assumes "wheel_ok w" and "i < m_QueueNum w"
  shows "\<exists>w'. rotate_queue i w = Inr w' \<and> wheel_ok w' \<and> same_shape w w'"
proof -
  note a = advance_ok [OF assms]
  have "i \<le> m_QueueNum (advance i w)" using a assms(2) by (simp add: same_shape_def)
  with drop_bucket_ok [of "advance i w" "hd (m_taskQueues w ! i)" i] a rotate_queue_advance [OF assms]
  obtain w' where "rotate_queue i w = Inr w'" "wheel_ok w'" "same_shape (advance i w) w'" by auto
  then show ?thesis using same_shape_trans [of w "advance i w" w'] a by simp
qed

lemma tick_loop_ok:
  "wheel_ok w \<Longrightarrow> i + n = m_QueueNum w \<Longrightarrow>
     \<exists>w'. tick_loop n i t p w = Inr w' \<and> wheel_ok w' \<and> same_shape w w'"
proof (induction n arbitrary: i p w)
  case (Suc n)
  obtain w1 where w1: "(if t mod p = 0 then rotate_queue i w else Inr w) = Inr w1" "wheel_ok w1"
    "same_shape w w1"
    using rotate_queue_ok [OF Suc.prems(1), of i] Suc.prems by (cases "t mod p = 0") auto
  obtain w2 where w2: "tick_loop n (Suc i) t (p * m_bucketsNumPerQueue w) w1 = Inr w2" "wheel_ok w2"
    "same_shape w1 w2"
    using Suc.IH [OF w1(2), of "Suc i" "p * m_bucketsNumPerQueue w"] w1(3) Suc.prems(2)
    by (auto simp: same_shape_def)
  then show ?case using w1 same_shape_trans [OF w1(3) w2(3)] by simp
qed simp

lemma tick_ok:
  assumes "wheel_ok w"
  shows "\<exists>w'. tick w = Inr w' \<and> wheel_ok w' \<and> m_ticksCounter w' = Suc (m_ticksCounter w) \<and>
    m_QueueNum w' = m_QueueNum w \<and> m_bucketsNumPerQueue w' = m_bucketsNumPerQueue w \<and>
    m_ticksInterval w' = m_ticksInterval w"
proof -
  let ?w = "w\<lparr>m_ticksCounter := Suc (m_ticksCounter w)\<rparr>"
  have "wheel_ok ?w" using assms by (simp add: wheel_ok_def)
  from tick_loop_ok [OF this, of 0 "m_QueueNum ?w" "m_ticksCounter ?w" 1] show ?thesis
    by (auto simp: tick_def same_shape_def)
qed

lemma insert_loop_ok:
  "\<lbrakk>wheel_ok w; i + n = m_QueueNum w; 1 \<le> d; entry_ok i e\<rbrakk> \<Longrightarrow>
     \<exists>w'. insert_loop n i d t e w = Inr w' \<and> wheel_ok w' \<and> same_shape w w' \<and> fired w' = fired w"
proof (induction n arbitrary: i d t e w)
  case (Suc n)
  let ?B = "m_bucketsNumPerQueue w"
  have B: "1 < ?B" using Suc.prems(1) by (simp add: wheel_ok_def)
  show ?case
  proof (cases "d \<le> ?B")
    case True
    then show ?thesis
      using insert_at_ok [OF Suc.prems(1), of i "d - 1" e] Suc.prems B by (simp add: Let_def)
  next
    case False
    have d': "1 \<le> (d + t mod ?B - 1) div ?B"
      using False B by (simp add: div_greater_zero_iff Suc_le_eq)
    show ?thesis
    proof (cases "i < m_QueueNum w - 1")
      case True
      then show ?thesis
        using Suc.IH [of w "Suc i" "(d + t mod ?B - 1) div ?B" "Relocate d i t e"] Suc.prems d' False
        by (simp add: Let_def)
    next
      case last: False
      then have "n = 0" "i < m_QueueNum w" using Suc.prems(2) by auto
      then show ?thesis
        using insert_at_ok [OF Suc.prems(1), of i "?B - 1" e] Suc.prems B False last
        by (auto simp: Let_def)
    qed
  qed
qed simp

section \<open>Following one object through the wheel\<close>

definition hold_cnt :: "nat \<Rightarrow> entry list \<Rightarrow> nat" where
  "hold_cnt k es = length (filter (\<lambda>e. user_of e = k) es)"

definition queue_cnt :: "nat \<Rightarrow> entry list list \<Rightarrow> nat" where
  "queue_cnt k q = sum_list (map (hold_cnt k) q)"

definition wheel_cnt :: "nat \<Rightarrow> TimingWheel \<Rightarrow> nat" where
  "wheel_cnt k w = sum_list (map (queue_cnt k) (m_taskQueues w))"

definition fired_at :: "nat \<Rightarrow> TimingWheel \<Rightarrow> (nat \<times> nat) list" where
  "fired_at k w = filter (\<lambda>x. snd x = k) (fired w)"

lemma hold_cnt_simps [simp]:
  "hold_cnt k [] = 0" "hold_cnt k (e # es) = (if user_of e = k then Suc (hold_cnt k es) else hold_cnt k es)"
  "hold_cnt k (es @ fs) = hold_cnt k es + hold_cnt k fs"
  by (simp_all add: hold_cnt_def)

lemma hold_cnt_0: "hold_cnt k es = 0 \<longleftrightarrow> \<not> held k es"
  by (auto simp: hold_cnt_def held_def filter_empty_conv)

lemma sum_list_map_update:
  "i < length xs \<Longrightarrow> sum_list (map f (xs[i := y])) + f (xs ! i) = sum_list (map f xs) + (f y :: nat)"
proof (induction xs arbitrary: i)
  case (Cons x xs)
  then show ?case by (cases i) (auto simp: add.assoc)
qed simp

lemma sum_list_map_ge: "i < length xs \<Longrightarrow> f (xs ! i) \<le> sum_list (map f xs :: nat list)"
  by (induction xs arbitrary: i) (auto simp: less_Suc_eq_0_disj trans_le_add2)

lemma wheel_cnt_0: "wheel_cnt k w = 0 \<longleftrightarrow> \<not> held k (wheel_entries w)"
  by (auto simp: wheel_cnt_def queue_cnt_def hold_cnt_0 held_def wheel_entries_def)

lemma wheel_cnt_update:
  "i < length (m_taskQueues w) \<Longrightarrow>
     wheel_cnt k (w\<lparr>m_taskQueues := (m_taskQueues w)[i := q]\<rparr>) + queue_cnt k (m_taskQueues w ! i) =
     wheel_cnt k w + queue_cnt k q"
  using sum_list_map_update [of i "m_taskQueues w" "queue_cnt k" q] by (simp add: wheel_cnt_def)

text \<open>A change that does not concern the object \<open>k\<close>.\<close>

definition quiet :: "nat \<Rightarrow> TimingWheel \<Rightarrow> TimingWheel \<Rightarrow> bool" where
  "quiet k w w' \<longleftrightarrow>
     wheel_cnt k w' = wheel_cnt k w \<and> fired_at k w' = fired_at k w \<and>
     (\<forall>i j e. i < m_QueueNum w \<longrightarrow> j < m_bucketsNumPerQueue w \<longrightarrow> user_of e = k \<longrightarrow>
        e \<in> set (m_taskQueues w ! i ! j) \<longrightarrow> e \<in> set (m_taskQueues w' ! i ! j))"

lemma quiet_refl [simp]: "quiet k w w"
  by (simp add: quiet_def)

lemma quiet_trans: "quiet k a b \<Longrightarrow> same_shape a b \<Longrightarrow> quiet k b c \<Longrightarrow> quiet k a c"
  by (simp add: quiet_def same_shape_def)

lemma insert_at_cnt:
  assumes "insert_at i j e w = Inr w'"
  shows "wheel_cnt k w' + hold_cnt k (m_taskQueues w ! i ! j) =
    wheel_cnt k w + hold_cnt k (bucket_insert e (m_taskQueues w ! i ! j))"
proof -
  let ?q = "m_taskQueues w ! i"
  let ?b = "bucket_insert e (?q ! j)"
  have ij: "i < length (m_taskQueues w)" "j < length ?q"
    and w': "w' = w\<lparr>m_taskQueues := (m_taskQueues w)[i := ?q[j := ?b]]\<rparr>"
    using assms by (auto simp: insert_at_def split: if_splits)
  show ?thesis
    using wheel_cnt_update [OF ij(1), of k "?q[j := ?b]"] sum_list_map_update [OF ij(2), of "hold_cnt k" ?b]
    unfolding w' by (simp add: queue_cnt_def)
qed

lemma insert_at_member:
  assumes "insert_at i j e w = Inr w'"
  shows "e \<in> set (m_taskQueues w' ! i ! j)"
    and "f \<in> set (m_taskQueues w ! i' ! j') \<Longrightarrow> f \<in> set (m_taskQueues w' ! i' ! j')"
  using assms by (auto simp: insert_at_def nth_list_update split: if_splits)

lemma insert_at_quiet:
  assumes "insert_at i j e w = Inr w'" and "user_of e \<noteq> k"
  shows "quiet k w w'"
proof -
  have "hold_cnt k (bucket_insert e b) = hold_cnt k b" for b
    using assms(2) by (auto simp: bucket_insert_def split: entry.splits)
  moreover have "fired w' = fired w" using assms(1) by (auto simp: insert_at_def split: if_splits)
  ultimately show ?thesis
    using insert_at_cnt [OF assms(1), of k] insert_at_member(2) [OF assms(1)]
    by (simp add: quiet_def fired_at_def)
qed

lemma drop_entry_quiet:
  "drop_entry e rest w = Inr w' \<Longrightarrow> user_of e \<noteq> k \<Longrightarrow> quiet k w w'"
proof (induction e)
  case (User l)
  then show ?case
    by (auto simp: quiet_def fired_at_def wheel_cnt_def split: if_splits)
next
  case (Relocate d i t e)
  then show ?case using insert_at_quiet by (auto split: if_splits)
qed

lemma drop_bucket_quiet:
  "\<lbrakk>drop_bucket es w = Inr w'; \<not> held k es; wheel_ok w; \<forall>e \<in> set es. entry_ok j e; j \<le> m_QueueNum w\<rbrakk> \<Longrightarrow>
     quiet k w w'"
proof (induction es arbitrary: w)
  case (Cons e es)
  obtain w1 where w1: "drop_entry e es w = Inr w1" "wheel_ok w1" "same_shape w w1"
    using drop_entry_ok [OF Cons.prems(3), of j e] Cons.prems by auto
  have "quiet k w w1" using drop_entry_quiet [OF w1(1)] Cons.prems(2) by (simp add: held_def)
  moreover have "quiet k w1 w'"
    using Cons.IH [of w1] Cons.prems w1 by (auto simp: held_def same_shape_def)
  ultimately show ?case using quiet_trans w1(3) by blast
qed simp

text \<open>The only reference to \<open>k\<close> is the entry \<open>e\<close> in bucket \<open>j\<close> of queue \<open>i\<close>.\<close>

definition place :: "TimingWheel \<Rightarrow> nat \<Rightarrow> nat \<Rightarrow> nat \<Rightarrow> entry \<Rightarrow> bool" where
  "place w k i j e \<longleftrightarrow>
     wheel_cnt k w = 1 \<and> i < m_QueueNum w \<and> j < m_bucketsNumPerQueue w \<and>
     e \<in> set (m_taskQueues w ! i ! j) \<and> user_of e = k"

lemma place_quiet: "place w k i j e \<Longrightarrow> quiet k w w' \<Longrightarrow> same_shape w w' \<Longrightarrow> place w' k i j e"
  by (simp add: place_def quiet_def same_shape_def)

lemma insert_at_place:
  assumes "insert_at i j e w = Inr w'" and "wheel_cnt (user_of e) w = 0" and "wheel_ok w"
    and "i < m_QueueNum w" and "j < m_bucketsNumPerQueue w"
  shows "place w' (user_of e) i j e" and "fired w' = fired w"
proof -
  let ?b = "m_taskQueues w ! i ! j"
  have "?b \<in> set (m_taskQueues w ! i)" "m_taskQueues w ! i \<in> set (m_taskQueues w)"
    using wheel_okD(1,2) [OF assms(3,4)] assms(5) by simp_all
  then have "\<not> held (user_of e) ?b"
    using assms(2) unfolding wheel_cnt_0 by (auto simp: held_def wheel_entries_def)
  then have "hold_cnt (user_of e) ?b = 0" "e \<notin> set ?b"
    by (auto simp: hold_cnt_0 held_def)
  then have "hold_cnt (user_of e) (bucket_insert e ?b) = 1"
    by (cases e) (simp_all add: bucket_insert_def)
  with insert_at_cnt [OF assms(1), of "user_of e"] \<open>hold_cnt (user_of e) ?b = 0\<close> assms(2)
  have "wheel_cnt (user_of e) w' = 1" by simp
  moreover have "same_shape w w' \<and> fired w' = fired w"
    using assms(1) by (auto simp: insert_at_def same_shape_def split: if_splits)
  ultimately show "place w' (user_of e) i j e" "fired w' = fired w"
    using insert_at_member(1) [OF assms(1)] assms(4,5) by (simp_all add: place_def same_shape_def)
qed

text \<open>What dropping the last reference to \<open>k\<close> does: fire, or move down one level.\<close>

definition dropped :: "nat \<Rightarrow> entry \<Rightarrow> TimingWheel \<Rightarrow> TimingWheel \<Rightarrow> bool" where
  "dropped k e w w' \<longleftrightarrow>
     (case e of
        User _ \<Rightarrow> wheel_cnt k w' = 0 \<and> fired_at k w' = fired_at k w @ [(m_ticksCounter w, k)]
      | Relocate d i t f \<Rightarrow>
          place w' k i ((d + t mod m_bucketsNumPerQueue w) mod m_bucketsNumPerQueue w) f \<and>
          fired_at k w' = fired_at k w)"

lemma drop_entry_dropped:
  assumes "drop_entry e rest w = Inr w'" and "user_of e = k" and "wheel_cnt k w = 0" and "\<not> held k rest"
    and "wheel_ok w" and "entry_ok j e" and "j \<le> m_QueueNum w"
  shows "dropped k e w w'"
proof (cases e)
  case (User l)
  then have "w' = w\<lparr>fired := fired w @ [(m_ticksCounter w, k)]\<rparr>"
    using assms(1-4) unfolding wheel_cnt_0 by simp
  then show ?thesis
    using User assms(3) by (simp add: dropped_def wheel_cnt_def fired_at_def)
next
  case (Relocate d i t f)
  let ?r = "(d + t mod m_bucketsNumPerQueue w) mod m_bucketsNumPerQueue w"
  have "insert_at i ?r f w = Inr w'" "i < m_QueueNum w" "user_of f = k"
    using Relocate assms by auto
  moreover have "?r < m_bucketsNumPerQueue w" using assms(5) by (simp add: wheel_ok_def)
  ultimately show ?thesis
    using insert_at_place [of i ?r f w w'] assms(3,5) Relocate by (simp add: dropped_def fired_at_def)
qed

lemma dropped_quiet_before:
  "dropped k e b c \<Longrightarrow> quiet k a b \<Longrightarrow> same_shape a b \<Longrightarrow> dropped k e a c"
  by (auto simp: dropped_def quiet_def same_shape_def split: entry.splits)

lemma dropped_quiet_after:
  "dropped k e a b \<Longrightarrow> quiet k b c \<Longrightarrow> same_shape b c \<Longrightarrow> dropped k e a c"
  by (auto simp: dropped_def quiet_def same_shape_def place_def split: entry.splits)

lemma drop_bucket_dropped:
  "\<lbrakk>drop_bucket es w = Inr w'; e \<in> set es; user_of e = k; hold_cnt k es = 1; wheel_cnt k w = 0;
    wheel_ok w; \<forall>e \<in> set es. entry_ok j e; j \<le> m_QueueNum w\<rbrakk> \<Longrightarrow> dropped k e w w'"
proof (induction es arbitrary: w)
  case (Cons f es)
  obtain w1 where w1: "drop_entry f es w = Inr w1" "wheel_ok w1" "same_shape w w1"
    using drop_entry_ok [OF Cons.prems(6), of j f] Cons.prems by auto
  have rest: "drop_bucket es w1 = Inr w'" "j \<le> m_QueueNum w1"
    using Cons.prems w1 by (auto simp: same_shape_def)
  show ?case
  proof (cases "user_of f = k")
    case True
    then have no: "\<not> held k es" using Cons.prems(4) by (simp add: hold_cnt_0 [symmetric])
    then have "f = e" using Cons.prems(2,3) by (auto simp: held_def)
    then have "dropped k e w w1"
      using drop_entry_dropped [OF w1(1) True Cons.prems(5) no Cons.prems(6)] Cons.prems by auto
    moreover have "quiet k w1 w'"
      using drop_bucket_quiet [OF rest(1) no w1(2)] Cons.prems(7) rest(2) by auto
    moreover have "same_shape w1 w'"
      using drop_bucket_ok [OF w1(2) _ rest(2), of es] Cons.prems(7) rest(1) by auto
    ultimately show ?thesis by (rule dropped_quiet_after)
  next
    case False
    then have q: "quiet k w w1" by (rule drop_entry_quiet [OF w1(1)])
    have "dropped k e w1 w'"
      using Cons.IH [OF rest(1)] Cons.prems False w1 rest(2) q by (auto simp: quiet_def)
    then show ?thesis using dropped_quiet_before [OF _ q w1(3)] by blast
  qed
qed simp

text \<open>Advancing a queue that does not hold \<open>k\<close>, and one that does.\<close>

lemma queue_cnt_ge: "j < length q \<Longrightarrow> hold_cnt k (q ! j) \<le> queue_cnt k q"
  using sum_list_map_ge [of j q "hold_cnt k"] by (simp add: queue_cnt_def)

lemma sum_list_map_ge2:
  "\<lbrakk>i < length xs; l < length xs; i \<noteq> l\<rbrakk> \<Longrightarrow> f (xs ! i) + f (xs ! l) \<le> sum_list (map f xs :: nat list)"
proof (induction xs arbitrary: i l)
  case (Cons x xs)
  then show ?case
    by (cases i; cases l) (use Cons sum_list_map_ge [of _ xs f] in \<open>fastforce+\<close>)
qed simp

lemma place_queue_cnt:
  assumes "wheel_ok w" and "place w k i j e"
  shows "queue_cnt k (m_taskQueues w ! i) = 1"
    and "hold_cnt k (m_taskQueues w ! i ! j) = 1"
    and "l < m_QueueNum w \<Longrightarrow> l \<noteq> i \<Longrightarrow> queue_cnt k (m_taskQueues w ! l) = 0"
    and "l < m_bucketsNumPerQueue w \<Longrightarrow> l \<noteq> j \<Longrightarrow> hold_cnt k (m_taskQueues w ! i ! l) = 0"
proof -
  have i: "i < m_QueueNum w" and j: "j < m_bucketsNumPerQueue w" using assms(2) by (simp_all add: place_def)
  note ok = wheel_okD [OF assms(1) i]
  have len: "length (m_taskQueues w) = m_QueueNum w" using assms(1) by (simp add: wheel_ok_def)
  have "held k (m_taskQueues w ! i ! j)" using assms(2) by (auto simp: held_def place_def)
  then have h: "1 \<le> hold_cnt k (m_taskQueues w ! i ! j)"
    using hold_cnt_0 [of k "m_taskQueues w ! i ! j"] by simp
  moreover have q: "hold_cnt k (m_taskQueues w ! i ! j) \<le> queue_cnt k (m_taskQueues w ! i)"
    using queue_cnt_ge j ok(2) by simp
  moreover have "queue_cnt k (m_taskQueues w ! i) \<le> 1"
    using sum_list_map_ge [OF ok(1), of "queue_cnt k"] assms(2) by (simp add: place_def wheel_cnt_def)
  ultimately show one: "queue_cnt k (m_taskQueues w ! i) = 1" "hold_cnt k (m_taskQueues w ! i ! j) = 1"
    by simp_all
  show "queue_cnt k (m_taskQueues w ! l) = 0" if "l < m_QueueNum w" "l \<noteq> i"
    using sum_list_map_ge2 [of i "m_taskQueues w" l "queue_cnt k"] that i one(1) assms(2) len
    by (simp add: place_def wheel_cnt_def)
  show "hold_cnt k (m_taskQueues w ! i ! l) = 0" if "l < m_bucketsNumPerQueue w" "l \<noteq> j"
    using sum_list_map_ge2 [of j "m_taskQueues w ! i" l "hold_cnt k"] that j one ok(2)
    by (simp add: queue_cnt_def)
qed

lemma advance_cnt:
  assumes "wheel_ok w" and "i < m_QueueNum w"
  shows "wheel_cnt k (advance i w) + hold_cnt k (hd (m_taskQueues w ! i)) = wheel_cnt k w"
proof -
  note ok = wheel_okD [OF assms]
  obtain b bs where q: "m_taskQueues w ! i = b # bs" using ok(3) by (cases "m_taskQueues w ! i") auto
  show ?thesis
    using wheel_cnt_update [OF ok(1), of k "tl (m_taskQueues w ! i) @ [[]]"]
    by (simp add: advance_def q queue_cnt_def)
qed

lemma advance_nth:
  assumes "wheel_ok w" and "i < m_QueueNum w" and "j < m_bucketsNumPerQueue w"
  shows "l \<noteq> i \<Longrightarrow> m_taskQueues (advance i w) ! l ! j = m_taskQueues w ! l ! j"
    and "0 < j \<Longrightarrow> m_taskQueues (advance i w) ! i ! (j - 1) = m_taskQueues w ! i ! j"
proof -
  note ok = wheel_okD [OF assms(1,2)]
  show "l \<noteq> i \<Longrightarrow> m_taskQueues (advance i w) ! l ! j = m_taskQueues w ! l ! j"
    by (simp add: advance_def)
  assume "0 < j"
  then have "j - 1 < length (tl (m_taskQueues w ! i))" using ok(2) assms(3) by simp
  with \<open>0 < j\<close> show "m_taskQueues (advance i w) ! i ! (j - 1) = m_taskQueues w ! i ! j"
    using ok(1) by (simp add: advance_def nth_append nth_tl)
qed

lemma rotate_place_other:
  assumes "wheel_ok w" and "place w k i j e" and "l < m_QueueNum w" and "l \<noteq> i"
    and "rotate_queue l w = Inr w'"
  shows "place w' k i j e \<and> fired_at k w' = fired_at k w"
proof -
  note a = advance_ok [OF assms(1,3)] and r = rotate_queue_advance [OF assms(1,3)]
  note ok = wheel_okD [OF assms(1,3)]
  have z: "hold_cnt k (hd (m_taskQueues w ! l)) = 0"
    using queue_cnt_ge [of 0 "m_taskQueues w ! l" k] place_queue_cnt(3) [OF assms(1,2,3,4)] ok(3)
    by (simp add: hd_conv_nth)
  have no: "\<not> held k (hd (m_taskQueues w ! l))" using z hold_cnt_0 by blast
  have c: "wheel_cnt k (advance l w) = wheel_cnt k w"
    using advance_cnt [OF assms(1,3), of k] z by simp
  have "j < m_bucketsNumPerQueue w" using assms(2) by (simp add: place_def)
  from advance_nth(1) [OF assms(1,3) this] assms(2,4) a c
  have p: "place (advance l w) k i j e" by (auto simp: place_def same_shape_def)
  have "l \<le> m_QueueNum (advance l w)" using a assms(3) by (simp add: same_shape_def)
  moreover from this drop_bucket_ok [of "advance l w" "hd (m_taskQueues w ! l)" l] a r assms(5)
  have "same_shape (advance l w) w'" by auto
  moreover have "quiet k (advance l w) w'"
    using drop_bucket_quiet [of "hd (m_taskQueues w ! l)" "advance l w" w' k l] no a r assms(5) calculation(1)
    by simp
  ultimately show ?thesis using place_quiet [OF p] a by (simp add: quiet_def fired_at_def)
qed

lemma rotate_place_same:
  assumes "wheel_ok w" and "place w k i j e" and "rotate_queue i w = Inr w'"
  shows "if j = 0 then dropped k e w w' else place w' k i (j - 1) e \<and> fired_at k w' = fired_at k w"
proof -
  have i: "i < m_QueueNum w" and j: "j < m_bucketsNumPerQueue w" using assms(2) by (simp_all add: place_def)
  note a = advance_ok [OF assms(1) i] and r = rotate_queue_advance [OF assms(1) i]
  note ok = wheel_okD [OF assms(1) i] and cnt = place_queue_cnt [OF assms(1,2)]
  let ?b = "hd (m_taskQueues w ! i)"
  have b: "?b = m_taskQueues w ! i ! 0" using ok(3) by (simp add: hd_conv_nth)
  have le: "i \<le> m_QueueNum (advance i w)" using a i by (simp add: same_shape_def)
  have step: "drop_bucket ?b (advance i w) = Inr w'" using r(1) assms(3) by simp
  show ?thesis
  proof (cases "j = 0")
    case True
    then have "wheel_cnt k (advance i w) = 0" "e \<in> set ?b" "user_of e = k" "hold_cnt k ?b = 1"
      using advance_cnt [OF assms(1) i, of k] cnt(2) assms(2) b by (simp_all add: place_def)
    from drop_bucket_dropped [OF step this(2-4,1)] a r(2) le have "dropped k e (advance i w) w'" by auto
    moreover have "fired_at k (advance i w) = fired_at k w" using a by (simp add: fired_at_def)
    ultimately show ?thesis
      using True a by (auto simp: dropped_def same_shape_def split: entry.splits)
  next
    case False
    have z: "hold_cnt k ?b = 0" using cnt(4) [of 0] False j b by simp
    have no: "\<not> held k ?b" using z hold_cnt_0 by blast
    have c: "wheel_cnt k (advance i w) = wheel_cnt k w" using advance_cnt [OF assms(1) i, of k] z by simp
    have p: "place (advance i w) k i (j - 1) e"
      using advance_nth(2) [OF assms(1) i j] False assms(2) a c by (auto simp: place_def same_shape_def)
    have "quiet k (advance i w) w'" using drop_bucket_quiet [OF step no] a r(2) le by auto
    moreover have "same_shape (advance i w) w'" using drop_bucket_ok [of "advance i w" ?b i] a r(2) le step by auto
    ultimately show ?thesis using place_quiet [OF p] a False by (simp add: quiet_def fired_at_def)
  qed
qed

lemma rotate_gone:
  assumes "wheel_ok w" and "wheel_cnt k w = 0" and "l < m_QueueNum w" and "rotate_queue l w = Inr w'"
  shows "wheel_cnt k w' = 0 \<and> fired_at k w' = fired_at k w"
proof -
  note a = advance_ok [OF assms(1,3)] and r = rotate_queue_advance [OF assms(1,3)]
  have z: "hold_cnt k (hd (m_taskQueues w ! l)) = 0" "wheel_cnt k (advance l w) = 0"
    using advance_cnt [OF assms(1,3), of k] assms(2) by simp_all
  have no: "\<not> held k (hd (m_taskQueues w ! l))" using z(1) hold_cnt_0 by blast
  have "l \<le> m_QueueNum (advance l w)" using a assms(3) by (simp add: same_shape_def)
  with drop_bucket_quiet [of "hd (m_taskQueues w ! l)" "advance l w" w' k l] no a r assms(4)
  have "quiet k (advance l w) w'" by simp
  then show ?thesis using z(2) a by (simp add: quiet_def fired_at_def)
qed

lemma rotate_step:
  assumes "wheel_ok w" and "l < m_QueueNum w" and "b \<Longrightarrow> rotate_queue l w = Inr w'" and "\<not> b \<Longrightarrow> w' = w"
  shows "wheel_ok w' \<and> same_shape w w'"
  using rotate_queue_ok [OF assms(1,2)] assms by (cases b) auto

lemma tick_loop_gone:
  "\<lbrakk>wheel_ok w; l + n = m_QueueNum w; wheel_cnt k w = 0; tick_loop n l t p w = Inr w'\<rbrakk> \<Longrightarrow>
     wheel_cnt k w' = 0 \<and> fired_at k w' = fired_at k w"
proof (induction n arbitrary: l p w)
  case (Suc n)
  obtain w1 where w1: "(if t mod p = 0 then rotate_queue l w else Inr w) = Inr w1"
    "tick_loop n (Suc l) t (p * m_bucketsNumPerQueue w) w1 = Inr w'"
    using Suc.prems(4) by (auto simp: and_then_eq_Inr split: if_splits)
  have l: "l < m_QueueNum w" using Suc.prems(2) by simp
  have "wheel_ok w1 \<and> same_shape w w1"
    using w1(1) by (intro rotate_step [OF Suc.prems(1) l, of "t mod p = 0"]) auto
  moreover have "wheel_cnt k w1 = 0 \<and> fired_at k w1 = fired_at k w"
    using rotate_gone [OF Suc.prems(1,3) l] w1(1) Suc.prems(3) by (cases "t mod p = 0") auto
  ultimately show ?case using Suc.IH [of w1 "Suc l"] w1(2) Suc.prems(2) by (auto simp: same_shape_def)
qed simp

lemma tick_loop_place:
  "\<lbrakk>wheel_ok w; l + n = m_QueueNum w; place w k i j e; i < l; tick_loop n l t p w = Inr w'\<rbrakk> \<Longrightarrow>
     place w' k i j e \<and> fired_at k w' = fired_at k w"
proof (induction n arbitrary: l p w)
  case (Suc n)
  obtain w1 where w1: "(if t mod p = 0 then rotate_queue l w else Inr w) = Inr w1"
    "tick_loop n (Suc l) t (p * m_bucketsNumPerQueue w) w1 = Inr w'"
    using Suc.prems(5) by (auto simp: and_then_eq_Inr split: if_splits)
  have l: "l < m_QueueNum w" using Suc.prems(2) by simp
  have "wheel_ok w1 \<and> same_shape w w1"
    using w1(1) by (intro rotate_step [OF Suc.prems(1) l, of "t mod p = 0"]) auto
  moreover have "place w1 k i j e \<and> fired_at k w1 = fired_at k w"
    using rotate_place_other [OF Suc.prems(1,3) l] w1(1) Suc.prems(3,4) by (cases "t mod p = 0") auto
  ultimately show ?case using Suc.IH [of w1 "Suc l"] w1(2) Suc.prems(2,4) by (auto simp: same_shape_def)
qed simp

lemma tick_unfold:
  assumes "wheel_ok w" and "tick w = Inr w'"
  obtains w1 where "rotate_queue 0 (w\<lparr>m_ticksCounter := Suc (m_ticksCounter w)\<rparr>) = Inr w1"
    and "tick_loop (m_QueueNum w - 1) 1 (Suc (m_ticksCounter w)) (m_bucketsNumPerQueue w) w1 = Inr w'"
    and "wheel_ok w1" and "same_shape (w\<lparr>m_ticksCounter := Suc (m_ticksCounter w)\<rparr>) w1"
proof -
  let ?w = "w\<lparr>m_ticksCounter := Suc (m_ticksCounter w)\<rparr>"
  have ok: "wheel_ok ?w" "0 < m_QueueNum ?w" using assms(1) by (simp_all add: wheel_ok_def)
  then obtain n where n: "m_QueueNum w = Suc n" by (cases "m_QueueNum w") auto
  obtain w1 where w1: "rotate_queue 0 ?w = Inr w1"
    "tick_loop n (Suc 0) (Suc (m_ticksCounter w)) (m_bucketsNumPerQueue w) w1 = Inr w'"
    using assms(2) by (auto simp: tick_def n and_then_eq_Inr)
  moreover have "wheel_ok w1 \<and> same_shape ?w w1" using rotate_queue_ok [OF ok] w1(1) by auto
  ultimately show thesis using that n by auto
qed

section \<open>Firing times\<close>

lemma wheel_cnt_counter [simp]: "wheel_cnt k (w\<lparr>m_ticksCounter := c\<rparr>) = wheel_cnt k w"
  by (simp add: wheel_cnt_def)

lemma fired_at_counter [simp]: "fired_at k (w\<lparr>m_ticksCounter := c\<rparr>) = fired_at k w"
  by (simp add: fired_at_def)

lemma place_counter [simp]: "place (w\<lparr>m_ticksCounter := c\<rparr>) k i j e = place w k i j e"
  by (simp add: place_def)

lemma wheel_ok_counter [simp]: "wheel_ok (w\<lparr>m_ticksCounter := c\<rparr>) = wheel_ok w"
  by (simp add: wheel_ok_def)

lemma tick_gone:
  "wheel_ok w \<Longrightarrow> wheel_cnt k w = 0 \<Longrightarrow> tick w = Inr w' \<Longrightarrow>
     wheel_cnt k w' = 0 \<and> fired_at k w' = fired_at k w"
  using tick_loop_gone [of "w\<lparr>m_ticksCounter := Suc (m_ticksCounter w)\<rparr>" 0 "m_QueueNum w" k]
  by (simp add: tick_def)

lemma tick_user:
  assumes "wheel_ok w" and "place w k 0 j (User k)" and "tick w = Inr w'"
  shows "if j = 0 then wheel_cnt k w' = 0 \<and> fired_at k w' = fired_at k w @ [(Suc (m_ticksCounter w), k)]
    else place w' k 0 (j - 1) (User k) \<and> fired_at k w' = fired_at k w"
proof -
  let ?w = "w\<lparr>m_ticksCounter := Suc (m_ticksCounter w)\<rparr>"
  obtain w1 where w1: "rotate_queue 0 ?w = Inr w1"
    "tick_loop (m_QueueNum w - 1) 1 (Suc (m_ticksCounter w)) (m_bucketsNumPerQueue w) w1 = Inr w'"
    "wheel_ok w1" "same_shape ?w w1"
    by (rule tick_unfold [OF assms(1,3)])
  have n: "1 + (m_QueueNum w - 1) = m_QueueNum w1"
    using w1(4) assms(1) by (simp add: same_shape_def wheel_ok_def)
  have r: "if j = 0 then dropped k (User k) ?w w1
    else place w1 k 0 (j - 1) (User k) \<and> fired_at k w1 = fired_at k ?w"
    using rotate_place_same [of ?w k 0 j "User k" w1] assms(1,2) w1(1) by simp
  show ?thesis
  proof (cases "j = 0")
    case True
    then have "wheel_cnt k w1 = 0" "fired_at k w1 = fired_at k w @ [(Suc (m_ticksCounter w), k)]"
      using r by (simp_all add: dropped_def)
    then show ?thesis using tick_loop_gone [OF w1(3) n _ w1(2)] True by simp
  next
    case False
    then show ?thesis using r tick_loop_place [OF w1(3) n _ _ w1(2), of k 0 "j - 1" "User k"] by simp
  qed
qed

lemma tick_relocate:
  assumes "wheel_ok w" and "place w k 1 j (Relocate d 0 t (User k))" and "tick w = Inr w'"
  shows "(if Suc (m_ticksCounter w) mod m_bucketsNumPerQueue w = 0 then
      (if j = 0 then place w' k 0 ((d + t mod m_bucketsNumPerQueue w) mod m_bucketsNumPerQueue w) (User k)
       else place w' k 1 (j - 1) (Relocate d 0 t (User k)))
    else place w' k 1 j (Relocate d 0 t (User k))) \<and> fired_at k w' = fired_at k w"
proof -
  let ?w = "w\<lparr>m_ticksCounter := Suc (m_ticksCounter w)\<rparr>" and ?e = "Relocate d 0 t (User k)"
  let ?B = "m_bucketsNumPerQueue w" and ?c = "Suc (m_ticksCounter w)"
  obtain w1 where w1: "rotate_queue 0 ?w = Inr w1" "tick_loop (m_QueueNum w - 1) 1 ?c ?B w1 = Inr w'"
    "wheel_ok w1" "same_shape ?w w1"
    by (rule tick_unfold [OF assms(1,3)])
  have p1: "place w1 k 1 j ?e" "fired_at k w1 = fired_at k w"
    using rotate_place_other [of ?w k 1 j ?e 0 w1] assms w1(1) by (auto simp: wheel_ok_def)
  obtain n where n: "m_QueueNum w = Suc (Suc n)"
    using assms(2) by (cases "m_QueueNum w"; cases "m_QueueNum w - 1") (auto simp: place_def)
  obtain w2 where w2: "(if ?c mod ?B = 0 then rotate_queue 1 w1 else Inr w1) = Inr w2"
    "tick_loop n 2 ?c (?B * m_bucketsNumPerQueue w1) w2 = Inr w'"
    using w1(2) by (auto simp: n and_then_eq_Inr numeral_2_eq_2 split: if_splits)
  have N1: "m_QueueNum w1 = Suc (Suc n)" "m_bucketsNumPerQueue w1 = ?B" using w1(4) n by (simp_all add: same_shape_def)
  have ok2: "wheel_ok w2 \<and> same_shape w1 w2"
    using w2(1) N1 by (intro rotate_step [OF w1(3), of 1 "?c mod ?B = 0"]) auto
  then have n2: "2 + n = m_QueueNum w2" using N1 by (simp add: same_shape_def)
  note stay = tick_loop_place [OF _ n2 _ _ w2(2)]
  show ?thesis
  proof (cases "?c mod ?B = 0")
    case True
    with rotate_place_same [OF w1(3) p1(1)] w2(1)
    have "if j = 0 then dropped k ?e w1 w2 else place w2 k 1 (j - 1) ?e \<and> fired_at k w2 = fired_at k w1" by simp
    then show ?thesis
      using stay ok2 p1(2) True N1 by (cases "j = 0") (auto simp: dropped_def)
  next
    case False
    then show ?thesis using stay [of k 1 j ?e] ok2 w2(1) p1 by simp
  qed
qed

lemma ticks_gone:
  "wheel_ok w \<Longrightarrow> wheel_cnt k w = 0 \<Longrightarrow>
     \<exists>w'. ticks n w = Inr w' \<and> fired_at k w' = fired_at k w"
proof (induction n arbitrary: w)
  case (Suc n)
  obtain w1 where w1: "tick w = Inr w1" "wheel_ok w1" using tick_ok [OF Suc.prems(1)] by blast
  with tick_gone [OF Suc.prems w1(1)] Suc.IH [of w1] show ?case by auto
qed simp

lemma ticks_user:
  "wheel_ok w \<Longrightarrow> place w k 0 j (User k) \<Longrightarrow>
     \<exists>w'. ticks n w = Inr w' \<and> fired_at k w' = fired_at k w @
       (if j < n then [(m_ticksCounter w + j + 1, k)] else [])"
proof (induction n arbitrary: w j)
  case (Suc n)
  obtain w1 where w1: "tick w = Inr w1" "wheel_ok w1" "m_ticksCounter w1 = Suc (m_ticksCounter w)"
    using tick_ok [OF Suc.prems(1)] by blast
  note t = tick_user [OF Suc.prems w1(1)]
  show ?case
  proof (cases "j = 0")
    case True
    then show ?thesis using t ticks_gone [OF w1(2), of k n] w1(1) by auto
  next
    case False
    then show ?thesis using t Suc.IH [OF w1(2), of "j - 1"] w1 by auto
  qed
qed simp

lemma ticks_relocate:
  "wheel_ok w \<Longrightarrow> place w k 1 j (Relocate d 0 t (User k)) \<Longrightarrow> B = m_bucketsNumPerQueue w \<Longrightarrow>
     f = B * (m_ticksCounter w div B + j + 1) + (d + t mod B) mod B + 1 \<Longrightarrow>
     \<exists>w'. ticks n w = Inr w' \<and> fired_at k w' = fired_at k w @
       (if f \<le> m_ticksCounter w + n then [(f, k)] else [])"
proof (induction n arbitrary: w j)
  case 0
  have "0 < B" using 0 by (simp add: wheel_ok_def)
  then have "m_ticksCounter w < B * (m_ticksCounter w div B + 1)"
    using dividend_less_times_div [of B "m_ticksCounter w"] by simp
  then have "m_ticksCounter w < f" using 0(4) by (simp add: distrib_left trans_less_add1)
  then show ?case by simp
next
  case (Suc n)
  let ?c = "m_ticksCounter w"
  obtain w1 where w1: "tick w = Inr w1" "wheel_ok w1" "m_ticksCounter w1 = Suc ?c" "m_bucketsNumPerQueue w1 = B"
    using tick_ok [OF Suc.prems(1)] Suc.prems(3) by auto
  note t = tick_relocate [OF Suc.prems(1,2) w1(1), folded Suc.prems(3)]
  show ?case
  proof (cases "Suc ?c mod B = 0")
    case True
    then have dv: "Suc ?c div B = Suc (?c div B)" by (simp add: div_Suc)
    show ?thesis
    proof (cases "j = 0")
      case j: True
      have c1: "Suc ?c = B * (?c div B + 1)" using True dv mult_div_mod_eq [of B "Suc ?c"] by simp
      have "f = Suc ?c + (d + t mod B) mod B + 1" using Suc.prems(4) c1 j by simp
      then show ?thesis
        using t True j ticks_user [OF w1(2), of k "(d + t mod B) mod B" n] w1 by auto
    next
      case False
      then have "f = B * (Suc ?c div B + (j - 1) + 1) + (d + t mod B) mod B + 1"
        using Suc.prems(4) dv by simp
      then show ?thesis
        using t True False Suc.IH [OF w1(2), of "j - 1"] w1 by auto
    qed
  next
    case False
    then have "Suc ?c div B = ?c div B" by (simp add: div_Suc)
    then show ?thesis using t False Suc.IH [OF w1(2), of j] w1 Suc.prems(4) by auto
  qed
qed

section \<open>Runs of the wheel\<close>

datatype wheel_op = Insert nat nat | Tick

fun run_wheel :: "wheel_op list \<Rightarrow> TimingWheel \<Rightarrow> TimingWheel result" where
  "run_wheel [] w = Inr w"
| "run_wheel (Insert delay k # ops) w = and_then (insertEntry delay (Some (User k)) w) (run_wheel ops)"
| "run_wheel (Tick # ops) w = and_then (tick w) (run_wheel ops)"

text \<open>With a tick interval of \<open>c\<close> seconds a delay takes as many ticks as cover it.\<close>

lemma to_size_of_nat [simp]: "to_size (of_nat c) = c"
  by (simp add: to_size_def)

lemma to_size_div: "to_size (of_nat a / of_nat b) = a div b"
  by (simp add: to_size_def floor_divide_of_nat_eq)

lemma ticks_of_int:
  assumes "m_ticksInterval w = of_nat c" and "1 \<le> c"
  shows "ticks_of delay w = Inr (delay div c + (if delay mod c \<noteq> 0 then 1 else 0))"
  using assms by (simp add: ticks_of_def to_size_div)

lemma ticks_of_pos: "1 \<le> c \<Longrightarrow> 0 < delay \<Longrightarrow> 1 \<le> delay div c + (if delay mod c \<noteq> 0 then 1 else (0 :: nat))"
  by (cases "delay mod c = 0") (auto simp: Suc_le_eq div_greater_zero_iff dvd_imp_le)

lemma insertEntry_unfold:
  assumes "m_ticksInterval w = of_nat c" and "1 \<le> c" and "0 < delay"
    and "d = delay div c + (if delay mod c \<noteq> 0 then 1 else 0)"
  shows "insertEntry delay (Some e) w = insert_loop (m_QueueNum w) 0 d (m_ticksCounter w) e w"
  using assms(3,4) ticks_of_int [OF assms(1,2), of delay]
  by (simp add: insertEntry_def insertEntryInLoop_def)

lemma insertEntry_ok:
  assumes "wheel_ok w" and "m_ticksInterval w = of_nat c" and "1 \<le> c"
  shows "\<exists>w'. insertEntry delay (Some (User k)) w = Inr w' \<and> wheel_ok w' \<and> same_shape w w'"
proof (cases "delay = 0")
  case True
  then show ?thesis using assms by (simp add: insertEntry_def)
next
  case False
  then have "1 \<le> delay div c + (if delay mod c \<noteq> 0 then 1 else 0)" using ticks_of_pos assms(3) by simp
  from insert_loop_ok [OF assms(1) _ this, of 0 "m_QueueNum w" "User k" "m_ticksCounter w"]
  show ?thesis
    using False assms by (auto simp: insertEntry_def insertEntryInLoop_def ticks_of_int)
qed

lemma queue_num_pos: "1 \<le> n \<Longrightarrow> 1 \<le> queue_num_loop B m t n"
proof (induction B m t n rule: queue_num_loop.induct)
  case (1 B m t n)
  then show ?case by (subst queue_num_loop.simps) auto
qed

lemma TimingWheel_new_ok:
  assumes "TimingWheel_new maxTimeout interval B = Inr w"
  shows "wheel_ok w \<and> m_ticksInterval w = interval"
proof -
  let ?n = "queue_num_loop B (to_size (of_nat maxTimeout / interval)) B 1"
  have B: "1 < B" and w: "w = \<lparr>m_taskQueues = replicate ?n (replicate B []), m_ticksCounter = 0,
    m_ticksInterval = interval, m_QueueNum = ?n, m_bucketsNumPerQueue = B, fired = []\<rparr>"
    using assms by (auto simp: TimingWheel_new_def Let_def)
  have "0 < ?n" using queue_num_pos [of 1] by (simp add: Suc_le_eq)
  then show ?thesis using B by (simp add: w wheel_ok_def)
qed

lemma turn_arith:
  assumes "B < x"
  shows "B * ((x - 1) div B) + x mod B + 1 = (if x mod B = 0 then x + 1 - B else x + (1 :: nat))"
proof -
  obtain y where y: "x = Suc y" using assms by (cases x) auto
  have "B * (Suc y div B) + Suc y mod B = Suc y" by (rule mult_div_mod_eq)
  then show ?thesis
    using assms by (cases "Suc y mod B = 0") (auto simp: y div_Suc)
qed

lemma shift_arith:
  "(B :: nat) < D \<Longrightarrow> Y + M + 1 = (if M = 0 then D + 1 - B else D + 1) \<Longrightarrow>
     (if M = 0 then X + D + 1 - B else X + D + 1) = X + Y + M + 1"
  by (auto split: if_splits)

section \<open>Properties\<close>


definition demo_wheel :: TimingWheel where
  "demo_wheel = \<lparr>m_taskQueues = replicate 2 (replicate 100 []), m_ticksCounter = 0,
     m_ticksInterval = 1, m_QueueNum = 2, m_bucketsNumPerQueue = 100, fired = []\<rparr>"

lemma demo_wheel_new: "TimingWheel_new 600 (of_nat 1) 100 = Inr demo_wheel"
proof -
  have "to_size (of_nat 600 / of_nat 1) = 600" by (simp only: to_size_div) simp
  moreover have "queue_num_loop 100 600 100 1 = 2"
    by (simp add: queue_num_loop.simps [of 100 600 100] queue_num_loop.simps [of 100 600 10000])
  ultimately show ?thesis by (simp add: TimingWheel_new_def demo_wheel_def)
qed

lemma demo_wheel_ok: "wheel_ok demo_wheel" "wheel_cnt k demo_wheel = 0"
  by (simp_all add: demo_wheel_def wheel_ok_def wheel_cnt_0 held_def wheel_entries_def)

lemma demo_wheel_simps:
  "m_ticksInterval demo_wheel = of_nat 1" "m_ticksCounter demo_wheel = 0" "m_QueueNum demo_wheel = 2"
  "m_bucketsNumPerQueue demo_wheel = 100" "fired_at k demo_wheel = []"
  by (simp_all add: demo_wheel_def fired_at_def)


text \<open>
  C19. An object inserted with a delay of at most one turn of the first queue fires exactly once,
  after exactly the number of ticks that cover the delay.
\<close>

theorem wheel_first_queue_exact:
  assumes "wheel_ok w" and "m_ticksInterval w = of_nat c" and "1 \<le> c" and "wheel_cnt k w = 0"
    and "0 < delay" and "d = delay div c + (if delay mod c \<noteq> 0 then 1 else 0)"
    and "d \<le> m_bucketsNumPerQueue w"
  shows "\<exists>w1 w2. insertEntry delay (Some (User k)) w = Inr w1 \<and> ticks n w1 = Inr w2 \<and>
    fired_at k w2 = fired_at k w @ (if d \<le> n then [(m_ticksCounter w + d, k)] else [])"
proof -
  have d: "1 \<le> d" using ticks_of_pos [OF assms(3,5)] assms(6) by simp
  have N: "0 < m_QueueNum w" using assms(1) by (simp add: wheel_ok_def)
  obtain w1 where w1: "insertEntry delay (Some (User k)) w = Inr w1" "wheel_ok w1" "same_shape w w1"
    using insertEntry_ok [OF assms(1-3)] by blast
  have ins: "insert_at 0 (d - 1) (User k) w = Inr w1"
    using w1(1) assms(7) d N unfolding insertEntry_unfold [OF assms(2,3,5,6)]
    by (cases "m_QueueNum w") (auto simp: Let_def)
  have p: "place w1 k 0 (d - 1) (User k)" "fired w1 = fired w"
    using insert_at_place [OF ins] assms(1,4,7) N d by auto
  from ticks_user [OF w1(2) p(1), of n] obtain w2 where "ticks n w1 = Inr w2"
    "fired_at k w2 = fired_at k w1 @ (if d - 1 < n then [(m_ticksCounter w1 + (d - 1) + 1, k)] else [])"
    by blast
  moreover have "d - 1 < n \<longleftrightarrow> d \<le> n" using d by auto
  ultimately show ?thesis
    using w1 p(2) d by (auto simp: same_shape_def fired_at_def)
qed

theorem wheel_first_queue_exact_witness:
  "\<exists>w1 w2. insertEntry 60 (Some (User 7)) demo_wheel = Inr w1 \<and> ticks 80 w1 = Inr w2 \<and>
    fired_at 7 w2 = [(60, 7)]"
  using wheel_first_queue_exact [OF demo_wheel_ok(1) demo_wheel_simps(1) _ demo_wheel_ok(2), of 60 60 7 80]
  by (simp add: demo_wheel_simps)

text \<open>
  C20. An object whose delay needs the second queue fires exactly once, but not when it is due:
  one tick late in general, and a whole turn of the first queue minus one tick early when the due
  tick is a multiple of the number of buckets. The cause is the bucket index of the relocation,
  which lacks a subtraction of 1.
\<close>

theorem wheel_second_queue_shift:
  assumes "wheel_ok w" and "m_ticksInterval w = of_nat c" and "1 \<le> c" and "wheel_cnt k w = 0"
    and "d = delay div c + (if delay mod c \<noteq> 0 then 1 else 0)" and "2 \<le> m_QueueNum w"
    and "B = m_bucketsNumPerQueue w" and "B < d" and "(d + m_ticksCounter w mod B - 1) div B \<le> B"
    and "due = m_ticksCounter w + d"
    and "actual = (if due mod B = 0 then due + 1 - B else due + 1)"
  shows "\<exists>w1 w2. insertEntry delay (Some (User k)) w = Inr w1 \<and> ticks n w1 = Inr w2 \<and>
    fired_at k w2 = fired_at k w @ (if actual \<le> m_ticksCounter w + n then [(actual, k)] else [])"
proof -
  let ?t = "m_ticksCounter w"
  let ?e = "Relocate d 0 ?t (User k)" and ?d = "d + ?t mod B"
  have B: "1 < B" using assms(1,7) by (simp add: wheel_ok_def)
  have delay: "0 < delay" using assms(5,8) by (cases delay) auto
  have d1: "1 \<le> (?d - 1) div B" using assms(8) B by (simp add: div_greater_zero_iff Suc_le_eq)
  obtain m where m: "m_QueueNum w = Suc (Suc m)" using assms(6) by (metis Suc_le_D numeral_2_eq_2 Suc_le_mono)
  obtain w1 where w1: "insertEntry delay (Some (User k)) w = Inr w1" "wheel_ok w1" "same_shape w w1"
    using insertEntry_ok [OF assms(1-3)] by blast
  have ins: "insert_at 1 ((?d - 1) div B - 1) ?e w = Inr w1"
    using w1(1) assms(8,9) d1 unfolding insertEntry_unfold [OF assms(2,3) delay assms(5)] m
    by (simp add: m assms(7) [symmetric] Let_def)
  have "place w1 (user_of ?e) 1 ((?d - 1) div B - 1) ?e" "fired w1 = fired w"
    using insert_at_place [OF ins] assms(1,4,7,9) m d1 by auto
  then have p: "place w1 k 1 ((?d - 1) div B - 1) ?e" "fired_at k w1 = fired_at k w"
    by (simp_all add: fired_at_def)
  have act: "actual = B * (?t div B + ((?d - 1) div B - 1) + 1) + ?d mod B + 1"
  proof -
    have due: "due = B * (?t div B) + ?d" using assms(10) mult_div_mod_eq [of B ?t] by simp
    have mod: "due mod B = ?d mod B" unfolding due by (rule mod_mult_self4)
    have e1: "B * (?t div B + ((?d - 1) div B - 1) + 1) = B * (?t div B) + B * ((?d - 1) div B)"
      using d1 by (simp flip: distrib_left)
    have e2: "B * ((?d - 1) div B) + ?d mod B + 1 = (if ?d mod B = 0 then ?d + 1 - B else ?d + 1)"
      by (rule turn_arith) (use assms(8) in simp)
    have "B < ?d" using assms(8) by simp
    then show ?thesis
      unfolding e1 assms(11) mod unfolding due using shift_arith e2 by blast
  qed
  from ticks_relocate [OF w1(2) p(1) refl, of actual n] act w1(3) p(2) assms(7) obtain w2 where
    "ticks n w1 = Inr w2"
    "fired_at k w2 = fired_at k w @ (if actual \<le> ?t + n then [(actual, k)] else [])"
    by (auto simp: same_shape_def)
  then show ?thesis using w1(1) by blast
qed

theorem wheel_second_queue_shift_witness:
  "\<exists>w1 w2. insertEntry 600 (Some (User 7)) demo_wheel = Inr w1 \<and> ticks 600 w1 = Inr w2 \<and>
    fired_at 7 w2 = [(501, 7)]"
  using wheel_second_queue_shift [OF demo_wheel_ok(1) demo_wheel_simps(1) _ demo_wheel_ok(2),
      of 600 600 100 600 501 7 600]
  by (simp add: demo_wheel_simps)

text \<open>
  C34. With a tick interval below one second the constructor succeeds but every insertion computes a
  remainder by 0, because the interval is truncated to an integer first.
\<close>

theorem wheel_fractional_interval:
  assumes "0 < r" and "r < 1" and "2 \<le> maxTimeout" and "2 \<le> B" and "0 < delay"
  shows "\<exists>w. TimingWheel_new maxTimeout r B = Inr w \<and> insertEntry delay (Some e) w = Inl DivisionByZero"
proof -
  have "\<lfloor>r\<rfloor> = 0" using assms(1,2) by (simp add: floor_eq_iff)
  then have "to_size r = 0" by (simp add: to_size_def)
  then show ?thesis
    using assms by (simp add: TimingWheel_new_def insertEntry_def insertEntryInLoop_def ticks_of_def Let_def)
qed

theorem wheel_fractional_interval_witness:
  "\<exists>w. TimingWheel_new 60 (1 / 2) 10 = Inr w \<and> insertEntry 5 (Some (User 1)) w = Inl DivisionByZero"
  by (rule wheel_fractional_interval) simp_all

end
