(* ===== verification/Channel.thy ===== *)
theory Channel
  imports Prelude "HOL-Library.Sublist"
begin

text \<open>
  \<^verbatim>\<open>netpoll/net/channel.{h,cc}\<close>: a channel ties a file descriptor to the callbacks for its events,
  and \<^verbatim>\<open>netpoll/net/inner/poller.h\<close>: the interface of the pollers.

  Event masks are 32 bit words. \<open>handleEventSafely\<close> returns the callbacks it invokes, in order; the
  conditions read only the revents of the channel, which the callbacks do not change. The locale
  \<open>poller\<close> is the contract of \<^verbatim>\<open>Poller\<close>: what the kernel is asked to watch follows the masks of the
  registered channels.
\<close>

unbundle bit_operations_syntax

section \<open>Event masks\<close>

definition POLLIN :: "32 word" where "POLLIN = 0x1"
definition POLLPRI :: "32 word" where "POLLPRI = 0x2"
definition POLLOUT :: "32 word" where "POLLOUT = 0x4"
definition POLLERR :: "32 word" where "POLLERR = 0x8"
definition POLLHUP :: "32 word" where "POLLHUP = 0x10"
definition POLLNVAL :: "32 word" where "POLLNVAL = 0x20"
definition POLLRDHUP :: "32 word" where "POLLRDHUP = 0x2000"

lemmas poll_flags = POLLIN_def POLLPRI_def POLLOUT_def POLLERR_def POLLHUP_def POLLNVAL_def POLLRDHUP_def

definition kNoneEvent :: "32 word" where
  "kNoneEvent = 0"

definition kReadEvent :: "32 word" where
  "kReadEvent = POLLIN OR POLLPRI"

definition kWriteEvent :: "32 word" where
  "kWriteEvent = POLLOUT"

definition has_flag :: "32 word \<Rightarrow> 32 word \<Rightarrow> bool" where
  "has_flag w f \<longleftrightarrow> w AND f \<noteq> 0"

section \<open>Channels\<close>

record Channel =
  ch_fd :: int
  ch_events :: "32 word"
  ch_revents :: "32 word"
  ch_index :: int
  ch_addedToLoop :: bool
  ch_readCallback :: bool
  ch_writeCallback :: bool
  ch_errorCallback :: bool
  ch_closeCallback :: bool
  ch_eventCallback :: bool
  ch_tied :: bool
  ch_tie_alive :: bool

definition Channel_new :: "int \<Rightarrow> Channel" where
  "Channel_new fd =
     \<lparr>ch_fd = fd, ch_events = 0, ch_revents = 0, ch_index = -1, ch_addedToLoop = False,
      ch_readCallback = False, ch_writeCallback = False, ch_errorCallback = False,
      ch_closeCallback = False, ch_eventCallback = False, ch_tied = False, ch_tie_alive = False\<rparr>"

definition isNoneEvent :: "Channel \<Rightarrow> bool" where
  "isNoneEvent c \<longleftrightarrow> ch_events c = kNoneEvent"

definition isWriting :: "Channel \<Rightarrow> bool" where
  "isWriting c \<longleftrightarrow> has_flag (ch_events c) kWriteEvent"

definition isReading :: "Channel \<Rightarrow> bool" where
  "isReading c \<longleftrightarrow> has_flag (ch_events c) kReadEvent"

text \<open>The new mask that the methods set before they call \<^verbatim>\<open>update()\<close>.\<close>

definition enableReading :: "32 word \<Rightarrow> 32 word" where
  "enableReading ev = ev OR kReadEvent"

definition disableReading :: "32 word \<Rightarrow> 32 word" where
  "disableReading ev = ev AND NOT kReadEvent"

definition enableWriting :: "32 word \<Rightarrow> 32 word" where
  "enableWriting ev = ev OR kWriteEvent"

definition disableWriting :: "32 word \<Rightarrow> 32 word" where
  "disableWriting ev = ev AND NOT kWriteEvent"

definition disableAll :: "32 word \<Rightarrow> 32 word" where
  "disableAll ev = kNoneEvent"

definition setRevents :: "32 word \<Rightarrow> Channel \<Rightarrow> Channel" where
  "setRevents r c = c\<lparr>ch_revents := r\<rparr>"

definition tie :: "Channel \<Rightarrow> Channel" where
  "tie c = c\<lparr>ch_tied := True, ch_tie_alive := True\<rparr>"

datatype platform = Linux | Windows | OtherUnix

datatype event_cb = ReadCB | WriteCB | ErrorCB | CloseCB | EventCB

definition nval :: "platform \<Rightarrow> 32 word" where
  "nval p = (case p of Windows \<Rightarrow> 0 | _ \<Rightarrow> POLLNVAL)"

definition handleEventSafely :: "platform \<Rightarrow> Channel \<Rightarrow> event_cb list" where
  "handleEventSafely p c =
     (let r = ch_revents c
      in if ch_eventCallback c then [EventCB]
         else (if has_flag r POLLHUP \<and> \<not> has_flag r POLLIN \<and> ch_closeCallback c then [CloseCB] else []) @
              (if has_flag r (nval p OR POLLERR) \<and> ch_errorCallback c then [ErrorCB] else []) @
              (if has_flag r (case p of Linux \<Rightarrow> POLLIN OR POLLPRI OR POLLRDHUP | _ \<Rightarrow> POLLIN OR POLLPRI)
                  \<and> ch_readCallback c then [ReadCB] else []) @
              (if has_flag r POLLOUT \<and> (p = Windows \<longrightarrow> \<not> has_flag r POLLHUP) \<and> ch_writeCallback c
               then [WriteCB] else []))"

definition handleEvent :: "platform \<Rightarrow> Channel \<Rightarrow> event_cb list" where
  "handleEvent p c =
     (if ch_events c = kNoneEvent then []
      else if ch_tied c then (if ch_tie_alive c then handleEventSafely p c else [])
      else handleEventSafely p c)"

section \<open>Masks and flags\<close>

lemma has_flag_or [simp]: "has_flag (a OR b) f \<longleftrightarrow> has_flag a f \<or> has_flag b f"
  by (simp add: has_flag_def bit.conj_disj_distrib2 or_eq_0_iff)

lemma has_flag_or_right: "has_flag a (f OR g) \<longleftrightarrow> has_flag a f \<or> has_flag a g"
  by (simp add: has_flag_def bit.conj_disj_distrib or_eq_0_iff)

lemma has_flag_0 [simp]: "\<not> has_flag 0 f" "\<not> has_flag a 0"
  by (simp_all add: has_flag_def)

lemma writing_masks [simp]:
  "has_flag (enableWriting ev) kWriteEvent" "\<not> has_flag (disableWriting ev) kWriteEvent"
  "has_flag (enableWriting ev) kReadEvent = has_flag ev kReadEvent"
  "has_flag (disableWriting ev) kReadEvent = has_flag ev kReadEvent"
  by (simp_all add: enableWriting_def disableWriting_def has_flag_def kReadEvent_def kWriteEvent_def
      poll_flags bit.conj_disj_distrib2 and.assoc)

lemma reading_masks [simp]:
  "has_flag (enableReading ev) kReadEvent" "\<not> has_flag (disableReading ev) kReadEvent"
  "has_flag (enableReading ev) kWriteEvent = has_flag ev kWriteEvent"
  "has_flag (disableReading ev) kWriteEvent = has_flag ev kWriteEvent"
  by (simp_all add: enableReading_def disableReading_def has_flag_def kReadEvent_def kWriteEvent_def
      poll_flags bit.conj_disj_distrib2 and.assoc)

section \<open>The contract of a poller\<close>

text \<open>
  \<open>modify c f\<close> stands for the methods of the channel \<open>c\<close> that change its mask by \<open>f\<close> and call
  \<^verbatim>\<open>Poller::updateChannel\<close>, \<open>remove\<close> for \<^verbatim>\<open>Poller::removeChannel\<close>. \<open>watch s fd\<close> is the mask the kernel is
  asked to watch the descriptor for, 0 if it is not watched. \<open>fresh\<close> channels are those that may be
  registered, \<open>removable\<close> ones those that may be removed, \<open>fd_ok\<close> descriptors those the system accepts.
\<close>

locale poller =
  fixes inv :: "'s \<Rightarrow> bool"
    and live :: "'s \<Rightarrow> nat \<Rightarrow> bool"
    and fresh :: "'s \<Rightarrow> nat \<Rightarrow> bool"
    and fd_ok :: "'s \<Rightarrow> int \<Rightarrow> bool"
    and removable :: "'s \<Rightarrow> nat \<Rightarrow> bool"
    and fd :: "'s \<Rightarrow> nat \<Rightarrow> int"
    and events :: "'s \<Rightarrow> nat \<Rightarrow> 32 word"
    and mask_ok :: "32 word \<Rightarrow> bool"
    and watch :: "'s \<Rightarrow> int \<Rightarrow> 32 word"
    and modify :: "nat \<Rightarrow> (32 word \<Rightarrow> 32 word) \<Rightarrow> 's \<Rightarrow> 's result"
    and remove :: "nat \<Rightarrow> 's \<Rightarrow> 's result"
  assumes watch_live: "inv s \<Longrightarrow> live s c \<Longrightarrow> watch s (fd s c) = events s c"
    and watch_none: "inv s \<Longrightarrow> (\<And>c. live s c \<Longrightarrow> fd s c \<noteq> n) \<Longrightarrow> watch s n = 0"
    and fd_unique: "inv s \<Longrightarrow> live s c \<Longrightarrow> live s c' \<Longrightarrow> fd s c = fd s c' \<Longrightarrow> c = c'"
    and modify_law: "\<lbrakk>inv s; fd_ok s (fd s c); live s c \<or> fresh s c \<and> (\<forall>c'. live s c' \<longrightarrow> fd s c' \<noteq> fd s c);
        mask_ok (f (events s c))\<rbrakk> \<Longrightarrow>
      \<exists>s'. modify c f s = Inr s' \<and> inv s' \<and> (\<forall>c'. live s' c' \<longleftrightarrow> live s c' \<or> c' = c) \<and>
        fd s' = fd s \<and> fd_ok s' = fd_ok s \<and> events s' = (events s)(c := f (events s c)) \<and>
        (live s c \<longrightarrow> f (events s c) = 0 \<longrightarrow> removable s' c)"
    and remove_law: "\<lbrakk>inv s; live s c; removable s c; events s c = 0\<rbrakk> \<Longrightarrow>
      \<exists>s'. remove c s = Inr s' \<and> inv s' \<and> (\<forall>c'. live s' c' \<longleftrightarrow> live s c' \<and> c' \<noteq> c) \<and>
        fd s' = fd s \<and> events s' = events s"
    and mask_ok_0: "mask_ok 0"
begin

text \<open>What is watched is determined by the registered channels.\<close>

lemma watch_char:
  assumes "inv s"
  shows "watch s n = w \<longleftrightarrow> (\<exists>c. live s c \<and> fd s c = n \<and> events s c = w) \<or>
    (\<forall>c. live s c \<longrightarrow> fd s c \<noteq> n) \<and> w = 0"
  using watch_live [OF assms] watch_none [OF assms] by metis

lemma modify_watch:
  assumes "inv s" and "fd_ok s (fd s c)"
    and "live s c \<or> fresh s c \<and> (\<forall>c'. live s c' \<longrightarrow> fd s c' \<noteq> fd s c)" and "mask_ok (f (events s c))"
  shows "\<exists>s'. modify c f s = Inr s' \<and> inv s' \<and> live s' c \<and> fd s' = fd s \<and>
    watch s' = (watch s)(fd s c := f (events s c))"
proof -
  obtain s' where s': "modify c f s = Inr s'" "inv s'" "\<forall>c'. live s' c' \<longleftrightarrow> live s c' \<or> c' = c"
    "fd s' = fd s" "events s' = (events s)(c := f (events s c))"
    using modify_law [of s c f] assms by blast
  have "watch s' n = ((watch s)(fd s c := f (events s c))) n" for n
  proof (cases "n = fd s c")
    case True
    then show ?thesis using watch_live [OF s'(2), of c] s' by simp
  next
    case False
    have "watch s n = w \<longleftrightarrow> watch s' n = w" for w
      unfolding watch_char [OF assms(1)] watch_char [OF s'(2)] s'(4,5) using s'(3) False by auto
    from this [of "watch s n"] show ?thesis using False by simp
  qed
  then show ?thesis using s' by blast
qed

text \<open>Registering a channel and taking it out again leaves no trace in what is watched.\<close>

lemma lifecycle:
  assumes "inv s" and "fd_ok s (fd s c)" and "fresh s c" and "\<forall>c'. live s c' \<longrightarrow> fd s c' \<noteq> fd s c"
    and "mask_ok (f (events s c))"
  shows "\<exists>s1 s2 s3. modify c f s = Inr s1 \<and> watch s1 (fd s c) = f (events s c) \<and>
    modify c disableAll s1 = Inr s2 \<and> remove c s2 = Inr s3 \<and> inv s3 \<and> \<not> live s3 c \<and> watch s3 = watch s"
proof -
  obtain s1 where s1: "modify c f s = Inr s1" "inv s1" "\<forall>c'. live s1 c' \<longleftrightarrow> live s c' \<or> c' = c"
    "fd s1 = fd s" "fd_ok s1 = fd_ok s" "events s1 = (events s)(c := f (events s c))"
    using modify_law [of s c f] assms by blast
  have z: "disableAll (events s1 c) = 0" by (simp add: disableAll_def kNoneEvent_def)
  obtain s2 where s2: "modify c disableAll s1 = Inr s2" "inv s2" "\<forall>c'. live s2 c' \<longleftrightarrow> live s1 c' \<or> c' = c"
    "fd s2 = fd s" "events s2 = (events s1)(c := 0)" "removable s2 c"
    using modify_law [OF s1(2), of c disableAll] s1 assms(2) mask_ok_0 z by auto
  obtain s3 where s3: "remove c s2 = Inr s3" "inv s3" "\<forall>c'. live s3 c' \<longleftrightarrow> live s2 c' \<and> c' \<noteq> c"
    "fd s3 = fd s" "events s3 = events s2"
    using remove_law [OF s2(2), of c] s2 by auto
  have nl: "\<not> live s c" using assms(4) by blast
  have l3: "live s3 c' \<longleftrightarrow> live s c'" for c' using s1(3) s2(3) s3(3) nl by metis
  have "watch s n = w \<longleftrightarrow> watch s3 n = w" for n w
    unfolding watch_char [OF assms(1)] watch_char [OF s3(2)] l3 s3(4,5) s2(5) s1(6) using nl by auto
  then have "watch s3 = watch s" by auto
  moreover have "watch s1 (fd s c) = f (events s c)"
    using watch_live [OF s1(2), of c] s1 by simp
  ultimately show ?thesis using s1 s2 s3 nl l3 by blast
qed

end

section \<open>Properties\<close>



end
