(* ===== verification/Poll_Poller.thy ===== *)
theory Poll_Poller
  imports Channel
begin

text \<open>
  \<^verbatim>\<open>netpoll/net/inner/poller/poll_poller.cc\<close>: the poller on top of \<^verbatim>\<open>poll(2)\<close>.

  The state holds the array handed to the kernel, the map from descriptors to channels, and a store
  of the channels themselves, since the poller writes their indices and revents. The kernel is a
  parameter of \<open>poll_pp\<close>. \<open>PollPoller\<close> is shown to implement the contract \<open>poller\<close>.
\<close>

unbundle bit_operations_syntax

section \<open>Definitions\<close>

record pollfd =
  pfd_fd :: int
  pfd_events :: "16 word"
  pfd_revents :: "16 word"

record PollPoller =
  pollfds :: "pollfd list"
  pp_channels :: "int \<rightharpoonup> nat"
  pp_store :: "nat \<Rightarrow> Channel"

definition PollPoller_new :: "(nat \<Rightarrow> Channel) \<Rightarrow> PollPoller" where
  "PollPoller_new cs = \<lparr>pollfds = [], pp_channels = Map.empty, pp_store = cs\<rparr>"

definition set_channel :: "nat \<Rightarrow> Channel \<Rightarrow> PollPoller \<Rightarrow> PollPoller" where
  "set_channel c ch s = s\<lparr>pp_store := (pp_store s)(c := ch)\<rparr>"

definition updateChannel_pp :: "nat \<Rightarrow> PollPoller \<Rightarrow> PollPoller result" where
  "updateChannel_pp c s =
     (let ch = pp_store s c; fd = ch_fd ch; idx = ch_index ch in
      assert_that (0 \<le> fd)
      (if idx < 0
       then assert_that (pp_channels s fd = None)
         (let s' = s\<lparr>pollfds := pollfds s @
               [\<lparr>pfd_fd = fd, pfd_events = ucast (ch_events ch), pfd_revents = 0\<rparr>]\<rparr> in
          let s' = set_channel c (ch\<lparr>ch_index := int (length (pollfds s')) - 1\<rparr>) s' in
          Inr (s'\<lparr>pp_channels := (pp_channels s')(fd \<mapsto> c)\<rparr>))
       else assert_that (pp_channels s fd \<noteq> None)
         (assert_that (pp_channels s fd = Some c)
         (assert_that (0 \<le> idx \<and> idx < int (length (pollfds s)))
         (let pfd = pollfds s ! nat idx in
          assert_that (pfd_fd pfd = fd \<or> pfd_fd pfd = - fd - 1)
          (let pfd = \<lparr>pfd_fd = fd, pfd_events = ucast (ch_events ch), pfd_revents = 0\<rparr>;
               pfd = (if isNoneEvent ch then pfd\<lparr>pfd_fd := - fd - 1\<rparr> else pfd) in
           Inr (s\<lparr>pollfds := (pollfds s)[nat idx := pfd]\<rparr>)))))))"

text \<open>The swap with the last entry writes the index of the channel that owned it.\<close>

definition removeChannel_pp :: "nat \<Rightarrow> PollPoller \<Rightarrow> PollPoller result" where
  "removeChannel_pp c s =
     (let ch = pp_store s c; fd = ch_fd ch; idx = ch_index ch in
      assert_that (pp_channels s fd \<noteq> None)
      (assert_that (pp_channels s fd = Some c)
      (assert_that (isNoneEvent ch)
      (assert_that (0 \<le> idx \<and> idx < int (length (pollfds s)))
      (let pfd = pollfds s ! nat idx in
       assert_that (pfd_fd pfd = - fd - 1 \<and> sint (pfd_events pfd) = sint (ch_events ch))
       (let s' = s\<lparr>pp_channels := (pp_channels s)(fd := None)\<rparr> in
        if nat idx = size_sub (length (pollfds s)) 1
        then Inr (s'\<lparr>pollfds := butlast (pollfds s)\<rparr>)
        else
          (let at_end = pfd_fd (last (pollfds s));
               swapped = (pollfds s)[nat idx := last (pollfds s), length (pollfds s) - 1 := pfd];
               at_end = (if at_end < 0 then - at_end - 1 else at_end) in
           case pp_channels s' at_end of
             None \<Rightarrow> Inl OutOfBounds
           | Some c' \<Rightarrow> Inr (set_channel c' ((pp_store s' c')\<lparr>ch_index := idx\<rparr>)
               (s'\<lparr>pollfds := butlast swapped\<rparr>)))))))))"

text \<open>The mask is changed and \<^verbatim>\<open>update()\<close> called by the methods of the channel.\<close>

definition modify_pp :: "nat \<Rightarrow> (32 word \<Rightarrow> 32 word) \<Rightarrow> PollPoller \<Rightarrow> PollPoller result" where
  "modify_pp c f s =
     updateChannel_pp c (set_channel c ((pp_store s c)\<lparr>ch_events := f (ch_events (pp_store s c))\<rparr>) s)"

fun fill_loop :: "pollfd list \<Rightarrow> int \<Rightarrow> int \<Rightarrow> nat list \<Rightarrow> PollPoller \<Rightarrow> (nat list \<times> PollPoller) result" where
  "fill_loop [] numEvents processed act s =
     assert_that (processed = numEvents) (Inr (act, s))"
| "fill_loop (pfd # pfds) numEvents processed act s =
     (if sint (pfd_revents pfd) > 0
      then (case pp_channels s (pfd_fd pfd) of
          None \<Rightarrow> Inl AssertionFailed
        | Some c \<Rightarrow> assert_that (ch_fd (pp_store s c) = pfd_fd pfd)
            (let s' = set_channel c (setRevents (scast (pfd_revents pfd)) (pp_store s c)) s;
                 act' = act @ [c] in
             if processed + 1 = numEvents then Inr (act', s')
             else fill_loop pfds numEvents (processed + 1) act' s'))
      else fill_loop pfds numEvents processed act s)"

definition fillActiveChannels_pp :: "int \<Rightarrow> PollPoller \<Rightarrow> (nat list \<times> PollPoller) result" where
  "fillActiveChannels_pp numEvents s = fill_loop (pollfds s) numEvents 0 [] s"

text \<open>\<^verbatim>\<open>poll(2)\<close> returns the revents of every entry and how many of them are not zero.\<close>

definition with_revents :: "pollfd list \<Rightarrow> 16 word list \<Rightarrow> pollfd list" where
  "with_revents ps rs = map2 (\<lambda>p r. p\<lparr>pfd_revents := r\<rparr>) ps rs"

definition poll_pp :: "(pollfd list \<Rightarrow> int \<times> 16 word list) \<Rightarrow> PollPoller \<Rightarrow> (nat list \<times> PollPoller) result" where
  "poll_pp sys_poll s =
     (let (numEvents, rs) = sys_poll (pollfds s);
          s' = s\<lparr>pollfds := with_revents (pollfds s) rs\<rparr> in
      if numEvents > 0 then fillActiveChannels_pp numEvents s' else Inr ([], s'))"

section \<open>Invariant\<close>

text \<open>Masks that survive the cast to \<^verbatim>\<open>short\<close>; the methods of the channel make no others.\<close>

definition short_mask :: "32 word \<Rightarrow> bool" where
  "short_mask ev \<longleftrightarrow> ev AND 0x7FFF = ev"

definition slot_ok :: "PollPoller \<Rightarrow> int \<Rightarrow> nat \<Rightarrow> bool" where
  "slot_ok s fd c \<longleftrightarrow>
     (let ch = pp_store s c; pfd = pollfds s ! nat (ch_index ch) in
      0 \<le> fd \<and> ch_fd ch = fd \<and> short_mask (ch_events ch) \<and>
      0 \<le> ch_index ch \<and> ch_index ch < int (length (pollfds s)) \<and>
      pfd_events pfd = ucast (ch_events ch) \<and>
      (pfd_fd pfd = fd \<or> pfd_fd pfd = - fd - 1 \<and> ch_events ch = 0))"

definition poll_ok :: "PollPoller \<Rightarrow> bool" where
  "poll_ok s \<longleftrightarrow> (\<forall>fd c. pp_channels s fd = Some c \<longrightarrow> slot_ok s fd c) \<and>
     (\<forall>i < length (pollfds s). \<exists>fd c. pp_channels s fd = Some c \<and> ch_index (pp_store s c) = int i)"

definition pp_live :: "PollPoller \<Rightarrow> nat \<Rightarrow> bool" where
  "pp_live s c \<longleftrightarrow> pp_channels s (ch_fd (pp_store s c)) = Some c"

definition pp_removable :: "PollPoller \<Rightarrow> nat \<Rightarrow> bool" where
  "pp_removable s c \<longleftrightarrow>
     pfd_fd (pollfds s ! nat (ch_index (pp_store s c))) = - ch_fd (pp_store s c) - 1"

definition pp_watch :: "PollPoller \<Rightarrow> int \<Rightarrow> 32 word" where
  "pp_watch s n = (if n < 0 then 0 else
     case find (\<lambda>p. pfd_fd p = n) (pollfds s) of None \<Rightarrow> 0 | Some p \<Rightarrow> ucast (pfd_events p))"

section \<open>Lemmas\<close>

lemma short_mask_ucast:
  assumes "short_mask ev"
  shows "ucast (ucast ev :: 16 word) = ev"
proof (rule bit_word_eqI)
  fix n
  have "(0x7FFF :: 32 word) = mask 15" by (simp add: mask_eq_exp_minus_1)
  then have "bit ev n \<Longrightarrow> n < 15"
    using assms unfolding short_mask_def by (metis bit_and_iff bit_mask_iff)
  then show "bit (ucast (ucast ev :: 16 word) :: 32 word) n \<longleftrightarrow> bit ev n"
    by (auto simp: bit_ucast_iff)
qed

lemma short_mask_0 [simp]: "short_mask 0"
  by (simp add: short_mask_def)

lemma short_mask_or: "short_mask a \<Longrightarrow> short_mask b \<Longrightarrow> short_mask (a OR b)"
  by (simp add: short_mask_def bit.conj_disj_distrib2)

lemma short_mask_and:
  assumes "short_mask a"
  shows "short_mask (a AND b)"
proof -
  have "(a AND b) AND 0x7FFF = (a AND 0x7FFF) AND b" by (simp only: ac_simps)
  with assms show ?thesis by (simp add: short_mask_def)
qed

lemma short_mask_methods:
  assumes "short_mask ev"
  shows "short_mask (enableReading ev)" and "short_mask (disableReading ev)"
    and "short_mask (enableWriting ev)" and "short_mask (disableWriting ev)"
    and "short_mask (disableAll ev)"
proof -
  have "short_mask kReadEvent" "short_mask kWriteEvent"
    by (simp_all add: short_mask_def kReadEvent_def kWriteEvent_def poll_flags)
  with assms show "short_mask (enableReading ev)" "short_mask (enableWriting ev)"
    by (simp_all add: enableReading_def enableWriting_def short_mask_or)
  from assms show "short_mask (disableReading ev)" "short_mask (disableWriting ev)" "short_mask (disableAll ev)"
    by (simp_all add: disableReading_def disableWriting_def disableAll_def kNoneEvent_def short_mask_and)
qed

lemma slot_okD:
  assumes "poll_ok s" and "pp_channels s fd = Some c"
  shows "0 \<le> fd" and "ch_fd (pp_store s c) = fd" and "short_mask (ch_events (pp_store s c))"
    and "0 \<le> ch_index (pp_store s c)" and "nat (ch_index (pp_store s c)) < length (pollfds s)"
    and "pfd_events (pollfds s ! nat (ch_index (pp_store s c))) = ucast (ch_events (pp_store s c))"
    and "pfd_fd (pollfds s ! nat (ch_index (pp_store s c))) = fd \<or>
      pfd_fd (pollfds s ! nat (ch_index (pp_store s c))) = - fd - 1 \<and> ch_events (pp_store s c) = 0"
  using assms by (auto simp: poll_ok_def slot_ok_def Let_def nat_less_iff)

lemma slot_owner:
  assumes "poll_ok s" and "i < length (pollfds s)"
  obtains fd c where "pp_channels s fd = Some c" and "ch_index (pp_store s c) = int i"
    and "ch_fd (pp_store s c) = fd" and "0 \<le> fd"
    and "pfd_fd (pollfds s ! i) = fd \<or> pfd_fd (pollfds s ! i) = - fd - 1"
proof -
  obtain fd c where "pp_channels s fd = Some c" "ch_index (pp_store s c) = int i"
    using assms unfolding poll_ok_def by blast
  with slot_okD [OF assms(1) this(1)] that [of fd c] show ?thesis by auto
qed

lemma index_inj:
  assumes "poll_ok s" and "pp_channels s fd = Some c" and "pp_channels s fd' = Some c'"
    and "ch_index (pp_store s c) = ch_index (pp_store s c')"
  shows "fd = fd'" and "c = c'"
proof -
  show "fd = fd'"
    using slot_okD [OF assms(1,2)] slot_okD [OF assms(1,3)] assms(4) by auto
  with assms(2,3) show "c = c'" by simp
qed

lemma poll_watch_live:
  assumes "poll_ok s" and "pp_live s c"
  shows "pp_watch s (ch_fd (pp_store s c)) = ch_events (pp_store s c)"
proof -
  let ?fd = "ch_fd (pp_store s c)" and ?i = "nat (ch_index (pp_store s c))"
  have l: "pp_channels s ?fd = Some c" using assms(2) by (simp add: pp_live_def)
  note d = slot_okD [OF assms(1) l]
  have own: "j = ?i" if j: "j < length (pollfds s)" "pfd_fd (pollfds s ! j) = ?fd" for j
  proof -
    obtain fd' c' where "pp_channels s fd' = Some c'" "ch_index (pp_store s c') = int j" "0 \<le> fd'"
      "pfd_fd (pollfds s ! j) = fd' \<or> pfd_fd (pollfds s ! j) = - fd' - 1"
      using slot_owner [OF assms(1) j(1)] by blast
    with j(2) d(1) have "pp_channels s ?fd = Some c'" "ch_index (pp_store s c') = int j" by auto
    with l show ?thesis by simp
  qed
  show ?thesis
  proof (cases "find (\<lambda>p. pfd_fd p = ?fd) (pollfds s)")
    case None
    then have "pfd_fd (pollfds s ! ?i) \<noteq> ?fd"
      using d(5) by (auto simp: find_None_iff in_set_conv_nth)
    with d(7) None show ?thesis by (simp add: pp_watch_def)
  next
    case (Some p)
    then obtain j where "j < length (pollfds s)" "p = pollfds s ! j" "pfd_fd p = ?fd"
      by (auto simp: find_Some_iff)
    with own have "p = pollfds s ! ?i" by blast
    with Some d show ?thesis by (simp add: pp_watch_def short_mask_ucast)
  qed
qed

lemma poll_watch_none:
  assumes "poll_ok s" and "\<And>c. pp_live s c \<Longrightarrow> ch_fd (pp_store s c) \<noteq> n"
  shows "pp_watch s n = 0"
proof -
  have "pfd_fd (pollfds s ! j) \<noteq> n" if j: "j < length (pollfds s)" "0 \<le> n" for j
  proof
    assume e: "pfd_fd (pollfds s ! j) = n"
    obtain fd c where "pp_channels s fd = Some c" "ch_fd (pp_store s c) = fd" "0 \<le> fd"
      "pfd_fd (pollfds s ! j) = fd \<or> pfd_fd (pollfds s ! j) = - fd - 1"
      using slot_owner [OF assms(1) j(1)] by metis
    with e j(2) assms(2) [of c] show False by (auto simp: pp_live_def)
  qed
  then have "find (\<lambda>p. pfd_fd p = n) (pollfds s) = None" if "0 \<le> n"
    using that by (auto simp: find_None_iff in_set_conv_nth)
  then show ?thesis by (auto simp: pp_watch_def)
qed

subsection \<open>Changing a mask\<close>

text \<open>The states that the two branches of \<^verbatim>\<open>updateChannel\<close> lead to.\<close>

abbreviation with_events :: "nat \<Rightarrow> 32 word \<Rightarrow> PollPoller \<Rightarrow> Channel" where
  "with_events c ev s \<equiv> (pp_store s c)\<lparr>ch_events := ev\<rparr>"

abbreviation after_update :: "nat \<Rightarrow> 32 word \<Rightarrow> PollPoller \<Rightarrow> PollPoller" where
  "after_update c ev s \<equiv> s\<lparr>pollfds := (pollfds s)[nat (ch_index (pp_store s c)) :=
       \<lparr>pfd_fd = (if ev = 0 then - ch_fd (pp_store s c) - 1 else ch_fd (pp_store s c)),
        pfd_events = ucast ev, pfd_revents = 0\<rparr>],
     pp_store := (pp_store s)(c := with_events c ev s)\<rparr>"

abbreviation after_add :: "nat \<Rightarrow> 32 word \<Rightarrow> PollPoller \<Rightarrow> PollPoller" where
  "after_add c ev s \<equiv> s\<lparr>pollfds := pollfds s @
       [\<lparr>pfd_fd = ch_fd (pp_store s c), pfd_events = ucast ev, pfd_revents = 0\<rparr>],
     pp_channels := (pp_channels s)(ch_fd (pp_store s c) \<mapsto> c),
     pp_store := (pp_store s)(c := (with_events c ev s)\<lparr>ch_index := int (length (pollfds s))\<rparr>)\<rparr>"

lemma modify_pp_live:
  assumes "poll_ok s" and "pp_live s c"
  shows "modify_pp c f s = Inr (after_update c (f (ch_events (pp_store s c))) s)"
proof -
  have l: "pp_channels s (ch_fd (pp_store s c)) = Some c" using assms(2) by (simp add: pp_live_def)
  note d = slot_okD [OF assms(1) l]
  show ?thesis
    using l d(1,4,5,7)
    by (auto simp: modify_pp_def updateChannel_pp_def set_channel_def isNoneEvent_def kNoneEvent_def Let_def)
qed

lemma poll_ok_update:
  assumes "poll_ok s" and "pp_live s c" and "short_mask ev"
  shows "poll_ok (after_update c ev s)"
proof -
  let ?i = "nat (ch_index (pp_store s c))" and ?s = "after_update c ev s"
  have l: "pp_channels s (ch_fd (pp_store s c)) = Some c" using assms(2) by (simp add: pp_live_def)
  note d = slot_okD [OF assms(1) l]
  have "slot_ok ?s fd c'" if c': "pp_channels s fd = Some c'" for fd c'
  proof (cases "c' = c")
    case True
    with slot_okD(2) [OF assms(1) c'] have "fd = ch_fd (pp_store s c)" by simp
    with True d assms(3) show ?thesis by (auto simp: slot_ok_def Let_def)
  next
    case False
    then have "ch_index (pp_store s c') \<noteq> ch_index (pp_store s c)"
      using index_inj [OF assms(1) c' l] by blast
    with slot_okD [OF assms(1) c'] d(4) have "nat (ch_index (pp_store s c')) \<noteq> ?i" by simp
    with False slot_okD [OF assms(1) c'] show ?thesis
      by (auto simp: slot_ok_def Let_def)
  qed
  moreover have "\<exists>fd c'. pp_channels s fd = Some c' \<and> ch_index (pp_store ?s c') = int j"
    if j: "j < length (pollfds s)" for j
  proof -
    obtain fd c' where "pp_channels s fd = Some c'" "ch_index (pp_store s c') = int j"
      using slot_owner [OF assms(1) j] by blast
    then show ?thesis by (intro exI [of _ fd] exI [of _ c']) auto
  qed
  ultimately show ?thesis by (simp add: poll_ok_def)
qed

lemma modify_pp_fresh:
  assumes "ch_index (pp_store s c) < 0" and "pp_channels s (ch_fd (pp_store s c)) = None"
    and "0 \<le> ch_fd (pp_store s c)"
  shows "modify_pp c f s = Inr (after_add c (f (ch_events (pp_store s c))) s)"
  using assms by (auto simp: modify_pp_def updateChannel_pp_def set_channel_def Let_def)

lemma poll_ok_add:
  assumes "poll_ok s" and "ch_index (pp_store s c) < 0" and "pp_channels s (ch_fd (pp_store s c)) = None"
    and "0 \<le> ch_fd (pp_store s c)" and "short_mask ev"
  shows "poll_ok (after_add c ev s)"
proof -
  let ?s = "after_add c ev s"
  have ne: "c' \<noteq> c" if "pp_channels s fd = Some c'" for fd c'
    using slot_okD(4) [OF assms(1) that] assms(2) by auto
  have "slot_ok ?s fd c'" if c': "pp_channels ?s fd = Some c'" for fd c'
  proof (cases "fd = ch_fd (pp_store s c)")
    case True
    with c' assms(4,5) show ?thesis by (auto simp: slot_ok_def Let_def)
  next
    case False
    with c' have "pp_channels s fd = Some c'" by simp
    with slot_okD [OF assms(1) this] ne [OF this] show ?thesis
      by (auto simp: slot_ok_def Let_def nth_append)
  qed
  moreover have "\<exists>fd c'. pp_channels ?s fd = Some c' \<and> ch_index (pp_store ?s c') = int j"
    if j: "j < length (pollfds ?s)" for j
  proof (cases "j = length (pollfds s)")
    case True
    then show ?thesis by (intro exI [of _ "ch_fd (pp_store s c)"] exI [of _ c]) simp
  next
    case False
    with j have "j < length (pollfds s)" by simp
    then obtain fd c' where "pp_channels s fd = Some c'" "ch_index (pp_store s c') = int j"
      using slot_owner [OF assms(1)] by blast
    with ne [OF this(1)] assms(3) show ?thesis
      by (intro exI [of _ fd] exI [of _ c']) auto
  qed
  ultimately show ?thesis by (simp add: poll_ok_def)
qed

subsection \<open>Removing a channel\<close>

text \<open>\<open>d\<close> is the channel of the last entry, which moves to the place of the removed one.\<close>

abbreviation after_remove :: "nat \<Rightarrow> nat \<Rightarrow> PollPoller \<Rightarrow> PollPoller" where
  "after_remove c d s \<equiv> s\<lparr>pollfds := (butlast (pollfds s))[nat (ch_index (pp_store s c)) := last (pollfds s)],
     pp_channels := (pp_channels s)(ch_fd (pp_store s c) := None),
     pp_store := (pp_store s)(d := (pp_store s d)\<lparr>ch_index := ch_index (pp_store s c)\<rparr>)\<rparr>"

lemma butlast_swap:
  "i < length xs - Suc 0 \<Longrightarrow> butlast (xs[i := y, length xs - Suc 0 := z]) = (butlast xs)[i := y]"
  by (rule nth_equalityI) (auto simp: nth_butlast nth_list_update)

lemma removeChannel_pp_eq:
  assumes "poll_ok s" and "pp_live s c" and "pp_removable s c" and "ch_events (pp_store s c) = 0"
  obtains fd d where "pp_channels s fd = Some d" and "ch_index (pp_store s d) = int (length (pollfds s) - 1)"
    and "removeChannel_pp c s = Inr (after_remove c d s)"
proof -
  let ?ch = "pp_store s c" and ?n = "length (pollfds s)"
  have l: "pp_channels s (ch_fd ?ch) = Some c" using assms(2) by (simp add: pp_live_def)
  note dd = slot_okD [OF assms(1) l]
  have n: "?n - 1 < ?n" "pollfds s \<noteq> []" using dd(5) by auto
  obtain fd d where d: "pp_channels s fd = Some d" "ch_index (pp_store s d) = int (?n - 1)"
    "ch_fd (pp_store s d) = fd" "0 \<le> fd"
    "pfd_fd (pollfds s ! (?n - 1)) = fd \<or> pfd_fd (pollfds s ! (?n - 1)) = - fd - 1"
    using slot_owner [OF assms(1) n(1)] by blast
  have fd: "(if pfd_fd (last (pollfds s)) < 0 then - pfd_fd (last (pollfds s)) - 1
      else pfd_fd (last (pollfds s))) = fd"
    using d(4,5) n(2) by (auto simp: last_conv_nth)
  have sz: "size_sub ?n (Suc 0) = ?n - 1" "ch_index ?ch < int ?n"
    using n dd(4,5) by (auto simp: size_sub_def Suc_le_eq)
  have "removeChannel_pp c s = Inr (after_remove c d s)"
  proof (cases "nat (ch_index ?ch) = ?n - 1")
    case True
    then have "d = c" using index_inj(2) [OF assms(1) d(1) l] d(2) dd(4) by simp
    then show ?thesis using True l dd assms(3,4) n sz
      by (simp add: removeChannel_pp_def pp_removable_def isNoneEvent_def kNoneEvent_def Let_def
        list_update_beyond)
  next
    case False
    have "fd \<noteq> ch_fd ?ch" using False d(1,2) l dd(4) by (metis nat_int option.inject)
    moreover have "nat (ch_index ?ch) < ?n - 1" using False dd(5) by simp
    ultimately show ?thesis using False l dd assms(3,4) n d(1) fd sz
      by (simp add: removeChannel_pp_def pp_removable_def isNoneEvent_def kNoneEvent_def Let_def
        set_channel_def butlast_swap)
  qed
  with d that show ?thesis by blast
qed

lemma poll_ok_remove:
  assumes "poll_ok s" and "pp_live s c" and "pp_channels s fd = Some d"
    and "ch_index (pp_store s d) = int (length (pollfds s) - 1)"
  shows "poll_ok (after_remove c d s)"
proof -
  let ?i = "ch_index (pp_store s c)" and ?s = "after_remove c d s" and ?n = "length (pollfds s)"
  have l: "pp_channels s (ch_fd (pp_store s c)) = Some c" using assms(2) by (simp add: pp_live_def)
  note i = slot_okD(4,5) [OF assms(1) l]
  have "slot_ok ?s fd' c'" if c': "pp_channels ?s fd' = Some c'" for fd' c'
  proof -
    have c: "pp_channels s fd' = Some c'" "fd' \<noteq> ch_fd (pp_store s c)" using c' by (auto split: if_splits)
    have j: "ch_index (pp_store s c') \<noteq> ?i" using index_inj(1) [OF assms(1) c(1) l] c(2) by blast
    note dd = slot_okD [OF assms(1) c(1)]
    show ?thesis
    proof (cases "c' = d")
      case True
      then have "nat ?i < ?n - 1" using j assms(4) i by auto
      moreover have "nat (ch_index (pp_store s d)) = ?n - 1" by (simp only: assms(4) nat_int)
      then have "last (pollfds s) = pollfds s ! nat (ch_index (pp_store s d))"
        using i(2) last_conv_nth [of "pollfds s"] by fastforce
      ultimately show ?thesis using True dd i by (simp add: slot_ok_def Let_def nat_less_iff)
    next
      case False
      then have "ch_index (pp_store s c') \<noteq> int (?n - 1)"
        using index_inj(2) [OF assms(1) c(1) assms(3)] assms(4) by auto
      with dd(4,5) have "nat (ch_index (pp_store s c')) < ?n - 1" by auto
      moreover have "nat (ch_index (pp_store s c')) \<noteq> nat ?i" using j dd(4) i by simp
      ultimately show ?thesis using False dd by (auto simp: slot_ok_def Let_def nth_butlast)
    qed
  qed
  moreover have "\<exists>fd c'. pp_channels ?s fd = Some c' \<and> ch_index (pp_store ?s c') = int j"
    if j: "j < length (pollfds ?s)" for j
  proof (cases "j = nat ?i")
    case True
    then have "d \<noteq> c" using j assms(4) by auto
    then have "fd \<noteq> ch_fd (pp_store s c)" using assms(3) l by auto
    then show ?thesis using assms(3) True i by (intro exI [of _ fd] exI [of _ d]) auto
  next
    case False
    have "j < ?n" using j by simp
    then obtain fd' c' where c': "pp_channels s fd' = Some c'" "ch_index (pp_store s c') = int j"
      using slot_owner [OF assms(1)] by blast
    have "c' \<noteq> d" using c' assms(4) j by auto
    moreover have "fd' \<noteq> ch_fd (pp_store s c)" using c' l False by auto
    ultimately show ?thesis using c' by (intro exI [of _ fd'] exI [of _ c']) auto
  qed
  ultimately show ?thesis by (simp add: poll_ok_def)
qed

section \<open>The poll poller is a poller\<close>

lemma poll_ok_new [simp]: "poll_ok (PollPoller_new cs)"
  by (simp add: poll_ok_def PollPoller_new_def)

lemma pp_none:
  assumes "poll_ok s" and "\<forall>c'. pp_live s c' \<longrightarrow> ch_fd (pp_store s c') \<noteq> fd"
  shows "pp_channels s fd = None"
proof (rule ccontr)
  assume "pp_channels s fd \<noteq> None"
  then obtain d where d: "pp_channels s fd = Some d" by blast
  with slot_okD(2) [OF assms(1) d] assms(2) [rule_format, of d] show False by (simp add: pp_live_def)
qed

lemma poll_modify_law:
  assumes "poll_ok s" and "0 \<le> ch_fd (pp_store s c)"
    and "pp_live s c \<or> ch_index (pp_store s c) < 0 \<and>
      (\<forall>c'. pp_live s c' \<longrightarrow> ch_fd (pp_store s c') \<noteq> ch_fd (pp_store s c))"
    and "short_mask (f (ch_events (pp_store s c)))"
  shows "\<exists>s'. modify_pp c f s = Inr s' \<and> poll_ok s' \<and> (\<forall>c'. pp_live s' c' = (pp_live s c' \<or> c' = c)) \<and>
      (\<lambda>c. ch_fd (pp_store s' c)) = (\<lambda>c. ch_fd (pp_store s c)) \<and>
      (\<lambda>c. ch_events (pp_store s' c)) = (\<lambda>c. ch_events (pp_store s c))(c := f (ch_events (pp_store s c))) \<and>
      (pp_live s c \<longrightarrow> f (ch_events (pp_store s c)) = 0 \<longrightarrow> pp_removable s' c)"
proof (cases "pp_live s c")
  case True
  then have l: "pp_channels s (ch_fd (pp_store s c)) = Some c" by (simp add: pp_live_def)
  show ?thesis
    unfolding modify_pp_live [OF assms(1) True]
    using l slot_okD(5) [OF assms(1) l] poll_ok_update [OF assms(1) True assms(4)]
    by - (intro exI conjI, rule refl, auto simp: pp_live_def pp_removable_def)
next
  case False
  then have f: "ch_index (pp_store s c) < 0" and none: "pp_channels s (ch_fd (pp_store s c)) = None"
    using assms(3) pp_none [OF assms(1)] by blast+
  have ne: "pp_channels s fd \<noteq> Some c" for fd
    using slot_okD(4) [OF assms(1), of fd c] f by auto
  show ?thesis
    unfolding modify_pp_fresh [OF f none assms(2)]
    using poll_ok_add [OF assms(1) f none assms(2,4)] False none ne
    by - (intro exI conjI, rule refl, auto simp: pp_live_def)
qed

lemma poll_remove_law:
  assumes "poll_ok s" and "pp_live s c" and "pp_removable s c" and "ch_events (pp_store s c) = 0"
  shows "\<exists>s'. removeChannel_pp c s = Inr s' \<and> poll_ok s' \<and> (\<forall>c'. pp_live s' c' = (pp_live s c' \<and> c' \<noteq> c)) \<and>
      (\<lambda>c. ch_fd (pp_store s' c)) = (\<lambda>c. ch_fd (pp_store s c)) \<and>
      (\<lambda>c. ch_events (pp_store s' c)) = (\<lambda>c. ch_events (pp_store s c))"
proof -
  obtain fd d where d: "pp_channels s fd = Some d" "ch_index (pp_store s d) = int (length (pollfds s) - 1)"
    "removeChannel_pp c s = Inr (after_remove c d s)"
    using removeChannel_pp_eq [OF assms] by blast
  show ?thesis
    unfolding d(3) using poll_ok_remove [OF assms(1,2) d(1,2)] assms(2)
    by - (intro exI conjI, rule refl, auto simp: pp_live_def)
qed

interpretation pollp: poller poll_ok pp_live "\<lambda>s :: PollPoller. \<lambda>c. ch_index (pp_store s c) < 0"
  "\<lambda>s :: PollPoller. \<lambda>n. 0 \<le> n" pp_removable "\<lambda>s :: PollPoller. \<lambda>c. ch_fd (pp_store s c)" "\<lambda>s :: PollPoller. \<lambda>c. ch_events (pp_store s c)"
  short_mask pp_watch modify_pp removeChannel_pp
proof (unfold_locales, goal_cases)
  case 1 then show ?case by (rule poll_watch_live)
next
  case 2 then show ?case by (rule poll_watch_none)
next
  case 3 then show ?case by (simp add: pp_live_def)
next
  case 4 then show ?case using poll_modify_law by simp
next
  case 5 then show ?case by (rule poll_remove_law)
next
  case 6 show ?case by simp
qed

section \<open>Reporting events\<close>

definition report :: "nat \<Rightarrow> 16 word \<Rightarrow> PollPoller \<Rightarrow> PollPoller" where
  "report c r s = set_channel c (setRevents (scast r) (pp_store s c)) s"

lemma report_frame [simp]:
  "pp_channels (report c r s) = pp_channels s"
  "pollfds (report c r s) = pollfds s"
  "ch_fd (pp_store (report c r s) d) = ch_fd (pp_store s d)"
  "ch_index (pp_store (report c r s) d) = ch_index (pp_store s d)"
  "ch_events (pp_store (report c r s) d) = ch_events (pp_store s d)"
  "ch_revents (pp_store (report c r s) d) = (if d = c then scast r else ch_revents (pp_store s d))"
  by (simp_all add: report_def set_channel_def setRevents_def)

abbreviation report_all :: "(pollfd \<Rightarrow> nat) \<Rightarrow> pollfd list \<Rightarrow> PollPoller \<Rightarrow> PollPoller" where
  "report_all own ps \<equiv> fold (\<lambda>p. report (own p) (pfd_revents p)) ps"

lemma report_all_frame [simp]:
  "pp_channels (report_all own ps s) = pp_channels s"
  "pollfds (report_all own ps s) = pollfds s"
  "ch_fd (pp_store (report_all own ps s) d) = ch_fd (pp_store s d)"
  "ch_index (pp_store (report_all own ps s) d) = ch_index (pp_store s d)"
  "ch_events (pp_store (report_all own ps s) d) = ch_events (pp_store s d)"
  by (induction ps arbitrary: s) simp_all

lemma report_all_revents:
  "inj_on own (set ps) \<Longrightarrow> distinct ps \<Longrightarrow> p \<in> set ps \<Longrightarrow>
    ch_revents (pp_store (report_all own ps s) (own p)) = scast (pfd_revents p)"
proof (induction ps rule: rev_induct)
  case (snoc q ps)
  then show ?case
    by (cases "p = q") (auto simp: inj_on_def)
qed simp

abbreviation hits :: "pollfd list \<Rightarrow> pollfd list" where
  "hits ps \<equiv> filter (\<lambda>p. sint (pfd_revents p) > 0) ps"

lemma fill_loop_eq:
  assumes "\<And>p. p \<in> set (hits ps) \<Longrightarrow> pp_channels s (pfd_fd p) = Some (own p) \<and> ch_fd (pp_store s (own p)) = pfd_fd p"
    and "k + int (length (hits ps)) = n"
  shows "fill_loop ps n k act s = Inr (act @ map own (hits ps), report_all own (hits ps) s)"
  using assms
proof (induction ps arbitrary: k act s)
  case (Cons p ps)
  show ?case
  proof (cases "sint (pfd_revents p) > 0")
    case True
    let ?s = "report (own p) (pfd_revents p) s"
    have p: "pp_channels s (pfd_fd p) = Some (own p)" "ch_fd (pp_store s (own p)) = pfd_fd p"
      using Cons.prems(1) [of p] True by auto
    have "pp_channels ?s (pfd_fd q) = Some (own q) \<and> ch_fd (pp_store ?s (own q)) = pfd_fd q"
      if "q \<in> set (hits ps)" for q
      using Cons.prems(1) [of q] True that by simp
    then have IH: "fill_loop ps n (k + 1) (act @ [own p]) ?s =
        Inr ((act @ [own p]) @ map own (hits ps), report_all own (hits ps) ?s)"
      using Cons.prems(2) True by (intro Cons.IH) auto
    have "hits ps = []" if "k + 1 = n" using Cons.prems(2) True that by (cases "hits ps") auto
    with IH True p show ?thesis by (simp add: report_def [symmetric] Let_def)
  next
    case False
    with Cons.IH [of s k act] Cons.prems show ?thesis by simp
  qed
qed simp

lemma pollfds_distinct:
  assumes "poll_ok s"
  shows "distinct (map pfd_fd (pollfds s))"
  unfolding distinct_conv_nth
proof (intro allI impI)
  fix i j
  assume ij: "i < length (map pfd_fd (pollfds s))" "j < length (map pfd_fd (pollfds s))" "i \<noteq> j"
  obtain fd c where c: "pp_channels s fd = Some c" "ch_index (pp_store s c) = int i" "0 \<le> fd"
    "pfd_fd (pollfds s ! i) = fd \<or> pfd_fd (pollfds s ! i) = - fd - 1"
    using slot_owner [OF assms, of i] ij(1) unfolding length_map by blast
  obtain fd' c' where c': "pp_channels s fd' = Some c'" "ch_index (pp_store s c') = int j" "0 \<le> fd'"
    "pfd_fd (pollfds s ! j) = fd' \<or> pfd_fd (pollfds s ! j) = - fd' - 1"
    using slot_owner [OF assms, of j] ij(2) unfolding length_map by blast
  have "fd \<noteq> fd'" using c(1,2) c'(1,2) ij(3) by auto
  with c(3,4) c'(3,4) have "pfd_fd (pollfds s ! i) \<noteq> pfd_fd (pollfds s ! j)" by linarith
  with ij show "map pfd_fd (pollfds s) ! i \<noteq> map pfd_fd (pollfds s) ! j" by simp
qed

text \<open>What \<^verbatim>\<open>poll(2)\<close> promises: one result per entry, the number of entries with a result, no result
  for an entry with a negative descriptor, and only flags that fit a positive \<^verbatim>\<open>short\<close>.\<close>

definition poll_result_ok :: "pollfd list \<Rightarrow> int \<Rightarrow> 16 word list \<Rightarrow> bool" where
  "poll_result_ok ps n rs \<longleftrightarrow> length rs = length ps \<and> n = int (length (filter (\<lambda>r. r \<noteq> 0) rs)) \<and>
     (\<forall>i < length ps. 0 \<le> sint (rs ! i) \<and> (pfd_fd (ps ! i) < 0 \<longrightarrow> rs ! i = 0))"

lemma with_revents_simps [simp]:
  "with_revents [] [] = []"
  "with_revents (p # ps) (r # rs) = p\<lparr>pfd_revents := r\<rparr> # with_revents ps rs"
  "length rs = length ps \<Longrightarrow> length (with_revents ps rs) = length ps"
  "length rs = length ps \<Longrightarrow> i < length ps \<Longrightarrow> with_revents ps rs ! i = (ps ! i)\<lparr>pfd_revents := rs ! i\<rparr>"
  by (simp_all add: with_revents_def)

lemma hits_count:
  assumes "poll_result_ok ps n rs"
  shows "int (length (hits (with_revents ps rs))) = n"
proof -
  have len: "length ps = length rs" and pos: "\<forall>r \<in> set rs. 0 \<le> sint r"
    using assms by (auto simp: poll_result_ok_def in_set_conv_nth)
  have "length (hits (with_revents ps rs)) = length (filter (\<lambda>r. r \<noteq> 0) rs)"
    using len pos
  proof (induction ps rs rule: list_induct2)
    case (Cons p ps r rs)
    then have "0 < sint r \<longleftrightarrow> r \<noteq> 0" by (auto simp: less_le signed_eq_0_iff)
    with Cons show ?case by simp
  qed simp
  with assms show ?thesis by (simp add: poll_result_ok_def)
qed

lemma poll_ok_report:
  assumes "poll_ok s" and "length rs = length (pollfds s)"
  shows "poll_ok (report_all own ps (s\<lparr>pollfds := with_revents (pollfds s) rs\<rparr>))"
proof -
  have "slot_ok (report_all own ps (s\<lparr>pollfds := with_revents (pollfds s) rs\<rparr>)) fd c"
    if "pp_channels s fd = Some c" for fd c
    using slot_okD [OF assms(1) that] assms(2) by (simp add: slot_ok_def Let_def nat_less_iff)
  with assms show ?thesis by (simp add: poll_ok_def)
qed

lemma hit_owner:
  assumes "poll_ok s" and "poll_result_ok (pollfds s) n rs" and "p \<in> set (hits (with_revents (pollfds s) rs))"
    and "c = the (pp_channels s (pfd_fd p))"
  shows "pp_channels s (pfd_fd p) = Some c" and "ch_fd (pp_store s c) = pfd_fd p"
    and "pfd_revents p = rs ! nat (ch_index (pp_store s c))" and "pfd_revents p \<noteq> 0"
proof -
  obtain i where i: "i < length (pollfds s)" "p = (pollfds s ! i)\<lparr>pfd_revents := rs ! i\<rparr>" "0 < sint (rs ! i)"
    using assms(2,3) by (fastforce simp: poll_result_ok_def in_set_conv_nth)
  then have "0 \<le> pfd_fd (pollfds s ! i)" "rs ! i \<noteq> 0"
    using assms(2) by (auto simp: poll_result_ok_def not_less [symmetric])
  moreover obtain fd d where "pp_channels s fd = Some d" "ch_index (pp_store s d) = int i"
    "ch_fd (pp_store s d) = fd" "0 \<le> fd" "pfd_fd (pollfds s ! i) = fd \<or> pfd_fd (pollfds s ! i) = - fd - 1"
    using slot_owner [OF assms(1) i(1)] by blast
  ultimately show "pp_channels s (pfd_fd p) = Some c" "ch_fd (pp_store s c) = pfd_fd p"
    "pfd_revents p = rs ! nat (ch_index (pp_store s c))" "pfd_revents p \<noteq> 0"
    using assms(4) i(2) by auto
qed

lemma hit_of_live:
  assumes "poll_ok s" and "poll_result_ok (pollfds s) n rs" and "pp_live s c"
    and "rs ! nat (ch_index (pp_store s c)) \<noteq> 0"
  obtains p where "p \<in> set (hits (with_revents (pollfds s) rs))" and "pfd_fd p = ch_fd (pp_store s c)"
proof -
  let ?i = "nat (ch_index (pp_store s c))"
  have l: "pp_channels s (ch_fd (pp_store s c)) = Some c" using assms(3) by (simp add: pp_live_def)
  note d = slot_okD [OF assms(1) l]
  let ?p = "(pollfds s ! ?i)\<lparr>pfd_revents := rs ! ?i\<rparr>"
  have len: "length rs = length (pollfds s)" using assms(2) by (simp add: poll_result_ok_def)
  have "0 < sint (rs ! ?i)" "\<not> pfd_fd (pollfds s ! ?i) < 0"
    using assms(2,4) d(5) by (auto simp: poll_result_ok_def less_le signed_eq_0_iff)
  moreover have "with_revents (pollfds s) rs ! ?i = ?p" using d(5) len by simp
  then have "?p \<in> set (with_revents (pollfds s) rs)"
    using d(5) len by (metis nth_mem with_revents_simps(3))
  ultimately show ?thesis using that [of ?p] d(1,7) by auto
qed

lemma with_revents_fds: "length rs = length ps \<Longrightarrow> map pfd_fd (with_revents ps rs) = map pfd_fd ps"
  by (rule nth_equalityI) auto

lemma owners_distinct:
  assumes "distinct (map pfd_fd ps)" and "\<And>p. p \<in> set ps \<Longrightarrow> f (own p) = pfd_fd p"
  shows "inj_on own (set ps)" and "distinct (map own ps)" and "distinct ps"
proof -
  have "inj_on pfd_fd (set ps)" and d: "distinct ps" using assms(1) by (auto simp: distinct_map)
  then show i: "inj_on own (set ps)" using assms(2) unfolding inj_on_def by metis
  show "distinct ps" by (rule d)
  with i show "distinct (map own ps)" by (simp add: distinct_map)
qed

lemma poll_pp_eq:
  assumes "poll_ok s" and "poll_result_ok (pollfds s) n rs" and "sys_poll (pollfds s) = (n, rs)"
  shows "poll_pp sys_poll s =
    Inr (map (\<lambda>p. the (pp_channels s (pfd_fd p))) (hits (with_revents (pollfds s) rs)),
      report_all (\<lambda>p. the (pp_channels s (pfd_fd p))) (hits (with_revents (pollfds s) rs))
        (s\<lparr>pollfds := with_revents (pollfds s) rs\<rparr>))"
proof -
  let ?s = "s\<lparr>pollfds := with_revents (pollfds s) rs\<rparr>" and ?ps = "with_revents (pollfds s) rs" and ?own = "\<lambda>p. the (pp_channels s (pfd_fd p))"
  have "fill_loop ?ps n 0 [] ?s = Inr ([] @ map ?own (hits ?ps), report_all ?own (hits ?ps) ?s)"
  proof (rule fill_loop_eq)
    fix p
    assume "p \<in> set (hits ?ps)"
    from hit_owner(1,2) [OF assms(1,2) this refl] show "pp_channels ?s (pfd_fd p) = Some (?own p) \<and> ch_fd (pp_store ?s (?own p)) = pfd_fd p"
      by simp
  qed (simp only: hits_count [OF assms(2)] add_0)
  moreover have "hits (with_revents (pollfds s) rs) = []" if "\<not> n > 0"
    using hits_count [OF assms(2)] that by (cases "hits (with_revents (pollfds s) rs)") auto
  ultimately show ?thesis using assms(3) by (simp add: poll_pp_def fillActiveChannels_pp_def Let_def)
qed

section \<open>Properties\<close>

text \<open>
  C22. \<^verbatim>\<open>PollPoller::poll\<close> reports exactly the registered channels for which \<^verbatim>\<open>poll(2)\<close> returned events, each
  once and with the events returned for it, no assertion fails, and the invariant that ties channels
  to entries of the array is kept.
\<close>

theorem pollpoller_poll_exact:
  assumes "poll_ok s" and "sys_poll (pollfds s) = (n, rs)" and "poll_result_ok (pollfds s) n rs"
  shows "\<exists>act s'. poll_pp sys_poll s = Inr (act, s') \<and> poll_ok s' \<and> distinct act \<and>
    (\<forall>c. c \<in> set act \<longleftrightarrow> pp_live s c \<and> rs ! nat (ch_index (pp_store s c)) \<noteq> 0) \<and>
    (\<forall>c \<in> set act. ch_revents (pp_store s' c) = scast (rs ! nat (ch_index (pp_store s c))))"
proof -
  let ?ps = "with_revents (pollfds s) rs" and ?own = "\<lambda>p. the (pp_channels s (pfd_fd p))"
  let ?act = "map ?own (hits ?ps)" and ?s = "report_all ?own (hits ?ps) (s\<lparr>pollfds := with_revents (pollfds s) rs\<rparr>)"
  have len: "length rs = length (pollfds s)" using assms(3) by (simp add: poll_result_ok_def)
  note owner = hit_owner [OF assms(1,3)]
  have fds: "distinct (map pfd_fd (hits ?ps))"
    by (rule distinct_map_filter) (simp only: with_revents_fds [OF len] pollfds_distinct [OF assms(1)])
  have "ch_fd (pp_store s (?own p)) = pfd_fd p" if "p \<in> set (hits ?ps)" for p
    by (rule owner(2) [OF that refl])
  note dist = owners_distinct [where own = ?own and f = "\<lambda>c. ch_fd (pp_store s c)", OF fds this]
  have mem: "c \<in> set ?act \<longleftrightarrow> pp_live s c \<and> rs ! nat (ch_index (pp_store s c)) \<noteq> 0" for c
  proof
    assume "c \<in> set ?act"
    then obtain p where p: "p \<in> set (hits ?ps)" "c = ?own p" unfolding set_map by blast
    show "pp_live s c \<and> rs ! nat (ch_index (pp_store s c)) \<noteq> 0"
      using owner [OF p] by (simp add: pp_live_def)
  next
    assume c: "pp_live s c \<and> rs ! nat (ch_index (pp_store s c)) \<noteq> 0"
    then obtain p where p: "p \<in> set (hits ?ps)" "pfd_fd p = ch_fd (pp_store s c)"
      using hit_of_live [OF assms(1,3), of c] by blast
    have "c = ?own p" using c p(2) by (simp add: pp_live_def)
    then show "c \<in> set ?act" unfolding set_map by (rule image_eqI) (rule p(1))
  qed
  have rev: "ch_revents (pp_store ?s c) = scast (rs ! nat (ch_index (pp_store s c)))" if "c \<in> set ?act" for c
  proof -
    obtain p where p: "p \<in> set (hits ?ps)" "c = ?own p" using \<open>c \<in> set ?act\<close> unfolding set_map by blast
    show ?thesis
      using report_all_revents [OF dist(1,3) p(1)] owner(3) [OF p] unfolding p(2) [symmetric] by simp
  qed
  show ?thesis
  proof (intro exI conjI allI ballI)
    show "poll_pp sys_poll s = Inr (?act, ?s)" by (rule poll_pp_eq [where sys_poll = sys_poll, OF assms(1,3,2)])
    show "poll_ok ?s" by (rule poll_ok_report [OF assms(1) len])
    show "distinct ?act" by (rule dist(2))
  qed (rule mem, erule rev)
qed

theorem pollpoller_poll_exact_witness:
  "\<exists>act s'. poll_pp (\<lambda>_. (1, [1])) (after_add 0 3 (PollPoller_new (\<lambda>_. Channel_new 7))) = Inr (act, s') \<and>
     poll_ok s' \<and> 0 \<in> set act \<and> ch_revents (pp_store s' 0) = 1"
proof -
  let ?s = "after_add 0 3 (PollPoller_new (\<lambda>_. Channel_new 7))"
  have "poll_ok ?s"
    by (rule poll_ok_add) (simp_all add: PollPoller_new_def Channel_new_def short_mask_def poll_ok_def)
  moreover have "poll_result_ok (pollfds ?s) 1 [1]"
    by (simp add: PollPoller_new_def Channel_new_def poll_result_ok_def)
  ultimately show ?thesis
    using pollpoller_poll_exact [of ?s "\<lambda>_. (1, [1])" 1 "[1]"]
    by (auto simp: pp_live_def PollPoller_new_def Channel_new_def)
qed

text \<open>
  C23. A channel that is not registered can be registered with any mask, cleared and removed without an
  assertion failing; in between exactly its mask is watched, and afterwards \<^verbatim>\<open>poll(2)\<close> watches what it
  watched before, although the removal moves the last entry of the array into the gap.
\<close>

theorem pollpoller_lifecycle:
  assumes "poll_ok s" and "0 \<le> ch_fd (pp_store s c)" and "ch_index (pp_store s c) < 0"
    and "\<forall>c'. pp_live s c' \<longrightarrow> ch_fd (pp_store s c') \<noteq> ch_fd (pp_store s c)"
    and "short_mask (f (ch_events (pp_store s c)))"
  shows "\<exists>s1 s2 s3. modify_pp c f s = Inr s1 \<and> pp_watch s1 (ch_fd (pp_store s c)) = f (ch_events (pp_store s c)) \<and>
    modify_pp c disableAll s1 = Inr s2 \<and> removeChannel_pp c s2 = Inr s3 \<and>
    poll_ok s3 \<and> \<not> pp_live s3 c \<and> pp_watch s3 = pp_watch s"
  using assms by (rule pollp.lifecycle)

theorem pollpoller_lifecycle_witness:
  "\<exists>s1 s2 s3. modify_pp 0 enableReading (PollPoller_new (\<lambda>_. Channel_new 7)) = Inr s1 \<and>
     pp_watch s1 7 = kReadEvent \<and> modify_pp 0 disableAll s1 = Inr s2 \<and> removeChannel_pp 0 s2 = Inr s3 \<and>
     poll_ok s3 \<and> pp_watch s3 7 = 0"
proof -
  let ?s = "PollPoller_new (\<lambda>_. Channel_new 7)"
  have "ch_fd (pp_store ?s 0) = 7" "ch_events (pp_store ?s 0) = 0" "ch_index (pp_store ?s 0) < 0"
    "\<not> pp_live ?s c" "enableReading 0 = kReadEvent" "pp_watch ?s 7 = 0" for c
    by (simp_all add: PollPoller_new_def Channel_new_def pp_live_def enableReading_def pp_watch_def)
  moreover have "short_mask (enableReading 0)" by (rule short_mask_methods) simp
  ultimately show ?thesis
    using pollpoller_lifecycle [of ?s 0 enableReading] by auto
qed

end
