(* ===== verification/Wepoll_Port.thy ===== *)
theory Wepoll_Port
  imports Channel
begin

text \<open>
  \<^verbatim>\<open>dependencies/wepoll/wepoll.c\<close>: the epoll emulation on top of the Windows AFD driver, from the poll
  groups to \<^verbatim>\<open>port_wait\<close>.

  A port holds the sockets it watches (\<open>sock_state\<close>), each with one poll operation that is idle, in
  flight or cancelled. Addresses of sockets and poll groups are natural numbers, and the heap is the
  pair of maps \<open>socks\<close> and \<open>groups\<close>; reading a freed object is a fault. The intrusive queues are lists
  and the red-black tree a map here; \<open>Wepoll_Queue\<close> and \<open>Wepoll_Tree\<close> model their pointers. The calls of
  the operating system are the record \<open>win_os\<close>, whose functions are asked with the number of calls
  made so far, so every sequence of answers is possible. The lock of the port serialises all of its
  functions except for the wait for completions, where \<open>port__poll\<close> is split and the control operations
  of other threads may run.
\<close>

unbundle bit_operations_syntax

section \<open>Flags\<close>

definition EPOLLIN :: "32 word" where "EPOLLIN = 0x1"
definition EPOLLPRI :: "32 word" where "EPOLLPRI = 0x2"
definition EPOLLOUT :: "32 word" where "EPOLLOUT = 0x4"
definition EPOLLERR :: "32 word" where "EPOLLERR = 0x8"
definition EPOLLHUP :: "32 word" where "EPOLLHUP = 0x10"
definition EPOLLRDNORM :: "32 word" where "EPOLLRDNORM = 0x40"
definition EPOLLRDBAND :: "32 word" where "EPOLLRDBAND = 0x80"
definition EPOLLWRNORM :: "32 word" where "EPOLLWRNORM = 0x100"
definition EPOLLWRBAND :: "32 word" where "EPOLLWRBAND = 0x200"
definition EPOLLMSG :: "32 word" where "EPOLLMSG = 0x400"
definition EPOLLRDHUP :: "32 word" where "EPOLLRDHUP = 0x2000"
definition EPOLLEVENT :: "32 word" where "EPOLLEVENT = 0x4000"
definition EPOLLONESHOT :: "32 word" where "EPOLLONESHOT = 0x80000000"

lemmas epoll_flags = EPOLLIN_def EPOLLPRI_def EPOLLOUT_def EPOLLERR_def EPOLLHUP_def EPOLLRDNORM_def
  EPOLLRDBAND_def EPOLLWRNORM_def EPOLLWRBAND_def EPOLLMSG_def EPOLLRDHUP_def EPOLLEVENT_def EPOLLONESHOT_def

definition AFD_POLL_RECEIVE :: "32 word" where "AFD_POLL_RECEIVE = 0x1"
definition AFD_POLL_RECEIVE_EXPEDITED :: "32 word" where "AFD_POLL_RECEIVE_EXPEDITED = 0x2"
definition AFD_POLL_SEND :: "32 word" where "AFD_POLL_SEND = 0x4"
definition AFD_POLL_DISCONNECT :: "32 word" where "AFD_POLL_DISCONNECT = 0x8"
definition AFD_POLL_ABORT :: "32 word" where "AFD_POLL_ABORT = 0x10"
definition AFD_POLL_LOCAL_CLOSE :: "32 word" where "AFD_POLL_LOCAL_CLOSE = 0x20"
definition AFD_POLL_ACCEPT :: "32 word" where "AFD_POLL_ACCEPT = 0x80"
definition AFD_POLL_CONNECT_FAIL :: "32 word" where "AFD_POLL_CONNECT_FAIL = 0x100"

lemmas afd_flags = AFD_POLL_RECEIVE_def AFD_POLL_RECEIVE_EXPEDITED_def AFD_POLL_SEND_def
  AFD_POLL_DISCONNECT_def AFD_POLL_ABORT_def AFD_POLL_LOCAL_CLOSE_def AFD_POLL_ACCEPT_def AFD_POLL_CONNECT_FAIL_def

definition SOCK__KNOWN_EPOLL_EVENTS :: "32 word" where
  "SOCK__KNOWN_EPOLL_EVENTS =
     EPOLLIN OR EPOLLPRI OR EPOLLOUT OR EPOLLERR OR EPOLLHUP OR EPOLLRDNORM OR
     EPOLLRDBAND OR EPOLLWRNORM OR EPOLLWRBAND OR EPOLLMSG OR EPOLLRDHUP"

section \<open>State\<close>

datatype win_error =
    ERROR_INVALID_PARAMETER
  | ERROR_INVALID_HANDLE
  | ERROR_NOT_ENOUGH_MEMORY
  | ERROR_ALREADY_EXISTS
  | ERROR_NOT_FOUND
  | ERROR_IO_PENDING
  | WAIT_TIMEOUT
  | WSAENOTSOCK
  | Other_Error nat

text \<open>The answers of the operating system to the n-th call; \<open>None\<close> is success.\<close>

record win_os =
  malloc_ok :: "nat \<Rightarrow> bool"
  afd_create_device_handle :: "nat \<Rightarrow> win_error option"
  afd_poll :: "nat \<Rightarrow> win_error option"
  afd_cancel_poll :: "nat \<Rightarrow> win_error option"
  get_base_socket :: "nat \<Rightarrow> win_error + nat"

datatype sock__poll_status = SOCK__POLL_IDLE | SOCK__POLL_PENDING | SOCK__POLL_CANCELLED

record sock_state =
  tree_key :: nat
  poll_group :: nat
  base_socket :: nat
  user_data :: nat
  user_events :: "32 word"
  pending_events :: "32 word"
  poll_status :: sock__poll_status
  delete_pending :: bool
  poll_info_events :: "32 word"

record epoll_event =
  ev_events :: "32 word"
  ev_data :: nat

record port_state =
  iocp_handle :: "nat option"
  sock_tree :: "nat \<rightharpoonup> nat"
  sock_update_queue :: "nat list"
  sock_deleted_queue :: "nat list"
  poll_group_queue :: "nat list"
  active_poll_count :: nat
  socks :: "nat \<rightharpoonup> sock_state"
  groups :: "nat \<rightharpoonup> nat"
  next_address :: nat
  os_calls :: nat

type_synonym 'a port_call = "port_state \<Rightarrow> ((win_error + 'a) \<times> port_state) result"

definition POLL_GROUP__MAX_GROUP_SIZE :: nat where
  "POLL_GROUP__MAX_GROUP_SIZE = 32"

definition INVALID_SOCKET :: nat where
  "INVALID_SOCKET = 2 ^ 64 - 1"

definition port_new :: "nat \<Rightarrow> port_state" where
  "port_new iocp =
     \<lparr>iocp_handle = Some iocp, sock_tree = Map.empty, sock_update_queue = [], sock_deleted_queue = [],
      poll_group_queue = [], active_poll_count = 0, socks = Map.empty, groups = Map.empty,
      next_address = 0, os_calls = 0\<rparr>"

definition os_call :: "port_state \<Rightarrow> port_state" where
  "os_call s = s\<lparr>os_calls := Suc (os_calls s)\<rparr>"

definition with_sock :: "nat \<Rightarrow> (sock_state \<Rightarrow> 'a port_call) \<Rightarrow> 'a port_call" where
  "with_sock i f s = (case socks s i of None \<Rightarrow> Inl UseAfterFree | Some k \<Rightarrow> f k s)"

definition set_sock :: "nat \<Rightarrow> sock_state \<Rightarrow> port_state \<Rightarrow> port_state" where
  "set_sock i k s = s\<lparr>socks := (socks s)(i \<mapsto> k)\<rparr>"

section \<open>Queues of sockets\<close>

text \<open>A socket has one queue node, so it is in one queue at most and is removed from whichever it is in.\<close>

definition sock_enqueued :: "nat \<Rightarrow> port_state \<Rightarrow> bool" where
  "sock_enqueued i s \<longleftrightarrow> i \<in> set (sock_update_queue s) \<or> i \<in> set (sock_deleted_queue s)"

definition sock_queue_remove :: "nat \<Rightarrow> port_state \<Rightarrow> port_state" where
  "sock_queue_remove i s =
     s\<lparr>sock_update_queue := remove1 i (sock_update_queue s),
       sock_deleted_queue := remove1 i (sock_deleted_queue s)\<rparr>"

definition port_request_socket_update :: "nat \<Rightarrow> port_state \<Rightarrow> port_state" where
  "port_request_socket_update i s =
     (if sock_enqueued i s then s else s\<lparr>sock_update_queue := sock_update_queue s @ [i]\<rparr>)"

definition port_cancel_socket_update :: "nat \<Rightarrow> port_state \<Rightarrow> port_state" where
  "port_cancel_socket_update i s = (if \<not> sock_enqueued i s then s else sock_queue_remove i s)"

definition port_add_deleted_socket :: "nat \<Rightarrow> port_state \<Rightarrow> port_state" where
  "port_add_deleted_socket i s =
     (if sock_enqueued i s then s else s\<lparr>sock_deleted_queue := sock_deleted_queue s @ [i]\<rparr>)"

definition port_remove_deleted_socket :: "nat \<Rightarrow> port_state \<Rightarrow> port_state" where
  "port_remove_deleted_socket i s = (if \<not> sock_enqueued i s then s else sock_queue_remove i s)"

section \<open>Poll groups\<close>

definition poll_group__new :: "win_os \<Rightarrow> nat port_call" where
  "poll_group__new os s =
     assert_that (iocp_handle s \<noteq> None)
     (let s1 = os_call s in
      if \<not> malloc_ok os (os_calls s) then Inr (Inl ERROR_NOT_ENOUGH_MEMORY, s1)
      else case afd_create_device_handle os (os_calls s1) of
          Some e \<Rightarrow> Inr (Inl e, os_call s1)
        | None \<Rightarrow>
            (let g = next_address s1 in
             Inr (Inr g, (os_call s1)\<lparr>groups := (groups s1)(g \<mapsto> 0), next_address := Suc g,
                 poll_group_queue := poll_group_queue s1 @ [g]\<rparr>)))"

definition poll_group_delete :: "nat \<Rightarrow> port_state \<Rightarrow> port_state result" where
  "poll_group_delete g s =
     (case groups s g of
        None \<Rightarrow> Inl UseAfterFree
      | Some n \<Rightarrow> assert_that (n = 0)
          (Inr (s\<lparr>poll_group_queue := remove1 g (poll_group_queue s), groups := (groups s)(g := None)\<rparr>)))"

definition group_join :: "nat \<Rightarrow> nat port_call" where
  "group_join g s =
     (case groups s g of
        None \<Rightarrow> Inl UseAfterFree
      | Some n \<Rightarrow>
          (let s1 = s\<lparr>groups := (groups s)(g \<mapsto> Suc n)\<rparr> in
           Inr (Inr g,
             if Suc n = POLL_GROUP__MAX_GROUP_SIZE
             then s1\<lparr>poll_group_queue := g # remove1 g (poll_group_queue s1)\<rparr> else s1)))"

definition poll_group_acquire :: "win_os \<Rightarrow> nat port_call" where
  "poll_group_acquire os s =
     (let make = and_then (poll_group__new os s) (\<lambda>(r, s1).
          case r of Inl e \<Rightarrow> Inr (Inl e, s1) | Inr g \<Rightarrow> group_join g s1) in
      if poll_group_queue s = [] then make
      else case groups s (last (poll_group_queue s)) of
          None \<Rightarrow> Inl UseAfterFree
        | Some n \<Rightarrow>
            if n \<ge> POLL_GROUP__MAX_GROUP_SIZE then make else group_join (last (poll_group_queue s)) s)"

definition poll_group_release :: "nat \<Rightarrow> port_state \<Rightarrow> port_state result" where
  "poll_group_release g s =
     (case groups s g of
        None \<Rightarrow> Inl UseAfterFree
      | Some n \<Rightarrow>
          (let n' = size_sub n 1 in
           assert_that (n' < POLL_GROUP__MAX_GROUP_SIZE)
           (Inr (s\<lparr>groups := (groups s)(g \<mapsto> n'),
               poll_group_queue := remove1 g (poll_group_queue s) @ [g]\<rparr>))))"

section \<open>Sockets\<close>

definition port_register_socket :: "nat \<Rightarrow> nat \<Rightarrow> unit port_call" where
  "port_register_socket i socket s =
     (if sock_tree s socket \<noteq> None then Inr (Inl ERROR_ALREADY_EXISTS, s)
      else Inr (Inr (), s\<lparr>sock_tree := (sock_tree s)(socket \<mapsto> i)\<rparr>))"

definition port_unregister_socket :: "nat \<Rightarrow> port_state \<Rightarrow> port_state" where
  "port_unregister_socket socket s = s\<lparr>sock_tree := (sock_tree s)(socket := None)\<rparr>"

definition port_find_socket :: "nat \<Rightarrow> nat port_call" where
  "port_find_socket socket s =
     (case sock_tree s socket of
        None \<Rightarrow> Inr (Inl ERROR_NOT_FOUND, s)
      | Some i \<Rightarrow> Inr (Inr i, s))"

definition sock__cancel_poll :: "win_os \<Rightarrow> nat \<Rightarrow> unit port_call" where
  "sock__cancel_poll os i = with_sock i (\<lambda>k s.
     assert_that (poll_status k = SOCK__POLL_PENDING)
     (case afd_cancel_poll os (os_calls s) of
        Some e \<Rightarrow> Inr (Inl e, os_call s)
      | None \<Rightarrow> Inr (Inr (), set_sock i (k\<lparr>poll_status := SOCK__POLL_CANCELLED, pending_events := 0\<rparr>) (os_call s))))"

definition sock_new :: "win_os \<Rightarrow> nat \<Rightarrow> nat port_call" where
  "sock_new os socket s =
     (if socket = 0 \<or> socket = INVALID_SOCKET then Inr (Inl ERROR_INVALID_HANDLE, s)
      else case get_base_socket os socket of
          Inl e \<Rightarrow> Inr (Inl e, s)
        | Inr base \<Rightarrow> and_then (poll_group_acquire os s) (\<lambda>(r, s1).
            case r of
              Inl e \<Rightarrow> Inr (Inl e, s1)
            | Inr g \<Rightarrow>
                if \<not> malloc_ok os (os_calls s1)
                then and_then (poll_group_release g (os_call s1)) (\<lambda>s2. Inr (Inl ERROR_NOT_ENOUGH_MEMORY, s2))
                else
                  (let i = next_address s1;
                       k = \<lparr>tree_key = socket, poll_group = g, base_socket = base, user_data = 0, user_events = 0,
                            pending_events = 0, poll_status = SOCK__POLL_IDLE, delete_pending = False,
                            poll_info_events = 0\<rparr>;
                       s2 = set_sock i k ((os_call s1)\<lparr>next_address := Suc i\<rparr>) in
                   and_then (port_register_socket i socket s2) (\<lambda>(r, s3).
                     case r of
                       Inl e \<Rightarrow> and_then (poll_group_release g (s3\<lparr>socks := (socks s3)(i := None)\<rparr>))
                         (\<lambda>s4. Inr (Inl e, s4))
                     | Inr _ \<Rightarrow> Inr (Inr i, s3)))))"

definition sock__unlink :: "win_os \<Rightarrow> nat \<Rightarrow> unit port_call" where
  "sock__unlink os i = with_sock i (\<lambda>k s.
     if delete_pending k then Inr (Inr (), s)
     else and_then (if poll_status k = SOCK__POLL_PENDING then sock__cancel_poll os i s else Inr (Inr (), s))
       (\<lambda>(_, s1). with_sock i (\<lambda>k1 s1.
          let s2 = port_unregister_socket (tree_key k1) (port_cancel_socket_update i s1) in
          Inr (Inr (), set_sock i (k1\<lparr>delete_pending := True\<rparr>) s2)) s1))"

definition sock__delete :: "win_os \<Rightarrow> nat \<Rightarrow> bool \<Rightarrow> unit port_call" where
  "sock__delete os i force s =
     and_then (sock__unlink os i s) (\<lambda>(_, s1). with_sock i (\<lambda>k s1.
       if force \<or> poll_status k = SOCK__POLL_IDLE
       then and_then (poll_group_release (poll_group k) (port_remove_deleted_socket i s1))
         (\<lambda>s2. Inr (Inr (), s2\<lparr>socks := (socks s2)(i := None)\<rparr>))
       else Inr (Inr (), port_add_deleted_socket i s1)) s1)"

definition sock_set_event :: "nat \<Rightarrow> epoll_event \<Rightarrow> unit port_call" where
  "sock_set_event i ev = with_sock i (\<lambda>k s.
     let events = ev_events ev OR EPOLLERR OR EPOLLHUP;
         s1 = set_sock i (k\<lparr>user_events := events, user_data := ev_data ev\<rparr>) s in
     if events AND SOCK__KNOWN_EPOLL_EVENTS AND NOT (pending_events k) \<noteq> 0
     then Inr (Inr (), port_request_socket_update i s1) else Inr (Inr (), s1))"

definition sock__epoll_events_to_afd_events :: "32 word \<Rightarrow> 32 word" where
  "sock__epoll_events_to_afd_events ev =
     AFD_POLL_LOCAL_CLOSE OR
     (if ev AND (EPOLLIN OR EPOLLRDNORM) \<noteq> 0 then AFD_POLL_RECEIVE OR AFD_POLL_ACCEPT else 0) OR
     (if ev AND (EPOLLPRI OR EPOLLRDBAND) \<noteq> 0 then AFD_POLL_RECEIVE_EXPEDITED else 0) OR
     (if ev AND (EPOLLOUT OR EPOLLWRNORM OR EPOLLWRBAND) \<noteq> 0 then AFD_POLL_SEND else 0) OR
     (if ev AND (EPOLLIN OR EPOLLRDNORM OR EPOLLRDHUP) \<noteq> 0 then AFD_POLL_DISCONNECT else 0) OR
     (if ev AND EPOLLHUP \<noteq> 0 then AFD_POLL_ABORT else 0) OR
     (if ev AND EPOLLERR \<noteq> 0 then AFD_POLL_CONNECT_FAIL else 0)"

definition sock__afd_events_to_epoll_events :: "32 word \<Rightarrow> 32 word" where
  "sock__afd_events_to_epoll_events afd =
     (if afd AND (AFD_POLL_RECEIVE OR AFD_POLL_ACCEPT) \<noteq> 0 then EPOLLIN OR EPOLLRDNORM else 0) OR
     (if afd AND AFD_POLL_RECEIVE_EXPEDITED \<noteq> 0 then EPOLLPRI OR EPOLLRDBAND else 0) OR
     (if afd AND AFD_POLL_SEND \<noteq> 0 then EPOLLOUT OR EPOLLWRNORM OR EPOLLWRBAND else 0) OR
     (if afd AND AFD_POLL_DISCONNECT \<noteq> 0 then EPOLLIN OR EPOLLRDNORM OR EPOLLRDHUP else 0) OR
     (if afd AND AFD_POLL_ABORT \<noteq> 0 then EPOLLHUP else 0) OR
     (if afd AND AFD_POLL_CONNECT_FAIL \<noteq> 0
      then EPOLLIN OR EPOLLOUT OR EPOLLERR OR EPOLLRDNORM OR EPOLLWRNORM OR EPOLLRDHUP else 0)"

text \<open>The events the user wants that the poll operation in flight does not monitor.\<close>

definition missing_events :: "sock_state \<Rightarrow> 32 word" where
  "missing_events k = user_events k AND SOCK__KNOWN_EPOLL_EVENTS AND NOT (pending_events k)"

definition sock_update :: "win_os \<Rightarrow> nat \<Rightarrow> unit port_call" where
  "sock_update os i = with_sock i (\<lambda>k s.
     assert_that (\<not> delete_pending k)
     (case poll_status k of
        SOCK__POLL_PENDING \<Rightarrow>
          if missing_events k = 0 then Inr (Inr (), port_cancel_socket_update i s)
          else and_then (sock__cancel_poll os i s) (\<lambda>(r, s1).
            case r of Inl e \<Rightarrow> Inr (Inl e, s1) | Inr _ \<Rightarrow> Inr (Inr (), port_cancel_socket_update i s1))
      | SOCK__POLL_CANCELLED \<Rightarrow> Inr (Inr (), port_cancel_socket_update i s)
      | SOCK__POLL_IDLE \<Rightarrow>
          (let k1 = k\<lparr>poll_info_events := sock__epoll_events_to_afd_events (user_events k)\<rparr>;
               s1 = set_sock i k1 (os_call s);
               submitted = port_cancel_socket_update i
                 (set_sock i (k1\<lparr>poll_status := SOCK__POLL_PENDING, pending_events := user_events k\<rparr>) s1) in
           case afd_poll os (os_calls s) of
             None \<Rightarrow> Inr (Inr (), submitted)
           | Some e \<Rightarrow>
               if e = ERROR_IO_PENDING then Inr (Inr (), submitted)
               else if e = ERROR_INVALID_HANDLE then sock__delete os i False s1
               else Inr (Inl e, s1))))"

text \<open>What the driver reports for a poll operation: its status, the number of handles and their events.\<close>

datatype io_status = Io_Cancelled | Io_Failed | Io_Success

datatype completion =
    Posted nat
  | Completed nat io_status nat "32 word"

definition feed_rest :: "nat \<Rightarrow> 32 word \<Rightarrow> epoll_event option port_call" where
  "feed_rest i events s = with_sock i (\<lambda>k s.
     let events = events AND user_events k in
     if events = 0 then Inr (Inr None, s)
     else
       (let k1 = (if user_events k AND EPOLLONESHOT \<noteq> 0 then k\<lparr>user_events := 0\<rparr> else k) in
        Inr (Inr (Some \<lparr>ev_events = events, ev_data = user_data k\<rparr>), set_sock i k1 s)))
     (port_request_socket_update i s)"

definition sock_feed_event :: "win_os \<Rightarrow> nat \<Rightarrow> io_status \<Rightarrow> nat \<Rightarrow> 32 word \<Rightarrow> epoll_event option port_call" where
  "sock_feed_event os i status num_handles afd = with_sock i (\<lambda>k s.
     let s1 = set_sock i (k\<lparr>poll_status := SOCK__POLL_IDLE, pending_events := 0\<rparr>) s in
     if delete_pending k then and_then (sock__delete os i False s1) (\<lambda>(_, s2). Inr (Inr None, s2))
     else if status = Io_Cancelled then feed_rest i 0 s1
     else if status = Io_Failed then feed_rest i EPOLLERR s1
     else if num_handles < 1 then feed_rest i 0 s1
     else if afd AND AFD_POLL_LOCAL_CLOSE \<noteq> 0
       then and_then (sock__delete os i False s1) (\<lambda>(_, s2). Inr (Inr None, s2))
     else feed_rest i (sock__afd_events_to_epoll_events afd) s1)"

section \<open>Ports\<close>

named_theorems port_defs \<open>the elementary operations of a port\<close>

declare os_call_def [port_defs] set_sock_def [port_defs] sock_enqueued_def [port_defs]
  sock_queue_remove_def [port_defs] port_request_socket_update_def [port_defs]
  port_cancel_socket_update_def [port_defs] port_add_deleted_socket_def [port_defs]
  port_remove_deleted_socket_def [port_defs] port_unregister_socket_def [port_defs]

lemma with_sock_Inr [simp]:
  "with_sock i f s = Inr r \<longleftrightarrow> (\<exists>k. socks s i = Some k \<and> f k s = Inr r)"
  by (simp add: with_sock_def split: option.splits)

lemma poll_group_release_Inr:
  "poll_group_release g s = Inr s' \<longleftrightarrow> (\<exists>n. groups s g = Some n \<and> size_sub n 1 < POLL_GROUP__MAX_GROUP_SIZE \<and>
    s' = s\<lparr>groups := (groups s)(g \<mapsto> size_sub n 1), poll_group_queue := remove1 g (poll_group_queue s) @ [g]\<rparr>)"
  by (auto simp: poll_group_release_def Let_def split: option.splits)

lemma sock__cancel_poll_Inr:
  "sock__cancel_poll os i s = Inr (r, s') \<longleftrightarrow> (\<exists>k. socks s i = Some k \<and> poll_status k = SOCK__POLL_PENDING \<and>
    (case afd_cancel_poll os (os_calls s) of
       Some e \<Rightarrow> r = Inl e \<and> s' = os_call s
     | None \<Rightarrow> r = Inr () \<and>
         s' = set_sock i (k\<lparr>poll_status := SOCK__POLL_CANCELLED, pending_events := 0\<rparr>) (os_call s)))"
  by (auto simp: sock__cancel_poll_def split: option.splits)

lemma elementary_frame [simp]:
  "sock_update_queue (os_call s) = sock_update_queue s" "sock_deleted_queue (os_call s) = sock_deleted_queue s"
  "socks (os_call s) = socks s" "groups (os_call s) = groups s" "sock_tree (os_call s) = sock_tree s"
  "poll_group_queue (os_call s) = poll_group_queue s" "next_address (os_call s) = next_address s"
  "active_poll_count (os_call s) = active_poll_count s" "iocp_handle (os_call s) = iocp_handle s"
  "sock_update_queue (set_sock i k s) = sock_update_queue s" "sock_deleted_queue (set_sock i k s) = sock_deleted_queue s"
  "socks (set_sock i k s) = (socks s)(i \<mapsto> k)" "groups (set_sock i k s) = groups s" "sock_tree (set_sock i k s) = sock_tree s"
  "poll_group_queue (set_sock i k s) = poll_group_queue s" "next_address (set_sock i k s) = next_address s"
  "active_poll_count (set_sock i k s) = active_poll_count s" "iocp_handle (set_sock i k s) = iocp_handle s"
  "os_calls (set_sock i k s) = os_calls s"
  "sock_enqueued i (set_sock j k s) = sock_enqueued i s" "sock_enqueued i (os_call s) = sock_enqueued i s"
  by (simp_all add: os_call_def set_sock_def sock_enqueued_def)

lemma queue_op_frame [simp]:
  "socks (port_cancel_socket_update i s) = socks s" "groups (port_cancel_socket_update i s) = groups s"
  "sock_tree (port_cancel_socket_update i s) = sock_tree s" "poll_group_queue (port_cancel_socket_update i s) = poll_group_queue s"
  "next_address (port_cancel_socket_update i s) = next_address s"
  "active_poll_count (port_cancel_socket_update i s) = active_poll_count s" "iocp_handle (port_cancel_socket_update i s) = iocp_handle s"
  "sock_update_queue (port_cancel_socket_update i s) = remove1 i (sock_update_queue s)"
  "sock_deleted_queue (port_cancel_socket_update i s) = remove1 i (sock_deleted_queue s)"
  "socks (port_request_socket_update i s) = socks s" "groups (port_request_socket_update i s) = groups s"
  "sock_tree (port_request_socket_update i s) = sock_tree s" "poll_group_queue (port_request_socket_update i s) = poll_group_queue s"
  "next_address (port_request_socket_update i s) = next_address s"
  "active_poll_count (port_request_socket_update i s) = active_poll_count s" "iocp_handle (port_request_socket_update i s) = iocp_handle s"
  "sock_update_queue (port_request_socket_update i s) =
     (if sock_enqueued i s then sock_update_queue s else sock_update_queue s @ [i])"
  "sock_deleted_queue (port_request_socket_update i s) = sock_deleted_queue s"
  "socks (port_add_deleted_socket i s) = socks s" "groups (port_add_deleted_socket i s) = groups s"
  "sock_tree (port_add_deleted_socket i s) = sock_tree s" "poll_group_queue (port_add_deleted_socket i s) = poll_group_queue s"
  "next_address (port_add_deleted_socket i s) = next_address s"
  "active_poll_count (port_add_deleted_socket i s) = active_poll_count s" "iocp_handle (port_add_deleted_socket i s) = iocp_handle s"
  "sock_update_queue (port_add_deleted_socket i s) = sock_update_queue s"
  "sock_deleted_queue (port_add_deleted_socket i s) =
     (if sock_enqueued i s then sock_deleted_queue s else sock_deleted_queue s @ [i])"
  "port_remove_deleted_socket i s = port_cancel_socket_update i s"
  "socks (port_unregister_socket n s) = socks s" "groups (port_unregister_socket n s) = groups s"
  "sock_tree (port_unregister_socket n s) = (sock_tree s)(n := None)"
  "poll_group_queue (port_unregister_socket n s) = poll_group_queue s"
  "next_address (port_unregister_socket n s) = next_address s"
  "active_poll_count (port_unregister_socket n s) = active_poll_count s" "iocp_handle (port_unregister_socket n s) = iocp_handle s"
  "sock_update_queue (port_unregister_socket n s) = sock_update_queue s"
  "sock_deleted_queue (port_unregister_socket n s) = sock_deleted_queue s"
  by (auto simp: port_defs remove1_idem)

text \<open>Updating the first socket of the queue takes it out of the queue, so the walk ends.\<close>

lemma sock__unlink_queue:
  assumes "sock__unlink os i s = Inr (r, s')" and "socks s i = Some k" and "\<not> delete_pending k"
  shows "sock_update_queue s' = remove1 i (sock_update_queue s)"
  using assms by (cases "poll_status k = SOCK__POLL_PENDING"; cases "afd_cancel_poll os (os_calls s)")
    (auto simp: sock__unlink_def sock__cancel_poll_Inr Let_def)

lemma sock__delete_queue:
  assumes "sock__delete os i force s = Inr (r, s')" and "socks s i = Some k" and "\<not> delete_pending k"
  shows "length (sock_update_queue s') \<le> length (remove1 i (sock_update_queue s))"
proof -
  obtain r1 s1 where u: "sock__unlink os i s = Inr (r1, s1)"
    and "sock_update_queue s' = remove1 i (sock_update_queue s1) \<or> sock_update_queue s' = sock_update_queue s1"
    using assms(1) by (auto simp: sock__delete_def poll_group_release_Inr split: if_splits)
  with sock__unlink_queue [OF u assms(2,3)] show ?thesis by (auto simp: length_remove1)
qed

lemma sock_update_queue_less:
  assumes "sock_update os i s = Inr (Inr (), s')" and "i \<in> set (sock_update_queue s)"
  shows "length (sock_update_queue s') < length (sock_update_queue s)"
proof -
  obtain k where k: "socks s i = Some k" "\<not> delete_pending k"
    using assms(1) by (auto simp: sock_update_def)
  let ?s = "set_sock i (k\<lparr>poll_info_events := sock__epoll_events_to_afd_events (user_events k)\<rparr>) (os_call s)"
  have "length (sock_update_queue s') \<le> length (remove1 i (sock_update_queue s))"
    if "sock__delete os i False ?s = Inr (Inr (), s')"
    using sock__delete_queue [OF that] k(2) by simp
  then have "length (sock_update_queue s') \<le> length (remove1 i (sock_update_queue s))"
    using assms(1) k
    by (auto simp: sock_update_def sock__cancel_poll_Inr Let_def
      split: sock__poll_status.splits if_splits option.splits sum.splits)
  moreover have "length (remove1 i (sock_update_queue s)) < length (sock_update_queue s)"
    using assms(2) length_pos_if_in_set [OF assms(2)] by (simp add: length_remove1)
  ultimately show ?thesis by simp
qed

function port__update_events :: "win_os \<Rightarrow> unit port_call" where
  "port__update_events os s =
     (case sock_update_queue s of
        [] \<Rightarrow> Inr (Inr (), s)
      | i # _ \<Rightarrow>
          (case sock_update os i s of
             Inl f \<Rightarrow> Inl f
           | Inr (Inl e, s1) \<Rightarrow> Inr (Inl e, s1)
           | Inr (Inr _, s1) \<Rightarrow> port__update_events os s1))"
  by pat_completeness auto
termination
  by (relation "measure (\<lambda>(os, s). length (sock_update_queue s))") (auto dest: sock_update_queue_less)

declare port__update_events.simps [simp del]

text \<open>The result of the update is ignored by the callers.\<close>

definition port__update_events_if_polling :: "win_os \<Rightarrow> port_state \<Rightarrow> port_state result" where
  "port__update_events_if_polling os s =
     (if active_poll_count s > 0 then and_then (port__update_events os s) (\<lambda>(_, s1). Inr s1) else Inr s)"

definition port__ctl_add :: "win_os \<Rightarrow> nat \<Rightarrow> epoll_event \<Rightarrow> unit port_call" where
  "port__ctl_add os socket ev s =
     and_then (sock_new os socket s) (\<lambda>(r, s1).
       case r of
         Inl e \<Rightarrow> Inr (Inl e, s1)
       | Inr i \<Rightarrow> and_then (sock_set_event i ev s1) (\<lambda>(r, s2).
           case r of
             Inl e \<Rightarrow> and_then (sock__delete os i False s2) (\<lambda>(_, s3). Inr (Inl e, s3))
           | Inr _ \<Rightarrow> and_then (port__update_events_if_polling os s2) (\<lambda>s3. Inr (Inr (), s3))))"

definition port__ctl_mod :: "win_os \<Rightarrow> nat \<Rightarrow> epoll_event \<Rightarrow> unit port_call" where
  "port__ctl_mod os socket ev s =
     and_then (port_find_socket socket s) (\<lambda>(r, s1).
       case r of
         Inl e \<Rightarrow> Inr (Inl e, s1)
       | Inr i \<Rightarrow> and_then (sock_set_event i ev s1) (\<lambda>(r, s2).
           case r of
             Inl e \<Rightarrow> Inr (Inl e, s2)
           | Inr _ \<Rightarrow> and_then (port__update_events_if_polling os s2) (\<lambda>s3. Inr (Inr (), s3))))"

definition port__ctl_del :: "win_os \<Rightarrow> nat \<Rightarrow> unit port_call" where
  "port__ctl_del os socket s =
     and_then (port_find_socket socket s) (\<lambda>(r, s1).
       case r of
         Inl e \<Rightarrow> Inr (Inl e, s1)
       | Inr i \<Rightarrow> and_then (sock__delete os i False s1) (\<lambda>(_, s2). Inr (Inr (), s2)))"

definition port_ctl :: "win_os \<Rightarrow> int \<Rightarrow> nat \<Rightarrow> epoll_event \<Rightarrow> unit port_call" where
  "port_ctl os op socket ev s =
     (if op = 1 then port__ctl_add os socket ev s
      else if op = 2 then port__ctl_mod os socket ev s
      else if op = 3 then port__ctl_del os socket s
      else Inr (Inl ERROR_INVALID_PARAMETER, s))"

fun port__feed_events :: "win_os \<Rightarrow> completion list \<Rightarrow> epoll_event list port_call" where
  "port__feed_events os [] s = Inr (Inr [], s)"
| "port__feed_events os (Posted key # cs) s =
     and_then (port__feed_events os cs s) (\<lambda>(r, s1).
       case r of Inl e \<Rightarrow> Inr (Inl e, s1)
       | Inr evs \<Rightarrow> Inr (Inr (\<lparr>ev_events = EPOLLEVENT, ev_data = key\<rparr> # evs), s1))"
| "port__feed_events os (Completed i status n afd # cs) s =
     and_then (sock_feed_event os i status n afd s) (\<lambda>(r, s1).
       case r of Inl e \<Rightarrow> Inr (Inl e, s1)
       | Inr ev \<Rightarrow> and_then (port__feed_events os cs s1) (\<lambda>(r, s2).
           case r of Inl e \<Rightarrow> Inr (Inl e, s2)
           | Inr evs \<Rightarrow> Inr (Inr ((case ev of None \<Rightarrow> [] | Some ev \<Rightarrow> [ev]) @ evs), s2)))"

text \<open>The control operations other threads make while the lock is released during the wait.\<close>

fun ctl_others :: "win_os \<Rightarrow> (int \<times> nat \<times> epoll_event) list \<Rightarrow> port_state \<Rightarrow> port_state result" where
  "ctl_others os [] s = Inr s"
| "ctl_others os ((op, socket, ev) # cs) s =
     and_then (port_ctl os op socket ev s) (\<lambda>(_, s1). ctl_others os cs s1)"

record wait_round =
  others :: "(int \<times> nat \<times> epoll_event) list"
  completions :: "win_error + completion list"
  tick_count :: nat

definition port__poll :: "win_os \<Rightarrow> wait_round \<Rightarrow> epoll_event list port_call" where
  "port__poll os w s =
     and_then (port__update_events os s) (\<lambda>(r, s1).
       case r of
         Inl e \<Rightarrow> Inr (Inl e, s1)
       | Inr _ \<Rightarrow>
           and_then (ctl_others os (others w) (s1\<lparr>active_poll_count := Suc (active_poll_count s1)\<rparr>)) (\<lambda>s2.
             let s3 = s2\<lparr>active_poll_count := size_sub (active_poll_count s2) 1\<rparr> in
             case completions w of
               Inl e \<Rightarrow> Inr (Inl e, s3)
             | Inr cs \<Rightarrow> port__feed_events os cs s3))"

text \<open>
  \<^verbatim>\<open>port_wait\<close>: the loop consumes one round per call of \<^verbatim>\<open>GetQueuedCompletionStatusEx\<close> and is still
  waiting, \<open>None\<close>, when the rounds are used up. The timeouts handed to the system are recorded.
\<close>

definition PORT__MAX_ON_STACK_COMPLETIONS :: nat where
  "PORT__MAX_ON_STACK_COMPLETIONS = 256"

definition INFINITE :: nat where
  "INFINITE = 2 ^ 32 - 1"

text \<open>The array of completions lives on the stack, or on the heap when it is large and memory is left.\<close>

definition max_completions :: "win_os \<Rightarrow> int \<Rightarrow> port_state \<Rightarrow> nat \<times> port_state" where
  "max_completions os maxevents s =
     (if nat maxevents \<le> PORT__MAX_ON_STACK_COMPLETIONS then (nat maxevents, s)
      else (if malloc_ok os (os_calls s) then nat maxevents else PORT__MAX_ON_STACK_COMPLETIONS, os_call s))"

fun wait_loop :: "win_os \<Rightarrow> int \<Rightarrow> nat \<Rightarrow> nat \<Rightarrow> nat list \<Rightarrow> wait_round list \<Rightarrow> port_state \<Rightarrow>
    (nat list \<times> (win_error + epoll_event list) \<times> port_state) option result" where
  "wait_loop os timeout due gqcs ts [] s = Inr None"
| "wait_loop os timeout due gqcs ts (w # ws) s =
     and_then (port__poll os w s) (\<lambda>(r, s1).
       case r of
         Inl e \<Rightarrow> Inr (Some (ts @ [gqcs], Inl e, s1))
       | Inr evs \<Rightarrow>
           if evs \<noteq> [] then Inr (Some (ts @ [gqcs], Inr evs, s1))
           else if timeout < 0 then wait_loop os timeout due gqcs (ts @ [gqcs]) ws s1
           else if tick_count w \<ge> due then Inr (Some (ts @ [gqcs], Inr [], s1))
           else wait_loop os timeout due ((due - tick_count w) mod 2 ^ 32) (ts @ [gqcs]) ws s1)"

text \<open>
  \<open>rounds n\<close> are the rounds that result when the system is asked for at most \<open>n\<close> completions at a time.
\<close>

definition port_wait :: "win_os \<Rightarrow> nat \<Rightarrow> int \<Rightarrow> (nat \<Rightarrow> wait_round list) \<Rightarrow> int \<Rightarrow> port_state \<Rightarrow>
    (nat list \<times> (win_error + epoll_event list) \<times> port_state) option result" where
  "port_wait os now timeout rounds maxevents s =
     (if maxevents \<le> 0 then Inr (Some ([], Inl ERROR_INVALID_PARAMETER, s))
      else
        (let (n, s) = max_completions os maxevents s;
             due = (if timeout > 0 then (now + nat timeout) mod 2 ^ 64 else 0);
             gqcs = (if timeout > 0 then nat timeout mod 2 ^ 32 else if timeout = 0 then 0 else INFINITE) in
         and_then (wait_loop os timeout due gqcs [] (rounds n) s) (\<lambda>r.
           case r of
             None \<Rightarrow> Inr None
           | Some (ts, r, s1) \<Rightarrow> and_then (port__update_events_if_polling os s1) (\<lambda>s2.
               Inr (Some (ts, if r = Inl WAIT_TIMEOUT then Inr [] else r, s2))))))"

text \<open>\<^verbatim>\<open>port_close\<close> and \<^verbatim>\<open>port_delete\<close>. The loops take the first socket or group until none is left.\<close>

definition port_close :: "port_state \<Rightarrow> port_state" where
  "port_close s = s\<lparr>iocp_handle := None\<rparr>"

fun force_delete_all :: "win_os \<Rightarrow> nat list \<Rightarrow> port_state \<Rightarrow> port_state result" where
  "force_delete_all os [] s = Inr s"
| "force_delete_all os (i # is) s =
     and_then (sock__delete os i True s) (\<lambda>(_, s1). force_delete_all os is s1)"

fun group_delete_all :: "nat list \<Rightarrow> port_state \<Rightarrow> port_state result" where
  "group_delete_all [] s = Inr s"
| "group_delete_all (g # gs) s = and_then (poll_group_delete g s) (group_delete_all gs)"

text \<open>\<open>roots\<close> lists the sockets of the tree in the order in which they come up as its root.\<close>

definition port_delete :: "win_os \<Rightarrow> nat list \<Rightarrow> port_state \<Rightarrow> port_state result" where
  "port_delete os roots s =
     assert_that (iocp_handle s = None)
     (and_then (force_delete_all os roots s) (\<lambda>s1.
      and_then (force_delete_all os (sock_deleted_queue s1) s1) (\<lambda>s2.
      and_then (group_delete_all (poll_group_queue s2) s2) (\<lambda>s3.
      assert_that (sock_update_queue s3 = []) (Inr s3)))))"

end
