(* ===== verification/Wepoll_Port_Inv.thy ===== *)
theory Wepoll_Port_Inv
  imports Wepoll_Port
begin

text \<open>
  The invariant of the ports of \<open>Wepoll_Port\<close> and what follows from it: no operation reads freed memory
  or trips an assertion whatever the system answers, every watched socket has a poll operation in
  flight for all of its events once the update queue is empty, and closing a port frees everything.
\<close>

unbundle bit_operations_syntax

section \<open>Invariant\<close>

definition members :: "port_state \<Rightarrow> nat \<Rightarrow> nat set" where
  "members s g = {i. \<exists>k. socks s i = Some k \<and> poll_group k = g}"

definition tree_ok :: "port_state \<Rightarrow> bool" where
  "tree_ok s \<longleftrightarrow> (\<forall>n i. sock_tree s n = Some i \<longleftrightarrow>
     (\<exists>k. socks s i = Some k \<and> \<not> delete_pending k \<and> tree_key k = n))"

definition queues_ok :: "port_state \<Rightarrow> bool" where
  "queues_ok s \<longleftrightarrow> distinct (sock_update_queue s) \<and> distinct (sock_deleted_queue s) \<and>
     (\<forall>i \<in> set (sock_update_queue s). \<exists>k. socks s i = Some k \<and> \<not> delete_pending k) \<and>
     (\<forall>i. i \<in> set (sock_deleted_queue s) \<longleftrightarrow> (\<exists>k. socks s i = Some k \<and> delete_pending k))"

text \<open>
  The size of a group is the number of its sockets, and the full groups come first in the queue. \<open>x\<close>
  is a group that a socket under construction has joined already.
\<close>

definition group_full :: "port_state \<Rightarrow> nat \<Rightarrow> bool" where
  "group_full s g \<longleftrightarrow> groups s g = Some POLL_GROUP__MAX_GROUP_SIZE"

definition groups_ok :: "nat option \<Rightarrow> port_state \<Rightarrow> bool" where
  "groups_ok x s \<longleftrightarrow> finite (dom (socks s)) \<and>
     distinct (poll_group_queue s) \<and> set (poll_group_queue s) = dom (groups s) \<and>
     (\<forall>i k. socks s i = Some k \<longrightarrow> poll_group k \<in> dom (groups s)) \<and>
     (\<forall>g. x = Some g \<longrightarrow> g \<in> dom (groups s)) \<and>
     (\<forall>g n. groups s g = Some n \<longrightarrow>
        n = card (members s g) + (if x = Some g then 1 else 0) \<and> n \<le> POLL_GROUP__MAX_GROUP_SIZE) \<and>
     (\<exists>fs es. poll_group_queue s = fs @ es \<and> (\<forall>g \<in> set fs. group_full s g) \<and> (\<forall>g \<in> set es. \<not> group_full s g))"

definition alloc_ok :: "port_state \<Rightarrow> bool" where
  "alloc_ok s \<longleftrightarrow> (\<forall>i \<in> dom (socks s) \<union> dom (groups s). i < next_address s)"

text \<open>A deleted socket waits for its completion; any other one is queued, or monitored for all events
  its user wants, or about to be queued when its cancelled operation completes.\<close>

definition sock_ok :: "port_state \<Rightarrow> nat \<Rightarrow> sock_state \<Rightarrow> bool" where
  "sock_ok s i k \<longleftrightarrow>
     (if delete_pending k then poll_status k \<noteq> SOCK__POLL_IDLE
      else (poll_status k \<noteq> SOCK__POLL_PENDING \<longrightarrow> pending_events k = 0) \<and>
        (i \<in> set (sock_update_queue s) \<or> poll_status k = SOCK__POLL_PENDING \<and> missing_events k = 0 \<or>
         poll_status k = SOCK__POLL_CANCELLED))"

definition port_ok_but :: "nat set \<Rightarrow> port_state \<Rightarrow> bool" where
  "port_ok_but X s \<longleftrightarrow> tree_ok s \<and> queues_ok s \<and> groups_ok None s \<and> alloc_ok s \<and>
     (\<forall>i k. i \<notin> X \<longrightarrow> socks s i = Some k \<longrightarrow> sock_ok s i k)"

abbreviation port_ok :: "port_state \<Rightarrow> bool" where
  "port_ok \<equiv> port_ok_but {}"

lemma members_frame [simp]:
  "members (s\<lparr>groups := gs\<rparr>) g = members s g" "members (s\<lparr>poll_group_queue := q\<rparr>) g = members s g"
  "members (s\<lparr>next_address := n\<rparr>) g = members s g" "members (os_call s) g = members s g"
  by (simp_all add: members_def)

lemma port_ok_new [simp]: "port_ok (port_new iocp)"
  by (simp add: port_ok_but_def tree_ok_def queues_ok_def groups_ok_def alloc_ok_def port_new_def)

lemma port_ok_but_mono: "port_ok_but X s \<Longrightarrow> X \<subseteq> Y \<Longrightarrow> port_ok_but Y s"
  by (auto simp: port_ok_but_def)

text \<open>The parts of the invariant depend on a few fields only.\<close>

lemma port_ok_but_cong:
  assumes "socks s' = socks s" and "sock_tree s' = sock_tree s" and "sock_update_queue s' = sock_update_queue s"
    and "sock_deleted_queue s' = sock_deleted_queue s" and "poll_group_queue s' = poll_group_queue s"
    and "groups s' = groups s" and "next_address s' = next_address s"
  shows "port_ok_but X s' = port_ok_but X s"
  using assms by (simp add: port_ok_but_def tree_ok_def queues_ok_def groups_ok_def alloc_ok_def sock_ok_def
    members_def group_full_def)

lemma port_ok_but_os_call [simp]: "port_ok_but X (os_call s) = port_ok_but X s"
  by (rule port_ok_but_cong) simp_all

lemma port_ok_but_active [simp]: "port_ok_but X (s\<lparr>active_poll_count := n\<rparr>) = port_ok_but X s"
  by (rule port_ok_but_cong) simp_all

lemma port_ok_but_iocp [simp]: "port_ok_but X (s\<lparr>iocp_handle := h\<rparr>) = port_ok_but X s"
  by (rule port_ok_but_cong) simp_all

section \<open>Changing a socket\<close>

lemma members_set_sock:
  "socks s i = Some k \<Longrightarrow> poll_group k' = poll_group k \<Longrightarrow> members (set_sock i k' s) g = members s g"
  by (auto simp: members_def)

lemma port_ok_set_sock:
  assumes "port_ok_but X s" and "socks s i = Some k"
    and "tree_key k' = tree_key k" and "poll_group k' = poll_group k" and "delete_pending k' = delete_pending k"
  shows "port_ok_but (insert i X) (set_sock i k' s)"
proof -
  have "tree_ok (set_sock i k' s)" "queues_ok (set_sock i k' s)" "alloc_ok (set_sock i k' s)"
    using assms by (auto simp: port_ok_but_def tree_ok_def queues_ok_def alloc_ok_def)
  moreover have "groups_ok None (set_sock i k' s)"
    using assms members_set_sock [OF assms(2,4)]
    by (auto simp: port_ok_but_def groups_ok_def group_full_def dom_fun_upd)
  moreover have "sock_ok (set_sock i k' s) j m" if "j \<notin> insert i X" "socks (set_sock i k' s) j = Some m" for j m
    using assms(1) that by (auto simp: port_ok_but_def sock_ok_def)
  ultimately show ?thesis by (simp add: port_ok_but_def)
qed

lemma port_ok_but_restore:
  assumes "port_ok_but (insert i X) s" and "\<And>k. socks s i = Some k \<Longrightarrow> sock_ok s i k"
  shows "port_ok_but X s"
  using assms unfolding port_ok_but_def by (metis insert_iff)

lemma not_enqueued:
  assumes "port_ok_but X s" and "socks s i = Some k" and "\<not> delete_pending k"
  shows "sock_enqueued i s \<longleftrightarrow> i \<in> set (sock_update_queue s)"
  using assms by (auto simp: port_ok_but_def queues_ok_def sock_enqueued_def)

lemma port_ok_request:
  assumes "port_ok_but (insert i X) s" and "socks s i = Some k" and "\<not> delete_pending k"
    and "poll_status k \<noteq> SOCK__POLL_PENDING \<longrightarrow> pending_events k = 0"
  shows "port_ok_but X (port_request_socket_update i s)"
proof -
  let ?s = "port_request_socket_update i s"
  note e = not_enqueued [OF assms(1-3)]
  have "queues_ok ?s" using assms e by (auto simp: port_ok_but_def queues_ok_def)
  moreover have "tree_ok ?s" "groups_ok None ?s" "alloc_ok ?s"
    using assms(1) by (simp_all add: port_ok_but_def tree_ok_def groups_ok_def alloc_ok_def members_def group_full_def)
  moreover have "sock_ok ?s j m" if "j \<notin> X" "socks s j = Some m" for j m
    using assms that e by (cases "j = i") (auto simp: port_ok_but_def sock_ok_def)
  ultimately show ?thesis by (simp add: port_ok_but_def)
qed

lemma port_ok_cancel:
  assumes "port_ok_but X s" and "socks s i = Some k" and "\<not> delete_pending k"
  shows "port_ok_but (insert i X) (port_cancel_socket_update i s)"
proof -
  let ?s = "port_cancel_socket_update i s"
  have "i \<notin> set (sock_deleted_queue s)" using assms by (auto simp: port_ok_but_def queues_ok_def)
  then have "queues_ok ?s" using assms(1) by (auto simp: port_ok_but_def queues_ok_def remove1_idem dest: in_set_remove1)
  moreover have "tree_ok ?s" "groups_ok None ?s" "alloc_ok ?s"
    using assms(1) by (simp_all add: port_ok_but_def tree_ok_def groups_ok_def alloc_ok_def members_def group_full_def)
  moreover have "sock_ok ?s j m" if "j \<notin> insert i X" "socks s j = Some m" for j m
    using assms that by (auto simp: port_ok_but_def sock_ok_def)
  ultimately show ?thesis by (simp add: port_ok_but_def)
qed

section \<open>Poll groups\<close>

lemma groups_okD:
  assumes "groups_ok x s"
  shows "finite (dom (socks s))" and "distinct (poll_group_queue s)" and "set (poll_group_queue s) = dom (groups s)"
    and "socks s i = Some k \<Longrightarrow> poll_group k \<in> dom (groups s)"
    and "groups s g = Some n \<Longrightarrow> n = card (members s g) + (if x = Some g then 1 else 0)"
    and "groups s g = Some n \<Longrightarrow> n \<le> POLL_GROUP__MAX_GROUP_SIZE"
    and "x = Some g \<Longrightarrow> g \<in> dom (groups s)"
    and "\<exists>fs es. poll_group_queue s = fs @ es \<and> (\<forall>g \<in> set fs. group_full s g) \<and> (\<forall>g \<in> set es. \<not> group_full s g)"
  using assms unfolding groups_ok_def by blast+

lemma full_iff:
  assumes "groups_ok x s" and "groups s g = Some n"
  shows "n \<ge> POLL_GROUP__MAX_GROUP_SIZE \<longleftrightarrow> group_full s g"
  using groups_okD(6) [OF assms] assms(2) by (auto simp: group_full_def)

text \<open>Joining a group that is last in the queue and not full.\<close>

lemma group_join_ok:
  assumes "groups_ok None s" and "g \<in> set (poll_group_queue s)" and "\<not> group_full s g"
    and "poll_group_queue s = q @ [g]"
  shows "\<exists>s'. group_join g s = Inr (Inr g, s') \<and> groups_ok (Some g) s' \<and> socks s' = socks s \<and> sock_tree s' = sock_tree s \<and>
    sock_update_queue s' = sock_update_queue s \<and> sock_deleted_queue s' = sock_deleted_queue s \<and>
    dom (groups s') = dom (groups s) \<and> next_address s' = next_address s \<and> active_poll_count s' = active_poll_count s \<and>
    iocp_handle s' = iocp_handle s"
proof -
  note D = groups_okD [OF assms(1)]
  obtain n where n: "groups s g = Some n" using assms(2) D(3) by auto
  then have n_less: "n < POLL_GROUP__MAX_GROUP_SIZE" and card: "n = card (members s g)"
    using D(5) [OF n] full_iff [OF assms(1) n] assms(3) by auto
  obtain fs es where q: "poll_group_queue s = fs @ es" "\<forall>g \<in> set fs. group_full s g" "\<forall>g \<in> set es. \<not> group_full s g"
    using D(8) by blast
  note dist = D(2,3)
  have pg: "\<forall>i k. socks s i = Some k \<longrightarrow> poll_group k \<in> dom (groups s)" using D(4) by blast
  have "es \<noteq> []"
  proof
    assume "es = []"
    with q assms(2,3) show False by auto
  qed
  then obtain es' where es: "es = es' @ [g]"
    using q(1) assms(4) by (metis append_butlast_last_id last_appendR last_snoc)
  let ?s1 = "s\<lparr>groups := (groups s)(g \<mapsto> Suc n)\<rparr>"
  let ?s2 = "?s1\<lparr>poll_group_queue := g # remove1 g (poll_group_queue s)\<rparr>"
  have other: "group_full ?s1 h \<longleftrightarrow> group_full s h" if "h \<noteq> g" for h
    using that by (simp add: group_full_def)
  have nfs: "g \<notin> set fs" "g \<notin> set es'" using dist(1) q(1) es by auto
  show ?thesis
  proof (cases "Suc n = POLL_GROUP__MAX_GROUP_SIZE")
    case True
    have q': "remove1 g (poll_group_queue s) = fs @ es'" using nfs q(1) es by (simp add: remove1_append)
    have "groups_ok (Some g) ?s2"
      unfolding groups_ok_def
    proof (intro conjI)
      show "\<exists>fs' es''. poll_group_queue ?s2 = fs' @ es'' \<and> (\<forall>h \<in> set fs'. group_full ?s2 h) \<and> (\<forall>h \<in> set es''. \<not> group_full ?s2 h)"
        using q(2,3) es nfs True q'
        by (intro exI [of _ "g # fs"] exI [of _ es']) (auto simp: group_full_def)
      show "\<forall>h m. groups ?s2 h = Some m \<longrightarrow>
          m = card (members ?s2 h) + (if Some g = Some h then 1 else 0) \<and> m \<le> POLL_GROUP__MAX_GROUP_SIZE"
        using D(5,6) card True by auto
    qed (use D(1) dist n pg in \<open>auto simp: set_remove1_eq\<close>)
    with n True show ?thesis by (simp add: group_join_def Let_def insert_absorb domI)
  next
    case False
    have "groups_ok (Some g) ?s1"
      unfolding groups_ok_def
    proof (intro conjI)
      show "\<exists>fs' es''. poll_group_queue ?s1 = fs' @ es'' \<and> (\<forall>h \<in> set fs'. group_full ?s1 h) \<and> (\<forall>h \<in> set es''. \<not> group_full ?s1 h)"
        using q es nfs False
        by (intro exI [of _ fs] exI [of _ es]) (auto simp: group_full_def)
      show "\<forall>h m. groups ?s1 h = Some m \<longrightarrow>
          m = card (members ?s1 h) + (if Some g = Some h then 1 else 0) \<and> m \<le> POLL_GROUP__MAX_GROUP_SIZE"
        using D(5,6) card n_less by auto
    qed (use D(1) dist n pg in auto)
    with n False show ?thesis by (simp add: group_join_def Let_def insert_absorb domI)
  qed
qed

text \<open>A new group is made only when all groups are full.\<close>

lemma poll_group_acquire_ok:
  assumes "groups_ok None s" and "alloc_ok s" and "iocp_handle s \<noteq> None"
  shows "\<exists>r s'. poll_group_acquire os s = Inr (r, s') \<and>
    (case r of Inl e \<Rightarrow> groups_ok None s' | Inr g \<Rightarrow> groups_ok (Some g) s') \<and> alloc_ok s' \<and>
    socks s' = socks s \<and> sock_tree s' = sock_tree s \<and> sock_update_queue s' = sock_update_queue s \<and>
    sock_deleted_queue s' = sock_deleted_queue s \<and> active_poll_count s' = active_poll_count s \<and> iocp_handle s' = iocp_handle s \<and>
    (dom (groups s') \<noteq> dom (groups s) \<longrightarrow> (\<forall>g \<in> dom (groups s). group_full s g))"
proof -
  note D = groups_okD [OF assms(1)]
  obtain fs es where q: "poll_group_queue s = fs @ es" "\<forall>g \<in> set fs. group_full s g" "\<forall>g \<in> set es. \<not> group_full s g"
    using D(8) by blast
  show ?thesis
  proof (cases es rule: rev_cases)
    case Nil
    then have full: "\<forall>g \<in> dom (groups s). group_full s g" using q D(3) by auto
    let ?g = "next_address s"
    let ?s1 = "(os_call (os_call s))\<lparr>groups := (groups s)(?g \<mapsto> 0), next_address := Suc ?g,
      poll_group_queue := poll_group_queue s @ [?g]\<rparr>"
    have new: "?g \<notin> dom (groups s)" "?g \<notin> dom (socks s)" using assms(2) by (auto simp: alloc_ok_def)
    have pg: "\<forall>i k. socks s i = Some k \<longrightarrow> poll_group k \<in> dom (groups s)" using D(4) by blast
    then have "members s ?g = {}" using new(1) by (auto simp: members_def) (metis domIff)
    moreover have nf: "\<not> group_full ?s1 ?g" by (simp add: group_full_def POLL_GROUP__MAX_GROUP_SIZE_def)
    moreover have keep: "group_full ?s1 h" if "h \<in> set fs" for h
      using q(1,2) that new(1) D(3) by (auto simp: group_full_def)
    ultimately have g1: "groups_ok None ?s1"
      unfolding groups_ok_def using D(1-3,5,6) pg new q(1) Nil
      by (intro conjI exI [of _ fs] exI [of _ "[?g]"]) (auto simp: domI)
    have a1: "alloc_ok ?s1" using assms(2) by (auto simp: alloc_ok_def less_Suc_eq)
    obtain s' where j: "group_join ?g ?s1 = Inr (Inr ?g, s')" "groups_ok (Some ?g) s'" "socks s' = socks ?s1"
      "sock_tree s' = sock_tree ?s1" "sock_update_queue s' = sock_update_queue ?s1"
      "sock_deleted_queue s' = sock_deleted_queue ?s1" "dom (groups s') = dom (groups ?s1)"
      "next_address s' = next_address ?s1" "active_poll_count s' = active_poll_count ?s1" "iocp_handle s' = iocp_handle ?s1"
      using group_join_ok [OF g1 _ nf, of "poll_group_queue s"] by auto
    have a': "alloc_ok s'" using a1 unfolding alloc_ok_def j(3,7,8) .
    have make: "poll_group_acquire os s = and_then (poll_group__new os s) (\<lambda>(r, s1).
          case r of Inl e \<Rightarrow> Inr (Inl e, s1) | Inr g \<Rightarrow> group_join g s1)"
    proof (cases "poll_group_queue s = []")
      case False
      then have "group_full s (last (poll_group_queue s))" using full D(3) last_in_set by blast
      with False show ?thesis by (simp add: poll_group_acquire_def Let_def group_full_def)
    qed (simp add: poll_group_acquire_def)
    have os: "groups_ok None (os_call t) = groups_ok None t" "alloc_ok (os_call t) = alloc_ok t" for t
      by (simp_all add: groups_ok_def alloc_ok_def group_full_def)
    show ?thesis
      unfolding make poll_group__new_def
      using assms j a' full os by (auto simp: Let_def split: option.splits)
  next
    case (snoc es' g)
    then have g: "g \<in> set (poll_group_queue s)" "\<not> group_full s g" "last (poll_group_queue s) = g"
      "poll_group_queue s \<noteq> []" "poll_group_queue s = (fs @ es') @ [g]"
      using q by auto
    obtain n where n: "groups s g = Some n" using g(1) D(3) by auto
    have "poll_group_acquire os s = group_join g s"
      using g n full_iff [OF assms(1) n] by (simp add: poll_group_acquire_def Let_def)
    moreover obtain s' where j: "group_join g s = Inr (Inr g, s')" "groups_ok (Some g) s'" "socks s' = socks s"
      "sock_tree s' = sock_tree s" "sock_update_queue s' = sock_update_queue s"
      "sock_deleted_queue s' = sock_deleted_queue s" "dom (groups s') = dom (groups s)"
      "next_address s' = next_address s" "active_poll_count s' = active_poll_count s" "iocp_handle s' = iocp_handle s"
      using group_join_ok [OF assms(1) g(1,2,5)] by blast
    moreover have "alloc_ok s'" using assms(2) unfolding alloc_ok_def j(3,7,8) .
    ultimately show ?thesis by simp
  qed
qed

lemma members_remove:
  "members (s\<lparr>socks := (socks s)(i := None)\<rparr>) g = members s g - {i}"
  by (auto simp: members_def)

lemma members_add:
  "socks s i = None \<Longrightarrow> members (s\<lparr>socks := (socks s)(i \<mapsto> k)\<rparr>) g = (if poll_group k = g then insert i (members s g) else members s g)"
  by (auto simp: members_def)

lemma members_finite: "finite (dom (socks s)) \<Longrightarrow> finite (members s g)"
  by (rule finite_subset [of _ "dom (socks s)"]) (auto simp: members_def)

lemma groups_ok_remove:
  assumes "groups_ok None s" and "socks s i = Some k"
  shows "groups_ok (Some (poll_group k)) (s\<lparr>socks := (socks s)(i := None)\<rparr>)"
proof -
  note D = groups_okD [OF assms(1)]
  let ?s = "s\<lparr>socks := (socks s)(i := None)\<rparr>"
  have card: "card (members s (poll_group k)) = Suc (card (members s (poll_group k) - {i}))"
    using assms(2) by (intro card.remove members_finite D(1)) (auto simp: members_def)
  have other: "members s g - {i} = members s g" if "g \<noteq> poll_group k" for g
    using assms(2) that by (auto simp: members_def)
  show ?thesis
    unfolding groups_ok_def
  proof (intro conjI allI impI)
    fix g n
    assume n: "groups ?s g = Some n"
    show "n = card (members ?s g) + (if Some (poll_group k) = Some g then 1 else 0)"
      using D(5) [of g n] n card other by (cases "g = poll_group k") (auto simp: members_remove)
    show "n \<le> POLL_GROUP__MAX_GROUP_SIZE" using D(6) n by simp
  next
    show "\<exists>fs es. poll_group_queue ?s = fs @ es \<and> (\<forall>g\<in>set fs. group_full ?s g) \<and> (\<forall>g\<in>set es. \<not> group_full ?s g)"
      using D(8) by (simp add: group_full_def)
  qed (use D(1-3) D(4) [OF assms(2)] D(4) in \<open>auto split: if_splits\<close>)
qed

lemma groups_ok_add:
  assumes "groups_ok (Some (poll_group k)) s" and "socks s i = None"
  shows "groups_ok None (s\<lparr>socks := (socks s)(i \<mapsto> k)\<rparr>)"
proof -
  note D = groups_okD [OF assms(1)]
  let ?s = "s\<lparr>socks := (socks s)(i \<mapsto> k)\<rparr>"
  have card: "card (insert i (members s (poll_group k))) = Suc (card (members s (poll_group k)))"
    using assms(2) by (intro card_insert_disjoint members_finite D(1)) (auto simp: members_def)
  show ?thesis
    unfolding groups_ok_def
  proof (intro conjI allI impI)
    fix g n
    assume n: "groups ?s g = Some n"
    show "n = card (members ?s g) + (if None = Some g then 1 else 0)"
      using D(5) [of g n] n card assms(2) by (cases "g = poll_group k") (auto simp: members_add)
    show "n \<le> POLL_GROUP__MAX_GROUP_SIZE" using D(6) n by simp
  next
    show "\<exists>fs es. poll_group_queue ?s = fs @ es \<and> (\<forall>g\<in>set fs. group_full ?s g) \<and> (\<forall>g\<in>set es. \<not> group_full ?s g)"
      using D(8) by (simp add: group_full_def)
  qed (use D(1-3) D(7) D(4) in \<open>auto split: if_splits\<close>)
qed

lemma poll_group_release_ok:
  assumes "groups_ok (Some g) s"
  shows "\<exists>s' gs q. poll_group_release g s = Inr s' \<and> s' = s\<lparr>groups := gs, poll_group_queue := q\<rparr> \<and>
    dom gs = dom (groups s) \<and> groups_ok None s'"
proof -
  note D = groups_okD [OF assms]
  obtain n where n: "groups s g = Some n" using D(7) by auto
  have n1: "n = Suc (card (members s g))" "n \<le> POLL_GROUP__MAX_GROUP_SIZE"
    using D(5) [OF n] D(6) [OF n] by simp_all
  then have sz: "size_sub n 1 = n - 1" by (simp add: size_sub_def)
  obtain fs es where q: "poll_group_queue s = fs @ es" "\<forall>h \<in> set fs. group_full s h" "\<forall>h \<in> set es. \<not> group_full s h"
    using D(8) by blast
  let ?s = "s\<lparr>groups := (groups s)(g \<mapsto> n - 1), poll_group_queue := remove1 g (poll_group_queue s) @ [g]\<rparr>"
  have "remove1 g (fs @ es) = removeAll g fs @ removeAll g es"
    using D(2) q(1) by (metis distinct_append distinct_remove1_removeAll removeAll_append)
  moreover have "group_full ?s h" if "h \<in> set fs" "h \<noteq> g" for h using q(2) that by (simp add: group_full_def)
  moreover have "\<not> group_full ?s h" if "h \<in> set es" for h using q(3) that n1 by (auto simp: group_full_def)
  moreover have "\<not> group_full ?s g" using n1 by (auto simp: group_full_def POLL_GROUP__MAX_GROUP_SIZE_def)
  ultimately have sorted: "\<exists>fs' es'. poll_group_queue ?s = fs' @ es' \<and> (\<forall>h\<in>set fs'. group_full ?s h) \<and> (\<forall>h\<in>set es'. \<not> group_full ?s h)"
    using q(1) by (intro exI [of _ "removeAll g fs"] exI [of _ "removeAll g es @ [g]"]) simp
  have "groups_ok None ?s"
    unfolding groups_ok_def
  proof (intro conjI allI impI)
    fix h m
    assume m: "groups ?s h = Some m"
    show "m = card (members ?s h) + (if None = Some h then 1 else 0)" "m \<le> POLL_GROUP__MAX_GROUP_SIZE"
      using D(5) [of h m] D(6) [of h m] n1 m by (auto split: if_splits)
  next
    show "set (poll_group_queue ?s) = dom (groups ?s)" "distinct (poll_group_queue ?s)"
      using D(2,3) n by (auto simp: set_remove1_eq)
  qed (use D(1) D(4) sorted in auto)
  then show ?thesis
    using n n1 sz
    by (intro exI [of _ ?s] exI [of _ "(groups s)(g \<mapsto> n - 1)"] exI [of _ "remove1 g (poll_group_queue s) @ [g]"])
      (auto simp: poll_group_release_Inr)
qed

section \<open>Deleting a socket\<close>

lemma sock__unlink_effect:
  assumes "socks s i = Some k" and "\<not> delete_pending k"
  shows "\<exists>r s' k'. sock__unlink os i s = Inr (r, s') \<and> tree_key k' = tree_key k \<and> poll_group k' = poll_group k \<and>
    delete_pending k' \<and> (poll_status k' = SOCK__POLL_IDLE \<longleftrightarrow> poll_status k = SOCK__POLL_IDLE) \<and>
    socks s' = (socks s)(i \<mapsto> k') \<and> sock_tree s' = (sock_tree s)(tree_key k := None) \<and>
    sock_update_queue s' = remove1 i (sock_update_queue s) \<and> sock_deleted_queue s' = remove1 i (sock_deleted_queue s) \<and>
    groups s' = groups s \<and> poll_group_queue s' = poll_group_queue s \<and> next_address s' = next_address s \<and>
    active_poll_count s' = active_poll_count s \<and> iocp_handle s' = iocp_handle s"
proof (cases "poll_status k = SOCK__POLL_PENDING")
  case True
  show ?thesis
  proof (cases "afd_cancel_poll os (os_calls s)")
    case None
    with True assms show ?thesis
      by (intro exI [of _ "Inr ()"] exI exI [of _ "k\<lparr>poll_status := SOCK__POLL_CANCELLED, pending_events := 0, delete_pending := True\<rparr>"])
        (auto simp: sock__unlink_def sock__cancel_poll_def with_sock_def Let_def)
  next
    case (Some e)
    with True assms show ?thesis
      by (intro exI [of _ "Inr ()"] exI exI [of _ "k\<lparr>delete_pending := True\<rparr>"])
        (auto simp: sock__unlink_def sock__cancel_poll_def with_sock_def Let_def)
  qed
next
  case False
  with assms show ?thesis
    by (intro exI [of _ "Inr ()"] exI exI [of _ "k\<lparr>delete_pending := True\<rparr>"])
      (auto simp: sock__unlink_def with_sock_def Let_def)
qed

text \<open>The state between the two halves of \<^verbatim>\<open>sock__delete\<close>: the socket is out of the tree and the update queue.\<close>

definition unlinked :: "nat \<Rightarrow> sock_state \<Rightarrow> port_state \<Rightarrow> bool" where
  "unlinked i k s \<longleftrightarrow> socks s i = Some k \<and> delete_pending k \<and> tree_ok s \<and> groups_ok None s \<and> alloc_ok s \<and>
     i \<notin> set (sock_update_queue s) \<and> distinct (sock_update_queue s) \<and> distinct (sock_deleted_queue s) \<and>
     (\<forall>j \<in> set (sock_update_queue s). \<exists>m. socks s j = Some m \<and> \<not> delete_pending m) \<and>
     (\<forall>j. j \<noteq> i \<longrightarrow> (j \<in> set (sock_deleted_queue s) \<longleftrightarrow> (\<exists>m. socks s j = Some m \<and> delete_pending m))) \<and>
     (\<forall>j m. j \<noteq> i \<longrightarrow> socks s j = Some m \<longrightarrow> sock_ok s j m)"

lemma unlinked_of_ok:
  assumes "port_ok_but {i} s" and "socks s i = Some k" and "delete_pending k"
  shows "unlinked i k s"
  using assms by (auto simp: unlinked_def port_ok_but_def queues_ok_def)

lemma unlinked_of_unlink:
  assumes "port_ok_but {i} s" and "socks s i = Some k" and "\<not> delete_pending k"
    and "tree_key k' = tree_key k" and "poll_group k' = poll_group k" and "delete_pending k'"
    and "socks s' = (socks s)(i \<mapsto> k')" and "sock_tree s' = (sock_tree s)(tree_key k := None)"
    and "sock_update_queue s' = remove1 i (sock_update_queue s)" and "sock_deleted_queue s' = remove1 i (sock_deleted_queue s)"
    and "groups s' = groups s" and "poll_group_queue s' = poll_group_queue s" and "next_address s' = next_address s"
  shows "unlinked i k' s'"
proof -
  have t: "tree_ok s" and q: "queues_ok s" and g: "groups_ok None s" and a: "alloc_ok s"
    and o: "\<And>j m. j \<noteq> i \<Longrightarrow> socks s j = Some m \<Longrightarrow> sock_ok s j m"
    using assms(1) by (auto simp: port_ok_but_def)
  have u: "j = i" if "socks s j = Some m" "\<not> delete_pending m" "tree_key m = tree_key k" for j m
    using t that assms(2,3) unfolding tree_ok_def by (metis option.inject)
  have "tree_ok s'" using t assms(2,3,6-8) by (auto simp: tree_ok_def dest: u)
  moreover have "members s' h = members s h" for h using assms(2,5,7) by (auto simp: members_def)
  with g have "groups_ok None s'" using assms(2,5,7,11,12) by (auto simp: groups_ok_def group_full_def)
  moreover have "alloc_ok s'" using a assms(2,7,11,13) by (auto simp: alloc_ok_def)
  moreover have "sock_ok s' j m" if "j \<noteq> i" "socks s' j = Some m" for j m
    using o [of j m] that assms(7,9) by (auto simp: sock_ok_def)
  ultimately show ?thesis
    using q assms(6,7,9,10) by (auto simp: unlinked_def queues_ok_def)
qed

lemma poll_group_release_socks:
  assumes "poll_group_release g (s\<lparr>socks := f\<rparr>) = Inr s'"
  shows "\<exists>t. poll_group_release g s = Inr t \<and> s' = t\<lparr>socks := f\<rparr> \<and> socks t = socks s"
  using assms by (auto simp: poll_group_release_Inr)

lemma sock__delete_free:
  assumes "unlinked i k s"
  shows "\<exists>s'. and_then (poll_group_release (poll_group k) (port_remove_deleted_socket i s))
      (\<lambda>s2. Inr (Inr (), s2\<lparr>socks := (socks s2)(i := None)\<rparr>)) = Inr (Inr (), s') \<and>
    port_ok s' \<and> socks s' = (socks s)(i := None) \<and> sock_tree s' = sock_tree s \<and>
    sock_update_queue s' = sock_update_queue s \<and> sock_deleted_queue s' = remove1 i (sock_deleted_queue s) \<and>
    dom (groups s') = dom (groups s) \<and> active_poll_count s' = active_poll_count s \<and> iocp_handle s' = iocp_handle s"
proof -
  let ?g = "poll_group k" and ?s1 = "port_cancel_socket_update i s"
  have U: "socks s i = Some k" "delete_pending k" "tree_ok s" "groups_ok None s" "alloc_ok s"
    "i \<notin> set (sock_update_queue s)" "distinct (sock_update_queue s)" "distinct (sock_deleted_queue s)"
    "\<forall>j \<in> set (sock_update_queue s). \<exists>m. socks s j = Some m \<and> \<not> delete_pending m"
    "\<forall>j. j \<noteq> i \<longrightarrow> (j \<in> set (sock_deleted_queue s) \<longleftrightarrow> (\<exists>m. socks s j = Some m \<and> delete_pending m))"
    "\<And>j m. j \<noteq> i \<Longrightarrow> socks s j = Some m \<Longrightarrow> sock_ok s j m"
    using assms by (auto simp: unlinked_def)
  have "groups_ok None ?s1" using U(4) by (simp add: groups_ok_def group_full_def members_def)
  then have "groups_ok (Some ?g) (?s1\<lparr>socks := (socks s)(i := None)\<rparr>)"
    using groups_ok_remove [of ?s1 i k] U(1) by simp
  then obtain s2 gs q where s2: "poll_group_release ?g (?s1\<lparr>socks := (socks s)(i := None)\<rparr>) = Inr s2"
      "s2 = ?s1\<lparr>socks := (socks s)(i := None), groups := gs, poll_group_queue := q\<rparr>"
      "dom gs = dom (groups s)" "groups_ok None s2"
    using poll_group_release_ok by fastforce
  obtain t where rel: "poll_group_release ?g ?s1 = Inr t" "s2 = t\<lparr>socks := (socks s)(i := None)\<rparr>" "socks t = socks s"
    using poll_group_release_socks [OF s2(1)] by auto
  have "port_ok s2"
    unfolding port_ok_but_def
  proof (intro conjI)
    show "tree_ok s2" using U(1-3) s2(2) by (auto simp: tree_ok_def)
    show "queues_ok s2" using U(1,2,6-10) s2(2) by (auto simp: queues_ok_def set_remove1_eq)
    show "alloc_ok s2" using U(5) s2(2,3) by (auto simp: alloc_ok_def)
    show "\<forall>j m. j \<notin> {} \<longrightarrow> socks s2 j = Some m \<longrightarrow> sock_ok s2 j m"
      using U(6,11) s2(2) by (auto simp: sock_ok_def remove1_idem split: if_splits)
  qed (rule s2(4))
  moreover have "socks s2 = (socks s)(i := None)" "sock_tree s2 = sock_tree s" "dom (groups s2) = dom (groups s)"
    "sock_update_queue s2 = sock_update_queue s" "sock_deleted_queue s2 = remove1 i (sock_deleted_queue s)"
    "active_poll_count s2 = active_poll_count s" "iocp_handle s2 = iocp_handle s"
    using s2(2,3) U(6) by (simp_all add: remove1_idem)
  moreover have "and_then (poll_group_release (poll_group k) (port_remove_deleted_socket i s))
      (\<lambda>s2. Inr (Inr (), s2\<lparr>socks := (socks s2)(i := None)\<rparr>)) = Inr (Inr (), s2)"
    using rel by simp
  ultimately show ?thesis by blast
qed

lemma sock__delete_later:
  assumes "unlinked i k s" and "poll_status k \<noteq> SOCK__POLL_IDLE"
  shows "port_ok (port_add_deleted_socket i s)"
proof -
  let ?s = "port_add_deleted_socket i s"
  have U: "socks s i = Some k" "delete_pending k" "tree_ok s" "groups_ok None s" "alloc_ok s"
    "i \<notin> set (sock_update_queue s)" "distinct (sock_update_queue s)" "distinct (sock_deleted_queue s)"
    "\<forall>j \<in> set (sock_update_queue s). \<exists>m. socks s j = Some m \<and> \<not> delete_pending m"
    "\<forall>j. j \<noteq> i \<longrightarrow> (j \<in> set (sock_deleted_queue s) \<longleftrightarrow> (\<exists>m. socks s j = Some m \<and> delete_pending m))"
    "\<And>j m. j \<noteq> i \<Longrightarrow> socks s j = Some m \<Longrightarrow> sock_ok s j m"
    using assms by (auto simp: unlinked_def)
  have e: "sock_enqueued i s \<longleftrightarrow> i \<in> set (sock_deleted_queue s)" using U(6) by (auto simp: sock_enqueued_def)
  show ?thesis
    unfolding port_ok_but_def
  proof (intro conjI)
    show "queues_ok ?s" using U(1,2,6-10) e by (auto simp: queues_ok_def)
    show "\<forall>j m. j \<notin> {} \<longrightarrow> socks ?s j = Some m \<longrightarrow> sock_ok ?s j m"
    proof (intro allI impI)
      fix j m
      assume "socks ?s j = Some m"
      with U(1,2,11) assms(2) show "sock_ok ?s j m" by (cases "j = i") (auto simp: sock_ok_def)
    qed
  qed (use U(3-5) in \<open>simp_all add: tree_ok_def groups_ok_def alloc_ok_def group_full_def members_def\<close>)
qed

lemma sock__delete_ok:
  assumes "port_ok_but {i} s" and "socks s i = Some k"
  shows "\<exists>s'. sock__delete os i force s = Inr (Inr (), s') \<and> port_ok s' \<and>
    sock_tree s' = (if delete_pending k then sock_tree s else (sock_tree s)(tree_key k := None)) \<and>
    (\<forall>j. j \<noteq> i \<longrightarrow> socks s' j = socks s j) \<and>
    (force \<or> poll_status k = SOCK__POLL_IDLE \<longrightarrow> socks s' i = None) \<and>
    sock_update_queue s' = remove1 i (sock_update_queue s) \<and>
    dom (groups s') = dom (groups s) \<and> active_poll_count s' = active_poll_count s \<and> iocp_handle s' = iocp_handle s"
proof -
  have nq: "delete_pending k \<Longrightarrow> i \<notin> set (sock_update_queue s)"
    using assms by (auto simp: port_ok_but_def queues_ok_def)
  obtain r s1 k1 where u: "sock__unlink os i s = Inr (r, s1)" "unlinked i k1 s1" "poll_group k1 = poll_group k"
    "poll_status k1 = SOCK__POLL_IDLE \<longleftrightarrow> poll_status k = SOCK__POLL_IDLE"
    "sock_tree s1 = (if delete_pending k then sock_tree s else (sock_tree s)(tree_key k := None))"
    "socks s1 = (socks s)(i \<mapsto> k1)" "sock_update_queue s1 = remove1 i (sock_update_queue s)"
    "groups s1 = groups s" "active_poll_count s1 = active_poll_count s" "iocp_handle s1 = iocp_handle s"
  proof (cases "delete_pending k")
    case True
    have "sock__unlink os i s = Inr (Inr (), s)"
      using assms(2) True by (auto simp: sock__unlink_def with_sock_def)
    with that [of "Inr ()" s k] unlinked_of_ok [OF assms True] True nq assms(2) show ?thesis
      by (simp add: remove1_idem fun_upd_idem)
  next
    case False
    obtain r s1 k1 where e: "sock__unlink os i s = Inr (r, s1)" "tree_key k1 = tree_key k" "poll_group k1 = poll_group k"
      "delete_pending k1" "poll_status k1 = SOCK__POLL_IDLE \<longleftrightarrow> poll_status k = SOCK__POLL_IDLE"
      "socks s1 = (socks s)(i \<mapsto> k1)" "sock_tree s1 = (sock_tree s)(tree_key k := None)"
      "sock_update_queue s1 = remove1 i (sock_update_queue s)" "sock_deleted_queue s1 = remove1 i (sock_deleted_queue s)"
      "groups s1 = groups s" "poll_group_queue s1 = poll_group_queue s" "next_address s1 = next_address s"
      "active_poll_count s1 = active_poll_count s" "iocp_handle s1 = iocp_handle s"
      using sock__unlink_effect [OF assms(2) False, of os] by blast
    show ?thesis
      by (rule that [OF e(1) unlinked_of_unlink [OF assms False e(2-4,6-12)]]) (use e False in simp_all)
  qed
  have k1: "socks s1 i = Some k1" using u(6) by simp
  show ?thesis
  proof (cases "force \<or> poll_status k1 = SOCK__POLL_IDLE")
    case True
    then show ?thesis
      using u k1 sock__delete_free [OF u(2)] by (auto simp: sock__delete_def with_sock_def)
  next
    case False
    then show ?thesis
      using u k1 sock__delete_later [OF u(2)] by (auto simp: sock__delete_def with_sock_def)
  qed
qed

section \<open>Watching sockets\<close>

text \<open>What the port watches: for each registered socket the events and the data of its user.\<close>

definition interest :: "port_state \<Rightarrow> nat \<Rightarrow> (32 word \<times> nat) option" where
  "interest s n = (case sock_tree s n of
      None \<Rightarrow> None
    | Some i \<Rightarrow> map_option (\<lambda>k. (user_events k, user_data k)) (socks s i))"

lemma interest_cong: "sock_tree s' = sock_tree s \<Longrightarrow> socks s' = socks s \<Longrightarrow> interest s' = interest s"
  by (rule ext) (simp add: interest_def split: option.splits)

lemma treeD:
  assumes "port_ok_but X s" and "sock_tree s n = Some i"
  obtains k where "socks s i = Some k" and "\<not> delete_pending k" and "tree_key k = n"
  using assms by (auto simp: port_ok_but_def tree_ok_def)

lemma tree_inj:
  assumes "port_ok_but X s" and "sock_tree s n = Some i" and "sock_tree s m = Some i"
  shows "n = m"
  using assms by (auto simp: port_ok_but_def tree_ok_def)

lemma interest_update:
  assumes "port_ok_but X s" and "sock_tree s n = Some i" and "sock_tree s' = sock_tree s"
    and "socks s' = (socks s)(i \<mapsto> k')"
  shows "interest s' = (interest s)(n \<mapsto> (user_events k', user_data k'))"
proof
  fix m
  show "interest s' m = ((interest s)(n \<mapsto> (user_events k', user_data k'))) m"
  proof (cases "m = n")
    case True
    then show ?thesis using assms(2-4) by (simp add: interest_def)
  next
    case False
    then have "sock_tree s m \<noteq> Some i" using tree_inj [OF assms(1,2)] by blast
    with False assms(3,4) show ?thesis by (cases "sock_tree s m") (auto simp: interest_def)
  qed
qed

lemma interest_remove:
  assumes "port_ok_but X s" and "sock_tree s n = Some i" and "sock_tree s' = (sock_tree s)(n := None)"
    and "\<forall>j. j \<noteq> i \<longrightarrow> socks s' j = socks s j"
  shows "interest s' = (interest s)(n := None)"
proof
  fix m
  show "interest s' m = ((interest s)(n := None)) m"
  proof (cases "m = n")
    case True
    then show ?thesis using assms(2-4) by (simp add: interest_def)
  next
    case False
    then have "sock_tree s m \<noteq> Some i" using tree_inj [OF assms(1,2)] by blast
    with False assms(3,4) show ?thesis by (cases "sock_tree s m") (auto simp: interest_def)
  qed
qed

text \<open>Giving back the group of a socket that could not be created restores the port.\<close>

lemma port_ok_same_socks:
  assumes "port_ok s" and "groups_ok None t" and "alloc_ok t" and "socks t = socks s" and "sock_tree t = sock_tree s"
    and "sock_update_queue t = sock_update_queue s" and "sock_deleted_queue t = sock_deleted_queue s"
  shows "port_ok t"
  using assms by (simp add: port_ok_but_def tree_ok_def queues_ok_def sock_ok_def)

lemma release_unused:
  assumes "port_ok s" and "groups_ok (Some g) t" and "alloc_ok t" and "socks t = socks s" and "sock_tree t = sock_tree s"
    and "sock_update_queue t = sock_update_queue s" and "sock_deleted_queue t = sock_deleted_queue s"
  shows "\<exists>t'. poll_group_release g t = Inr t' \<and> port_ok t' \<and> interest t' = interest s \<and>
    active_poll_count t' = active_poll_count t \<and> iocp_handle t' = iocp_handle t"
proof -
  obtain t' gs q where t': "poll_group_release g t = Inr t'" "t' = t\<lparr>groups := gs, poll_group_queue := q\<rparr>"
    "dom gs = dom (groups t)" "groups_ok None t'"
    using poll_group_release_ok [OF assms(2)] by blast
  have "alloc_ok t'" using assms(3) t'(2,3) by (simp add: alloc_ok_def)
  then have "port_ok t'"
    using assms(4-7) t'(2) by (intro port_ok_same_socks [OF assms(1) t'(4)]) simp_all
  with t' assms(4,5) interest_cong [of t' s] show ?thesis by simp
qed

lemma register_new:
  assumes "port_ok s" and "groups_ok (Some (poll_group k)) t" and "alloc_ok t" and "socks t = socks s"
    and "sock_tree t = sock_tree s" and "sock_update_queue t = sock_update_queue s"
    and "sock_deleted_queue t = sock_deleted_queue s"
    and "sock_tree s (tree_key k) = None" and "\<not> delete_pending k"
  shows "port_ok_but {next_address t} (t\<lparr>sock_tree := (sock_tree t)(tree_key k \<mapsto> next_address t),
    socks := (socks t)(next_address t \<mapsto> k), next_address := Suc (next_address t)\<rparr>)" (is "port_ok_but _ ?t")
proof -
  let ?i = "next_address t"
  have new: "socks s ?i = None" using assms(3,4) by (auto simp: alloc_ok_def)
  have inv: "tree_ok s" "queues_ok s" "\<And>i k. socks s i = Some k \<Longrightarrow> sock_ok s i k"
    using assms(1) by (auto simp: port_ok_but_def)
  have "groups_ok None (t\<lparr>socks := (socks t)(?i \<mapsto> k)\<rparr>)"
    using groups_ok_add [OF assms(2)] new assms(4) by simp
  then have "groups_ok None ?t" by (simp add: groups_ok_def group_full_def members_def)
  moreover have key: "tree_key m \<noteq> tree_key k" if "socks s j = Some m" "\<not> delete_pending m" for j m
    using inv(1) assms(8) that unfolding tree_ok_def by (metis option.distinct(1))
  have "tree_ok ?t"
    using inv(1) assms(4,5,8,9) new by (auto simp: tree_ok_def dest: key)
  moreover have "queues_ok ?t" using inv(2) assms(4,6,7,9) new by (auto simp: queues_ok_def)
  moreover have "alloc_ok ?t" using assms(3) by (auto simp: alloc_ok_def less_Suc_eq)
  moreover have "sock_ok ?t j m" if "j \<noteq> ?i" "socks ?t j = Some m" for j m
    using inv(3) that assms(4,6) by (auto simp: sock_ok_def)
  ultimately show ?thesis by (simp add: port_ok_but_def)
qed

lemma groups_ok_os_call [simp]: "groups_ok x (os_call s) = groups_ok x s"
  by (simp add: groups_ok_def group_full_def)

lemma groups_ok_socks_cong:
  "groups_ok x s \<Longrightarrow> socks t = socks s \<Longrightarrow> groups t = groups s \<Longrightarrow> poll_group_queue t = poll_group_queue s \<Longrightarrow> groups_ok x t"
  by (simp add: groups_ok_def group_full_def members_def)

lemma sock_new_ok:
  assumes "port_ok s" and "iocp_handle s \<noteq> None"
  shows "\<exists>r s'. sock_new os n s = Inr (r, s') \<and> iocp_handle s' = iocp_handle s \<and> active_poll_count s' = active_poll_count s \<and>
    (case r of
       Inl e \<Rightarrow> port_ok s' \<and> interest s' = interest s
     | Inr i \<Rightarrow> port_ok_but {i} s' \<and> sock_tree s n = None \<and> sock_tree s' = (sock_tree s)(n \<mapsto> i) \<and>
         (\<exists>k. socks s' = (socks s)(i \<mapsto> k) \<and> socks s i = None \<and> \<not> delete_pending k \<and> pending_events k = 0))"
proof (cases "n = 0 \<or> n = INVALID_SOCKET")
  case True
  then show ?thesis using assms by (simp add: sock_new_def)
next
  case valid: False
  show ?thesis
  proof (cases "get_base_socket os n")
    case (Inl e)
    with valid assms show ?thesis by (simp add: sock_new_def)
  next
    case (Inr base)
    have inv: "tree_ok s" "queues_ok s" "groups_ok None s" "alloc_ok s" "\<And>i k. socks s i = Some k \<Longrightarrow> sock_ok s i k"
      using assms(1) by (auto simp: port_ok_but_def)
    obtain r s1 where a: "poll_group_acquire os s = Inr (r, s1)"
      "case r of Inl e \<Rightarrow> groups_ok None s1 | Inr g \<Rightarrow> groups_ok (Some g) s1" "alloc_ok s1"
      "socks s1 = socks s" "sock_tree s1 = sock_tree s" "sock_update_queue s1 = sock_update_queue s"
      "sock_deleted_queue s1 = sock_deleted_queue s" "active_poll_count s1 = active_poll_count s" "iocp_handle s1 = iocp_handle s"
      using poll_group_acquire_ok [OF inv(3,4) assms(2), of os] by blast
    show ?thesis
    proof (cases r)
      case (Inl e)
      with a(2) have "port_ok s1" using port_ok_same_socks [OF assms(1) _ a(3-7)] by simp
      with Inl valid Inr a interest_cong [OF a(5,4)] show ?thesis by (simp add: sock_new_def)
    next
      case g: (Inr g)
      let ?i = "next_address s1"
      let ?k = "\<lparr>tree_key = n, poll_group = g, base_socket = base, user_data = 0, user_events = 0,
                pending_events = 0, poll_status = SOCK__POLL_IDLE, delete_pending = False, poll_info_events = 0\<rparr>"
      let ?s2 = "set_sock ?i ?k ((os_call s1)\<lparr>next_address := Suc ?i\<rparr>)"
      have G: "groups_ok (Some g) s1" using a(2) g by simp
      have new: "socks s ?i = None" using a(3,4) by (auto simp: alloc_ok_def)
      consider (nomem) "\<not> malloc_ok os (os_calls s1)" | (dup) j where "malloc_ok os (os_calls s1)" "sock_tree s n = Some j"
        | (ok) "malloc_ok os (os_calls s1)" "sock_tree s n = None" by (cases "sock_tree s n") auto
      then show ?thesis
      proof cases
        case nomem
        have "alloc_ok (os_call s1)" using a(3) by (simp add: alloc_ok_def)
        with release_unused [OF assms(1), of g "os_call s1"] G a(4-9) valid Inr a(1) g nomem show ?thesis
          by (auto simp: sock_new_def)
      next
        case dup
        let ?s3 = "?s2\<lparr>socks := (socks ?s2)(?i := None)\<rparr>"
        have s3: "socks ?s3 = socks s" using new a(4) by (auto simp: fun_upd_idem)
        have "groups_ok (Some g) ?s3" by (rule groups_ok_socks_cong [OF G]) (use s3 a(4) in simp_all)
        moreover have "alloc_ok ?s3" using a(3,4) s3 by (auto simp: alloc_ok_def less_Suc_eq)
        ultimately show ?thesis
          using release_unused [OF assms(1), of g ?s3] s3 a valid Inr g dup
          by (auto simp: sock_new_def port_register_socket_def Let_def)
      next
        case ok
        let ?s3 = "?s2\<lparr>sock_tree := (sock_tree ?s2)(n \<mapsto> ?i)\<rparr>"
        have "sock_new os n s = Inr (Inr ?i, ?s3)"
          using valid Inr a(1,5) g ok by (simp add: sock_new_def port_register_socket_def Let_def)
        moreover have "port_ok_but {?i} ?s3"
          using register_new [OF assms(1), of ?k s1] G a(3-7) ok(2)
          by (simp add: set_sock_def os_call_def) (subst port_ok_but_cong; simp)
        ultimately show ?thesis using a(4,5,8,9) ok(2) new by auto
      qed
    qed
  qed
qed

lemma known_err_hup:
  "(ev OR EPOLLERR OR EPOLLHUP) AND SOCK__KNOWN_EPOLL_EVENTS AND NOT 0 \<noteq> 0"
proof
  assume "(ev OR EPOLLERR OR EPOLLHUP) AND SOCK__KNOWN_EPOLL_EVENTS AND NOT 0 = 0"
  then have "\<not> bit ((ev OR EPOLLERR OR EPOLLHUP) AND SOCK__KNOWN_EPOLL_EVENTS AND NOT 0) 3" by simp
  moreover have "bit EPOLLERR 3" "bit SOCK__KNOWN_EPOLL_EVENTS 3"
    by (simp_all add: SOCK__KNOWN_EPOLL_EVENTS_def epoll_flags bit_or_iff)
  ultimately show False by (simp add: bit_and_iff bit_or_iff bit_not_iff)
qed

lemma sock_set_event_ok:
  assumes "port_ok_but {i} s" and "socks s i = Some k" and "\<not> delete_pending k"
    and "poll_status k \<noteq> SOCK__POLL_PENDING \<longrightarrow> pending_events k = 0"
  shows "\<exists>s'. sock_set_event i ev s = Inr (Inr (), s') \<and> port_ok s' \<and> sock_tree s' = sock_tree s \<and>
    (\<exists>k'. socks s' = (socks s)(i \<mapsto> k') \<and> user_events k' = ev_events ev OR EPOLLERR OR EPOLLHUP \<and> user_data k' = ev_data ev) \<and>
    active_poll_count s' = active_poll_count s \<and> iocp_handle s' = iocp_handle s"
proof -
  let ?e = "ev_events ev OR EPOLLERR OR EPOLLHUP"
  let ?k = "k\<lparr>user_events := ?e, user_data := ev_data ev\<rparr>"
  let ?s = "set_sock i ?k s"
  have ok: "port_ok_but {i} ?s" using port_ok_set_sock [OF assms(1,2), of ?k] by simp
  have k: "socks ?s i = Some ?k" "\<not> delete_pending ?k" using assms(3) by simp_all
  show ?thesis
  proof (cases "?e AND SOCK__KNOWN_EPOLL_EVENTS AND NOT (pending_events k) = 0")
    case True
    then have "pending_events k \<noteq> 0" using known_err_hup by metis
    with assms(4) True have "sock_ok ?s i ?k"
      using assms(3) by (auto simp: sock_ok_def missing_events_def)
    then have "port_ok ?s" using k(1) by (intro port_ok_but_restore [of i "{}", OF ok]) simp
    with True assms(2) show ?thesis by (auto simp: sock_set_event_def with_sock_def Let_def)
  next
    case False
    have "port_ok (port_request_socket_update i ?s)" using assms(4) by (intro port_ok_request [OF ok k]) simp
    with False assms(2) show ?thesis by (auto simp: sock_set_event_def with_sock_def Let_def)
  qed
qed

section \<open>Submitting poll operations\<close>

lemma sock_update_ok:
  assumes "port_ok s" and "socks s i = Some k" and "\<not> delete_pending k"
  shows "\<exists>r s'. sock_update os i s = Inr (r, s') \<and> port_ok s' \<and> active_poll_count s' = active_poll_count s \<and>
    iocp_handle s' = iocp_handle s \<and>
    (interest s' = interest s \<or> afd_poll os (os_calls s) = Some ERROR_INVALID_HANDLE \<and> interest s' = (interest s)(tree_key k := None))"
proof -
  have t: "sock_tree s (tree_key k) = Some i" using assms by (auto simp: port_ok_but_def tree_ok_def)
  have fin: "port_ok (port_cancel_socket_update i t)"
    if "port_ok_but {i} t" "socks t i = Some m" "\<not> delete_pending m"
      "poll_status m = SOCK__POLL_PENDING \<and> missing_events m = 0 \<or> poll_status m = SOCK__POLL_CANCELLED \<and> pending_events m = 0" for t m
    using port_ok_cancel [OF that(1-3)] that by (intro port_ok_but_restore [of i "{}"]) (auto simp: sock_ok_def)
  have int: "interest t = interest s" if "sock_tree t = sock_tree s" "socks t = (socks s)(i \<mapsto> m)"
    "user_events m = user_events k" "user_data m = user_data k" for t m
    using interest_update [OF assms(1) t that(1,2)] that(3,4) t assms(2)
    by (simp add: fun_upd_idem interest_def)
  have ok': "port_ok_but {i} s" using assms(1) by (rule port_ok_but_mono) simp
  have k: "sock_ok s i k" using assms(1,2) by (auto simp: port_ok_but_def)
  show ?thesis
  proof (cases "poll_status k")
    case SOCK__POLL_PENDING
    let ?k = "k\<lparr>poll_status := SOCK__POLL_CANCELLED, pending_events := 0\<rparr>"
    let ?s = "set_sock i ?k (os_call s)"
    have "port_ok (port_cancel_socket_update i s)" if "missing_events k = 0"
      using fin [OF ok' assms(2,3)] SOCK__POLL_PENDING that by simp
    moreover have "port_ok_but {i} ?s" using port_ok_set_sock [of "{}" "os_call s" i k ?k] assms by simp
    then have "port_ok (port_cancel_socket_update i ?s)" using fin [of ?s ?k] assms(3) by simp
    ultimately show ?thesis
      using assms SOCK__POLL_PENDING int [of "port_cancel_socket_update i s" k] int [of "port_cancel_socket_update i ?s" ?k]
        int [of "os_call s" k]
      by (auto simp: sock_update_def sock__cancel_poll_def with_sock_def fun_upd_idem split: option.splits)
  next
    case SOCK__POLL_CANCELLED
    then have "port_ok (port_cancel_socket_update i s)" using fin [OF ok' assms(2,3)] k assms(3) by (simp add: sock_ok_def)
    then show ?thesis
      using assms SOCK__POLL_CANCELLED int [of "port_cancel_socket_update i s" k]
      by (auto simp: sock_update_def with_sock_def fun_upd_idem)
  next
    case SOCK__POLL_IDLE
    let ?k1 = "k\<lparr>poll_info_events := sock__epoll_events_to_afd_events (user_events k)\<rparr>"
    let ?s1 = "set_sock i ?k1 (os_call s)"
    let ?k2 = "?k1\<lparr>poll_status := SOCK__POLL_PENDING, pending_events := user_events k\<rparr>"
    let ?s2 = "set_sock i ?k2 ?s1"
    have 1: "port_ok_but {i} ?s1" using port_ok_set_sock [of "{}" "os_call s" i k ?k1] assms by simp
    have 2: "port_ok_but {i} ?s2" using port_ok_set_sock [OF 1, of i ?k1 ?k2] by simp
    have "missing_events ?k2 = 0" by (simp add: missing_events_def ac_simps bit.conj_cancel_right)
    then have 3: "port_ok (port_cancel_socket_update i ?s2)" using fin [OF 2, of ?k2] assms(3) by simp
    have 4: "port_ok ?s1"
      using k assms(3) by (intro port_ok_but_restore [of i "{}", OF 1]) (auto simp: sock_ok_def missing_events_def)
    obtain s3 where d: "sock__delete os i False ?s1 = Inr (Inr (), s3)" "port_ok s3"
      "sock_tree s3 = (sock_tree s)(tree_key k := None)" "\<forall>j. j \<noteq> i \<longrightarrow> socks s3 j = socks s j"
      "active_poll_count s3 = active_poll_count s" "iocp_handle s3 = iocp_handle s"
      using sock__delete_ok [OF 1, of ?k1 os False] assms(3) by auto
    have "interest s3 = (interest s)(tree_key k := None)" by (rule interest_remove [OF assms(1) t d(3,4)])
    with 3 4 d int [of "port_cancel_socket_update i ?s2" ?k2] int [of ?s1 ?k1] show ?thesis
      using assms SOCK__POLL_IDLE
      by (auto simp: sock_update_def with_sock_def Let_def split: option.splits)
  qed
qed

lemma port__update_events_ok:
  assumes "port_ok s"
  shows "\<exists>r s'. port__update_events os s = Inr (r, s') \<and> port_ok s' \<and> active_poll_count s' = active_poll_count s \<and>
    iocp_handle s' = iocp_handle s \<and> (r = Inr () \<longrightarrow> sock_update_queue s' = []) \<and> interest s' \<subseteq>\<^sub>m interest s \<and>
    ((\<forall>n. afd_poll os n \<noteq> Some ERROR_INVALID_HANDLE) \<longrightarrow> interest s' = interest s)"
  using assms
proof (induction os s rule: port__update_events.induct)
  case (1 os s)
  show ?case
  proof (cases "sock_update_queue s")
    case Nil
    then show ?thesis using 1(2) by (simp add: port__update_events.simps)
  next
    case (Cons i q)
    then obtain k where k: "socks s i = Some k" "\<not> delete_pending k"
      using 1(2) by (auto simp: port_ok_but_def queues_ok_def)
    obtain r s1 where u: "sock_update os i s = Inr (r, s1)" "port_ok s1" "active_poll_count s1 = active_poll_count s"
      "iocp_handle s1 = iocp_handle s"
      "interest s1 = interest s \<or> afd_poll os (os_calls s) = Some ERROR_INVALID_HANDLE \<and> interest s1 = (interest s)(tree_key k := None)"
      using sock_update_ok [OF 1(2) k, of os] by blast
    have sub: "interest s1 \<subseteq>\<^sub>m interest s" using u(5) by (auto simp: map_le_def split: if_splits)
    show ?thesis
    proof (cases r)
      case (Inl e)
      with Cons u sub show ?thesis by (auto simp: port__update_events.simps [of os s])
    next
      case (Inr x)
      obtain r' s' where s': "port__update_events os s1 = Inr (r', s')" "port_ok s'"
        "active_poll_count s' = active_poll_count s1" "iocp_handle s' = iocp_handle s1"
        "r' = Inr () \<longrightarrow> sock_update_queue s' = []" "interest s' \<subseteq>\<^sub>m interest s1"
        "(\<forall>n. afd_poll os n \<noteq> Some ERROR_INVALID_HANDLE) \<longrightarrow> interest s' = interest s1"
        using 1(1) [OF Cons u(1)] Inr u(2) by auto
      have "port__update_events os s = Inr (r', s')"
        using Cons u(1) Inr s'(1) by (simp add: port__update_events.simps [of os s])
      with s' u sub show ?thesis using map_le_trans [OF s'(6) sub] by auto
    qed
  qed
qed

lemma port__update_events_if_polling_ok:
  assumes "port_ok s"
  obtains s' where "port__update_events_if_polling os s = Inr s'" and "port_ok s'"
    and "active_poll_count s' = active_poll_count s" and "iocp_handle s' = iocp_handle s"
    and "active_poll_count s = 0 \<longrightarrow> s' = s"
proof (cases "active_poll_count s > 0")
  case True
  obtain r s' where "port__update_events os s = Inr (r, s')" "port_ok s'"
    "active_poll_count s' = active_poll_count s" "iocp_handle s' = iocp_handle s"
    using port__update_events_ok [OF assms, of os] by blast
  with True show ?thesis by (intro that [of s']) (simp_all add: port__update_events_if_polling_def)
next
  case False
  with assms show ?thesis by (intro that [of s]) (simp_all add: port__update_events_if_polling_def)
qed

section \<open>Control operations\<close>

lemma port__ctl_add_ok:
  assumes "port_ok s" and "iocp_handle s \<noteq> None"
  shows "\<exists>r s'. port__ctl_add os n ev s = Inr (r, s') \<and> port_ok s' \<and> active_poll_count s' = active_poll_count s \<and>
    iocp_handle s' = iocp_handle s \<and>
    (r = Inr () \<longrightarrow> interest s n = None \<and> (active_poll_count s = 0 \<longrightarrow>
       interest s' = (interest s)(n \<mapsto> (ev_events ev OR EPOLLERR OR EPOLLHUP, ev_data ev)))) \<and>
    (r \<noteq> Inr () \<longrightarrow> interest s' = interest s)"
proof -
  obtain r s1 where n: "sock_new os n s = Inr (r, s1)" "iocp_handle s1 = iocp_handle s" "active_poll_count s1 = active_poll_count s"
    "case r of
       Inl e \<Rightarrow> port_ok s1 \<and> interest s1 = interest s
     | Inr i \<Rightarrow> port_ok_but {i} s1 \<and> sock_tree s n = None \<and> sock_tree s1 = (sock_tree s)(n \<mapsto> i) \<and>
         (\<exists>k. socks s1 = (socks s)(i \<mapsto> k) \<and> socks s i = None \<and> \<not> delete_pending k \<and> pending_events k = 0)"
    using sock_new_ok [OF assms, of os n] by blast
  show ?thesis
  proof (cases r)
    case (Inl e)
    with n show ?thesis by (simp add: port__ctl_add_def)
  next
    case (Inr i)
    then obtain k where i: "port_ok_but {i} s1" "sock_tree s n = None" "sock_tree s1 = (sock_tree s)(n \<mapsto> i)"
      "socks s1 = (socks s)(i \<mapsto> k)" "socks s i = None" "\<not> delete_pending k" "pending_events k = 0"
      using n(4) by auto
    have k1: "socks s1 i = Some k" using i(4) by simp
    obtain s2 k' where e: "sock_set_event i ev s1 = Inr (Inr (), s2)" "port_ok s2" "sock_tree s2 = sock_tree s1"
      "socks s2 = (socks s1)(i \<mapsto> k')" "user_events k' = ev_events ev OR EPOLLERR OR EPOLLHUP" "user_data k' = ev_data ev"
      "active_poll_count s2 = active_poll_count s1" "iocp_handle s2 = iocp_handle s1"
      using sock_set_event_ok [OF i(1) k1 i(6), of ev] i(7) by blast
    obtain s3 where p: "port__update_events_if_polling os s2 = Inr s3" "port_ok s3" "active_poll_count s3 = active_poll_count s2"
      "iocp_handle s3 = iocp_handle s2" "active_poll_count s2 = 0 \<longrightarrow> s3 = s2"
      by (rule port__update_events_if_polling_ok [OF e(2)])
    have "interest s1 n = Some (user_events k, user_data k)" "\<And>m. m \<noteq> n \<Longrightarrow> interest s1 m = interest s m"
    proof -
      show "interest s1 n = Some (user_events k, user_data k)" using i by (simp add: interest_def)
      fix m
      assume m: "m \<noteq> n"
      have "sock_tree s m \<noteq> Some i" using assms(1) i(5) by (auto simp: port_ok_but_def tree_ok_def)
      with m i(3,4) show "interest s1 m = interest s m" by (cases "sock_tree s m") (auto simp: interest_def)
    qed
    then have "interest s2 = (interest s)(n \<mapsto> (user_events k', user_data k'))"
      using interest_update [OF i(1) _ e(3,4), of n] i(3) by (auto simp: fun_eq_iff)
    moreover have "port__ctl_add os n ev s = Inr (Inr (), s3)"
      by (simp add: port__ctl_add_def n(1) Inr e(1) p(1))
    moreover have "interest s n = None" using i(2) by (simp add: interest_def)
    ultimately show ?thesis using n(2,3) e(5-8) p(2-5) by simp
  qed
qed

lemma port__ctl_mod_ok:
  assumes "port_ok s"
  shows "\<exists>r s'. port__ctl_mod os n ev s = Inr (r, s') \<and> port_ok s' \<and> active_poll_count s' = active_poll_count s \<and>
    iocp_handle s' = iocp_handle s \<and> (r = Inr () \<longleftrightarrow> interest s n \<noteq> None) \<and>
    (r = Inr () \<longrightarrow> active_poll_count s = 0 \<longrightarrow>
       interest s' = (interest s)(n \<mapsto> (ev_events ev OR EPOLLERR OR EPOLLHUP, ev_data ev))) \<and>
    (r \<noteq> Inr () \<longrightarrow> s' = s)"
proof (cases "sock_tree s n")
  case None
  then show ?thesis using assms by (simp add: port__ctl_mod_def port_find_socket_def interest_def)
next
  case (Some i)
  then obtain k where k: "socks s i = Some k" "\<not> delete_pending k" using treeD [OF assms] by blast
  have ok': "port_ok_but {i} s" using assms by (rule port_ok_but_mono) simp
  have "sock_ok s i k" using assms k(1) by (auto simp: port_ok_but_def)
  then have pe: "poll_status k \<noteq> SOCK__POLL_PENDING \<longrightarrow> pending_events k = 0" using k(2) by (simp add: sock_ok_def)
  obtain s2 k' where e: "sock_set_event i ev s = Inr (Inr (), s2)" "port_ok s2" "sock_tree s2 = sock_tree s"
    "socks s2 = (socks s)(i \<mapsto> k')" "user_events k' = ev_events ev OR EPOLLERR OR EPOLLHUP" "user_data k' = ev_data ev"
    "active_poll_count s2 = active_poll_count s" "iocp_handle s2 = iocp_handle s"
    using sock_set_event_ok [OF ok' k pe, of ev] by blast
  obtain s3 where p: "port__update_events_if_polling os s2 = Inr s3" "port_ok s3" "active_poll_count s3 = active_poll_count s2"
    "iocp_handle s3 = iocp_handle s2" "active_poll_count s2 = 0 \<longrightarrow> s3 = s2"
    by (rule port__update_events_if_polling_ok [OF e(2)])
  have "interest s n \<noteq> None" using Some k by (simp add: interest_def)
  moreover have "port__ctl_mod os n ev s = Inr (Inr (), s3)"
    by (simp add: port__ctl_mod_def port_find_socket_def Some e(1) p(1))
  ultimately show ?thesis using interest_update [OF assms Some e(3,4)] e(5-8) p(2-5) by simp
qed

lemma port__ctl_del_ok:
  assumes "port_ok s"
  shows "\<exists>r s'. port__ctl_del os n s = Inr (r, s') \<and> port_ok s' \<and> active_poll_count s' = active_poll_count s \<and>
    iocp_handle s' = iocp_handle s \<and> (r = Inr () \<longleftrightarrow> interest s n \<noteq> None) \<and> interest s' = (interest s)(n := None)"
proof (cases "sock_tree s n")
  case None
  then show ?thesis
    using assms by (auto simp: port__ctl_del_def port_find_socket_def interest_def fun_eq_iff)
next
  case (Some i)
  then obtain k where k: "socks s i = Some k" "\<not> delete_pending k" "tree_key k = n" using treeD [OF assms] by blast
  have ok': "port_ok_but {i} s" using assms by (rule port_ok_but_mono) simp
  obtain s' where d: "sock__delete os i False s = Inr (Inr (), s')" "port_ok s'" "sock_tree s' = (sock_tree s)(n := None)"
    "\<forall>j. j \<noteq> i \<longrightarrow> socks s' j = socks s j" "active_poll_count s' = active_poll_count s" "iocp_handle s' = iocp_handle s"
    using sock__delete_ok [OF ok' k(1), of os False] k by auto
  have "interest s n \<noteq> None" using Some k by (simp add: interest_def)
  moreover have "port__ctl_del os n s = Inr (Inr (), s')"
    by (simp add: port__ctl_del_def port_find_socket_def Some d(1))
  ultimately show ?thesis using interest_remove [OF assms Some d(3,4)] d(2,5,6) by simp
qed

lemma port_ctl_ok:
  assumes "port_ok s" and "iocp_handle s \<noteq> None"
  shows "\<exists>r s'. port_ctl os op n ev s = Inr (r, s') \<and> port_ok s' \<and> active_poll_count s' = active_poll_count s \<and>
    iocp_handle s' = iocp_handle s"
  using port__ctl_add_ok [OF assms, of os n ev] port__ctl_mod_ok [OF assms(1), of os n ev]
    port__ctl_del_ok [OF assms(1), of os n] assms(1)
  by (auto simp: port_ctl_def)

section \<open>Completions\<close>

text \<open>An event reported for a socket: some of what its user asked for, with the data of the user.\<close>

definition reported_for :: "sock_state \<Rightarrow> epoll_event \<Rightarrow> bool" where
  "reported_for k ev \<longleftrightarrow> ev_events ev \<noteq> 0 \<and> ev_events ev AND user_events k = ev_events ev \<and> ev_data ev = user_data k"

lemma feed_rest_ok:
  assumes "port_ok_but {i} s" and "socks s i = Some k" and "\<not> delete_pending k" and "pending_events k = 0"
  shows "\<exists>evo s'. feed_rest i e s = Inr (Inr evo, s') \<and> port_ok s' \<and> (\<forall>j. j \<noteq> i \<longrightarrow> socks s' j = socks s j) \<and>
    active_poll_count s' = active_poll_count s \<and> iocp_handle s' = iocp_handle s \<and>
    (\<forall>ev. evo = Some ev \<longrightarrow> reported_for k ev)"
proof -
  let ?s = "port_request_socket_update i s"
  have ok: "port_ok ?s" using assms(4) by (intro port_ok_request [OF assms(1-3)]) simp
  have k: "socks ?s i = Some k" using assms(2) by simp
  have q: "i \<in> set (sock_update_queue ?s)" using not_enqueued [OF assms(1-3)] by auto
  let ?k = "k\<lparr>user_events := 0\<rparr>"
  have "port_ok_but {i} (set_sock i ?k ?s)" using port_ok_set_sock [OF ok k, of ?k] by simp
  then have ok1: "port_ok (set_sock i ?k ?s)"
    by (rule port_ok_but_restore [of i "{}"]) (use q assms(3,4) in \<open>auto simp: sock_ok_def\<close>)
  have same: "set_sock i k ?s = ?s" using k by (simp add: set_sock_def fun_upd_idem)
  show ?thesis
    using assms(2) k ok ok1 same
    by (auto simp: feed_rest_def with_sock_def Let_def reported_for_def and.assoc)
qed

lemma sock_feed_event_ok:
  assumes "port_ok s" and "socks s i = Some k"
  shows "\<exists>evo s'. sock_feed_event os i status n afd s = Inr (Inr evo, s') \<and> port_ok s' \<and>
    (\<forall>j. j \<noteq> i \<longrightarrow> socks s' j = socks s j) \<and> active_poll_count s' = active_poll_count s \<and> iocp_handle s' = iocp_handle s \<and>
    (\<forall>ev. evo = Some ev \<longrightarrow> \<not> delete_pending k \<and> reported_for k ev)"
proof -
  let ?k = "k\<lparr>poll_status := SOCK__POLL_IDLE, pending_events := 0\<rparr>"
  let ?s = "set_sock i ?k s"
  have ok: "port_ok_but {i} ?s" using port_ok_set_sock [OF assms, of ?k] by simp
  have k: "socks ?s i = Some ?k" by simp
  obtain s1 where d: "sock__delete os i False ?s = Inr (Inr (), s1)" "port_ok s1"
    "\<forall>j. j \<noteq> i \<longrightarrow> socks s1 j = socks ?s j" "active_poll_count s1 = active_poll_count ?s" "iocp_handle s1 = iocp_handle ?s"
    using sock__delete_ok [OF ok k, of os False] by blast
  have rep: "reported_for ?k = reported_for k" by (simp add: reported_for_def fun_eq_iff)
  have rest: "\<exists>evo s'. feed_rest i e ?s = Inr (Inr evo, s') \<and> port_ok s' \<and> (\<forall>j. j \<noteq> i \<longrightarrow> socks s' j = socks s j) \<and>
      active_poll_count s' = active_poll_count s \<and> iocp_handle s' = iocp_handle s \<and>
      (\<forall>ev. evo = Some ev \<longrightarrow> \<not> delete_pending k \<and> reported_for k ev)" if "\<not> delete_pending k" for e
    using feed_rest_ok [OF ok k, of e] that unfolding rep by auto
  have del: "\<exists>s'. and_then (sock__delete os i False ?s) (\<lambda>(_, s2). Inr (Inr (None :: epoll_event option), s2)) = Inr (Inr None, s') \<and>
      port_ok s' \<and> (\<forall>j. j \<noteq> i \<longrightarrow> socks s' j = socks s j) \<and>
      active_poll_count s' = active_poll_count s \<and> iocp_handle s' = iocp_handle s"
    using d by simp
  have unfolded: "sock_feed_event os i status n afd s =
    (if delete_pending k then and_then (sock__delete os i False ?s) (\<lambda>(_, s2). Inr (Inr None, s2))
     else if status = Io_Cancelled then feed_rest i 0 ?s
     else if status = Io_Failed then feed_rest i EPOLLERR ?s
     else if n < 1 then feed_rest i 0 ?s
     else if afd AND AFD_POLL_LOCAL_CLOSE \<noteq> 0
       then and_then (sock__delete os i False ?s) (\<lambda>(_, s2). Inr (Inr None, s2))
     else feed_rest i (sock__afd_events_to_epoll_events afd) ?s)"
    using assms(2) by (simp add: sock_feed_event_def with_sock_def Let_def)
  show ?thesis
    unfolding unfolded using del rest by (simp split del: if_split) (auto split: if_splits)
qed

end
