(* ===== verification/Epoll_Poller.thy ===== *)
theory Epoll_Poller
  imports Wepoll_Port_Inv
begin

text \<open>
  \<^verbatim>\<open>netpoll/net/inner/poller/epoll_poller.cc\<close>: the poller on top of epoll, which is a kernel object on Linux
  and wepoll on Windows.

  The epoll instance is a state of any type with a control function that is a parameter of the
  operations; the locale \<open>epoll_instance\<close> states what \<^verbatim>\<open>epoll_ctl\<close> promises. The poller implements the
  contract \<open>poller\<close> over every such instance, and the ports of wepoll are one.
\<close>

unbundle bit_operations_syntax

section \<open>Definitions\<close>

definition kNew :: int where "kNew = -1"
definition kAdded :: int where "kAdded = 1"
definition kDeleted :: int where "kDeleted = 2"

definition EPOLL_CTL_ADD :: int where "EPOLL_CTL_ADD = 1"
definition EPOLL_CTL_MOD :: int where "EPOLL_CTL_MOD = 2"
definition EPOLL_CTL_DEL :: int where "EPOLL_CTL_DEL = 3"

record 'k EpollPoller =
  ep_instance :: 'k
  ep_events_size :: nat
  ep_channels :: "int \<rightharpoonup> nat"
  ep_store :: "nat \<Rightarrow> Channel"

type_synonym 'k epoll_ctl = "int \<Rightarrow> int \<Rightarrow> epoll_event \<Rightarrow> 'k \<Rightarrow> bool \<times> 'k"

definition kInitEventListSize :: nat where "kInitEventListSize = 16"

definition EpollPoller_new :: "'k \<Rightarrow> (nat \<Rightarrow> Channel) \<Rightarrow> 'k EpollPoller" where
  "EpollPoller_new k cs =
     \<lparr>ep_instance = k, ep_events_size = kInitEventListSize, ep_channels = Map.empty, ep_store = cs\<rparr>"

definition ep_set_channel :: "nat \<Rightarrow> Channel \<Rightarrow> 'k EpollPoller \<Rightarrow> 'k EpollPoller" where
  "ep_set_channel c ch s = s\<lparr>ep_store := (ep_store s)(c := ch)\<rparr>"

text \<open>A failure of \<^verbatim>\<open>epoll_ctl\<close> is only logged.\<close>

definition update_ep :: "'k epoll_ctl \<Rightarrow> int \<Rightarrow> nat \<Rightarrow> 'k EpollPoller \<Rightarrow> 'k EpollPoller" where
  "update_ep ctl operation c s =
     (let ch = ep_store s c;
          (ok, k) = ctl operation (ch_fd ch) \<lparr>ev_events = ch_events ch, ev_data = c\<rparr> (ep_instance s) in
      s\<lparr>ep_instance := k\<rparr>)"

definition updateChannel_ep :: "'k epoll_ctl \<Rightarrow> nat \<Rightarrow> 'k EpollPoller \<Rightarrow> 'k EpollPoller result" where
  "updateChannel_ep ctl c s =
     (let ch = ep_store s c; fd = ch_fd ch; index = ch_index ch in
      assert_that (0 \<le> fd)
      (if index = kNew \<or> index = kDeleted
       then and_then
         (if index = kNew
          then assert_that (ep_channels s fd = None) (Inr (s\<lparr>ep_channels := (ep_channels s)(fd \<mapsto> c)\<rparr>))
          else assert_that (ep_channels s fd \<noteq> None) (assert_that (ep_channels s fd = Some c) (Inr s)))
         (\<lambda>s1. Inr (update_ep ctl EPOLL_CTL_ADD c (ep_set_channel c (ch\<lparr>ch_index := kAdded\<rparr>) s1)))
       else assert_that (ep_channels s fd \<noteq> None) (assert_that (ep_channels s fd = Some c)
         (assert_that (index = kAdded)
         (if isNoneEvent ch
          then Inr (ep_set_channel c (ch\<lparr>ch_index := kDeleted\<rparr>) (update_ep ctl EPOLL_CTL_DEL c s))
          else Inr (update_ep ctl EPOLL_CTL_MOD c s))))))"

definition removeChannel_ep :: "'k epoll_ctl \<Rightarrow> nat \<Rightarrow> 'k EpollPoller \<Rightarrow> 'k EpollPoller result" where
  "removeChannel_ep ctl c s =
     (let ch = ep_store s c; fd = ch_fd ch; index = ch_index ch in
      assert_that (ep_channels s fd \<noteq> None) (assert_that (ep_channels s fd = Some c) (assert_that (isNoneEvent ch)
      (let s1 = s\<lparr>ep_channels := (ep_channels s)(fd := None)\<rparr> in
       assert_that (index = kAdded \<or> index = kDeleted)
       (let s2 = (if index = kAdded then update_ep ctl EPOLL_CTL_DEL c s1 else s1) in
        Inr (ep_set_channel c (ch\<lparr>ch_index := kNew\<rparr>) s2))))))"

definition modify_ep :: "'k epoll_ctl \<Rightarrow> nat \<Rightarrow> (32 word \<Rightarrow> 32 word) \<Rightarrow> 'k EpollPoller \<Rightarrow> 'k EpollPoller result" where
  "modify_ep ctl c f s =
     updateChannel_ep ctl c (ep_set_channel c ((ep_store s c)\<lparr>ch_events := f (ch_events (ep_store s c))\<rparr>) s)"

text \<open>
  The loop over the returned events. Signals, which only wepoll returns, go to the event callback;
  the result holds the active channels and the signals in order.
\<close>

fun fill_ep :: "epoll_event list \<Rightarrow> nat list \<Rightarrow> nat list \<Rightarrow> 'k EpollPoller \<Rightarrow> (nat list \<times> nat list \<times> 'k EpollPoller) result" where
  "fill_ep [] act sigs s = Inr (act, sigs, s)"
| "fill_ep (e # es) act sigs s =
     (if ev_events e = EPOLLEVENT then fill_ep es act (sigs @ [ev_data e]) s
      else
        (let c = ev_data e; ch = ep_store s c in
         assert_that (ep_channels s (ch_fd ch) \<noteq> None) (assert_that (ep_channels s (ch_fd ch) = Some c)
         (fill_ep es (act @ [c]) sigs (ep_set_channel c (setRevents (ev_events e) ch) s)))))"

definition fillActiveChannels_ep :: "epoll_event list \<Rightarrow> 'k EpollPoller \<Rightarrow> (nat list \<times> nat list \<times> 'k EpollPoller) result" where
  "fillActiveChannels_ep events s =
     assert_that (length events \<le> ep_events_size s) (fill_ep events [] [] s)"

text \<open>\<open>wait n k\<close> is \<^verbatim>\<open>epoll_wait\<close> with room for \<open>n\<close> events: the events, or \<open>None\<close> for an error.\<close>

definition poll_ep :: "(nat \<Rightarrow> 'k \<Rightarrow> epoll_event list option \<times> 'k) \<Rightarrow> 'k EpollPoller \<Rightarrow>
    (nat list \<times> nat list \<times> 'k EpollPoller) result" where
  "poll_ep wait s =
     (let (r, k) = wait (ep_events_size s) (ep_instance s); s1 = s\<lparr>ep_instance := k\<rparr> in
      case r of
        None \<Rightarrow> Inr ([], [], s1)
      | Some events \<Rightarrow>
          if events = [] then Inr ([], [], s1)
          else and_then (fillActiveChannels_ep events s1) (\<lambda>(act, sigs, s2).
            Inr (act, sigs, if length events = ep_events_size s2 then s2\<lparr>ep_events_size := ep_events_size s2 * 2\<rparr> else s2)))"

section \<open>The contract of an epoll instance\<close>

definition always :: "32 word" where
  "always = EPOLLERR OR EPOLLHUP"

text \<open>
  \<open>interests k fd\<close> is the mask and the data registered for a descriptor, with the two events that are
  always reported; \<open>accepts\<close> are the descriptors that can be registered.
\<close>

locale epoll_instance =
  fixes kinv :: "'k \<Rightarrow> bool"
    and accepts :: "'k \<Rightarrow> int \<Rightarrow> bool"
    and interests :: "'k \<Rightarrow> int \<Rightarrow> (32 word \<times> nat) option"
    and ctl :: "'k epoll_ctl"
  assumes add_law: "\<lbrakk>kinv k; accepts k n; interests k n = None\<rbrakk> \<Longrightarrow>
      \<exists>k'. ctl EPOLL_CTL_ADD n ev k = (True, k') \<and> kinv k' \<and> accepts k' = accepts k \<and>
        interests k' = (interests k)(n \<mapsto> (ev_events ev OR always, ev_data ev))"
    and mod_law: "\<lbrakk>kinv k; interests k n \<noteq> None\<rbrakk> \<Longrightarrow>
      \<exists>k'. ctl EPOLL_CTL_MOD n ev k = (True, k') \<and> kinv k' \<and> accepts k' = accepts k \<and>
        interests k' = (interests k)(n \<mapsto> (ev_events ev OR always, ev_data ev))"
    and del_law: "\<lbrakk>kinv k; interests k n \<noteq> None\<rbrakk> \<Longrightarrow>
      \<exists>k'. ctl EPOLL_CTL_DEL n ev k = (True, k') \<and> kinv k' \<and> accepts k' = accepts k \<and>
        interests k' = (interests k)(n := None)"
    and accepts_law: "accepts k n \<Longrightarrow> 0 \<le> n"
begin

lemma update_add:
  assumes "kinv (ep_instance s)" and "accepts (ep_instance s) (ch_fd (ep_store s c))"
    and "interests (ep_instance s) (ch_fd (ep_store s c)) = None"
  obtains k where "update_ep ctl EPOLL_CTL_ADD c s = s\<lparr>ep_instance := k\<rparr>" and "kinv k" and "accepts k = accepts (ep_instance s)"
    and "interests k = (interests (ep_instance s))(ch_fd (ep_store s c) \<mapsto> (ch_events (ep_store s c) OR always, c))"
  using add_law [OF assms, of "\<lparr>ev_events = ch_events (ep_store s c), ev_data = c\<rparr>"] that
  by (auto simp: update_ep_def Let_def)

lemma update_mod:
  assumes "kinv (ep_instance s)" and "interests (ep_instance s) (ch_fd (ep_store s c)) \<noteq> None"
  obtains k where "update_ep ctl EPOLL_CTL_MOD c s = s\<lparr>ep_instance := k\<rparr>" and "kinv k" and "accepts k = accepts (ep_instance s)"
    and "interests k = (interests (ep_instance s))(ch_fd (ep_store s c) \<mapsto> (ch_events (ep_store s c) OR always, c))"
  using mod_law [OF assms, of "\<lparr>ev_events = ch_events (ep_store s c), ev_data = c\<rparr>"] that
  by (auto simp: update_ep_def Let_def)

lemma update_del:
  assumes "kinv (ep_instance s)" and "interests (ep_instance s) (ch_fd (ep_store s c)) \<noteq> None"
  obtains k where "update_ep ctl EPOLL_CTL_DEL c s = s\<lparr>ep_instance := k\<rparr>" and "kinv k" and "accepts k = accepts (ep_instance s)"
    and "interests k = (interests (ep_instance s))(ch_fd (ep_store s c) := None)"
  using del_law [OF assms, of "\<lparr>ev_events = ch_events (ep_store s c), ev_data = c\<rparr>"] that
  by (auto simp: update_ep_def Let_def)

end

section \<open>Invariant\<close>

definition ep_live :: "'k EpollPoller \<Rightarrow> nat \<Rightarrow> bool" where
  "ep_live s c \<longleftrightarrow> ep_channels s (ch_fd (ep_store s c)) = Some c"

definition plain_mask :: "32 word \<Rightarrow> bool" where
  "plain_mask ev \<longleftrightarrow> ev AND always = 0"

definition entry_ok :: "('k \<Rightarrow> int \<Rightarrow> (32 word \<times> nat) option) \<Rightarrow> 'k EpollPoller \<Rightarrow> int \<Rightarrow> nat \<Rightarrow> bool" where
  "entry_ok interests s n c \<longleftrightarrow>
     (let ch = ep_store s c; e = interests (ep_instance s) n in
      ch_fd ch = n \<and> plain_mask (ch_events ch) \<and>
      (ch_index ch = kAdded \<and> e = Some (ch_events ch OR always, c) \<or>
       ch_index ch = kDeleted \<and> e = None \<and> ch_events ch = 0))"

definition epoll_ok :: "('k \<Rightarrow> bool) \<Rightarrow> ('k \<Rightarrow> int \<Rightarrow> bool) \<Rightarrow> ('k \<Rightarrow> int \<Rightarrow> (32 word \<times> nat) option) \<Rightarrow> 'k EpollPoller \<Rightarrow> bool" where
  "epoll_ok kinv accepts interests s \<longleftrightarrow> kinv (ep_instance s) \<and>
     (\<forall>n c. ep_channels s n = Some c \<longrightarrow> entry_ok interests s n c \<and> accepts (ep_instance s) n) \<and>
     (\<forall>n. interests (ep_instance s) n \<noteq> None \<longrightarrow> ep_channels s n \<noteq> None)"

definition ep_watch :: "('k \<Rightarrow> int \<Rightarrow> (32 word \<times> nat) option) \<Rightarrow> 'k EpollPoller \<Rightarrow> int \<Rightarrow> 32 word" where
  "ep_watch interests s n =
     (case interests (ep_instance s) n of None \<Rightarrow> 0 | Some (ev, _) \<Rightarrow> ev AND NOT always)"

lemma plain_mask_strip:
  assumes "plain_mask ev"
  shows "(ev OR always) AND NOT always = ev"
proof (rule bit_word_eqI)
  fix n
  have "\<not> bit (ev AND always) n" using assms by (simp add: plain_mask_def)
  then show "bit ((ev OR always) AND NOT always) n \<longleftrightarrow> bit ev n" if "n < LENGTH(32)"
    using that by (auto simp: bit_and_iff bit_or_iff bit_not_iff)
qed

lemma plain_mask_0 [simp]: "plain_mask 0"
  by (simp add: plain_mask_def)

lemma epoll_okD:
  assumes "epoll_ok kinv accepts interests s"
  shows "kinv (ep_instance s)"
    and "ep_channels s n = Some c \<Longrightarrow> ch_fd (ep_store s c) = n"
    and "ep_channels s n = Some c \<Longrightarrow> plain_mask (ch_events (ep_store s c))"
    and "ep_channels s n = Some c \<Longrightarrow>
      ch_index (ep_store s c) = kAdded \<and> interests (ep_instance s) n = Some (ch_events (ep_store s c) OR always, c) \<or>
      ch_index (ep_store s c) = kDeleted \<and> interests (ep_instance s) n = None \<and> ch_events (ep_store s c) = 0"
    and "ep_channels s n = Some c \<Longrightarrow> accepts (ep_instance s) n"
    and "ep_channels s n = None \<Longrightarrow> interests (ep_instance s) n = None"
  using assms unfolding epoll_ok_def entry_ok_def Let_def by blast+

text \<open>Changing one entry: the channel, the map and the instance change at one descriptor only.\<close>

lemma epoll_ok_change:
  assumes "epoll_ok kinv accepts interests s" and "kinv k" and "accepts k = accepts (ep_instance s)"
    and "\<And>m. m \<noteq> n \<Longrightarrow> interests k m = interests (ep_instance s) m"
    and "\<And>m. m \<noteq> n \<Longrightarrow> ep_channels s m \<noteq> Some c"
    and "ep_instance s' = k" and "ep_store s' = (ep_store s)(c := ch)" and "\<And>m. m \<noteq> n \<Longrightarrow> ep_channels s' m = ep_channels s m"
    and "ep_channels s' n = Some c \<longrightarrow> entry_ok interests s' n c \<and> accepts k n"
    and "ep_channels s' n = Some c \<or> ep_channels s' n = None \<and> interests k n = None"
  shows "epoll_ok kinv accepts interests s'"
proof -
  have "entry_ok interests s' m d \<and> accepts k m" if "ep_channels s' m = Some d" for m d
  proof (cases "m = n")
    case True
    with that assms(9,10) show ?thesis by auto
  next
    case False
    then have d: "ep_channels s m = Some d" "d \<noteq> c" using that assms(5,8) by auto
    then have "entry_ok interests s m d" "accepts (ep_instance s) m" using assms(1) by (auto simp: epoll_ok_def)
    then show ?thesis unfolding entry_ok_def assms(3,6,7) assms(4) [OF False] using d(2) by simp
  qed
  moreover have "ep_channels s' m \<noteq> None" if "interests k m \<noteq> None" for m
  proof (cases "m = n")
    case False
    have i: "interests (ep_instance s) m \<noteq> None" using that unfolding assms(4) [OF False] .
    have "ep_channels s m \<noteq> None"
    proof
      assume "ep_channels s m = None"
      from epoll_okD(6) [OF assms(1) this] i show False by contradiction
    qed
    then show ?thesis unfolding assms(8) [OF False] .
  next
    case True
    with that assms(10) show ?thesis by auto
  qed
  ultimately show ?thesis using assms(2,6) by (simp add: epoll_ok_def)
qed

context epoll_instance
begin

abbreviation ok :: "'k EpollPoller \<Rightarrow> bool" where
  "ok \<equiv> epoll_ok kinv accepts interests"

lemma ep_watch_live:
  assumes "ok s" and "ep_live s c"
  shows "ep_watch interests s (ch_fd (ep_store s c)) = ch_events (ep_store s c)"
proof -
  have l: "ep_channels s (ch_fd (ep_store s c)) = Some c" using assms(2) by (simp add: ep_live_def)
  show ?thesis using epoll_okD(3,4) [OF assms(1) l] by (auto simp: ep_watch_def plain_mask_strip)
qed

lemma ep_watch_none:
  assumes "ok s" and "\<And>c. ep_live s c \<Longrightarrow> ch_fd (ep_store s c) \<noteq> n"
  shows "ep_watch interests s n = 0"
proof -
  have "ep_channels s n = None"
  proof (rule ccontr)
    assume "ep_channels s n \<noteq> None"
    then obtain d where d: "ep_channels s n = Some d" by blast
    with epoll_okD(2) [OF assms(1) d] assms(2) [of d] show False by (simp add: ep_live_def)
  qed
  with epoll_okD(6) [OF assms(1)] show ?thesis by (simp add: ep_watch_def)
qed

lemma ep_free:
  assumes "ok s" and "\<forall>c'. ep_live s c' \<longrightarrow> ch_fd (ep_store s c') \<noteq> n"
  shows "ep_channels s n = None"
proof (rule ccontr)
  assume "ep_channels s n \<noteq> None"
  then obtain d where d: "ep_channels s n = Some d" by blast
  with epoll_okD(2) [OF assms(1) d] assms(2) [rule_format, of d] show False by (simp add: ep_live_def)
qed

lemma channel_entry:
  assumes "ok s" and "ep_channels s m = Some c"
  shows "m = ch_fd (ep_store s c)"
  using epoll_okD(2) [OF assms] by simp

lemma modify_ok:
  assumes ok: "ok s" and acc: "accepts (ep_instance s) (ch_fd (ep_store s c))"
    and reg: "ep_live s c \<or> ch_index (ep_store s c) = kNew \<and> (\<forall>c'. ep_live s c' \<longrightarrow> ch_fd (ep_store s c') \<noteq> ch_fd (ep_store s c))"
    and m: "plain_mask (f (ch_events (ep_store s c)))"
  shows "\<exists>s'. modify_ep ctl c f s = Inr s' \<and> ok s' \<and> (\<forall>c'. ep_live s' c' \<longleftrightarrow> ep_live s c' \<or> c' = c) \<and>
    (\<lambda>d. ch_fd (ep_store s' d)) = (\<lambda>d. ch_fd (ep_store s d)) \<and> accepts (ep_instance s') = accepts (ep_instance s) \<and>
    (\<lambda>d. ch_events (ep_store s' d)) = (\<lambda>d. ch_events (ep_store s d))(c := f (ch_events (ep_store s c)))"
proof -
  define n where "n = ch_fd (ep_store s c)"
  define ch where "ch = (ep_store s c)\<lparr>ch_events := f (ch_events (ep_store s c))\<rparr>"
  define s0 where "s0 = ep_set_channel c ch s"
  have s0: "ep_instance s0 = ep_instance s" "ep_channels s0 = ep_channels s" "ep_store s0 = (ep_store s)(c := ch)"
    by (simp_all add: s0_def ep_set_channel_def)
  have ch: "ch_fd ch = n" "ch_index ch = ch_index (ep_store s c)" "ch_events ch = f (ch_events (ep_store s c))"
    by (simp_all add: ch_def n_def)
  have n0: "0 \<le> n" using accepts_law acc by (simp add: n_def)
  have other: "ep_channels s m \<noteq> Some c" if "m \<noteq> n" for m
    using channel_entry [OF ok, of m c] that by (auto simp: n_def)
  have free: "ep_channels s n = None" if "\<not> ep_live s c" using ep_free [OF ok, of n] reg that by (simp add: n_def)
  have result: ?thesis if eq: "updateChannel_ep ctl c s0 = Inr s'" and k: "kinv (ep_instance s')" "accepts (ep_instance s') = accepts (ep_instance s)"
      "\<And>m. m \<noteq> n \<Longrightarrow> interests (ep_instance s') m = interests (ep_instance s) m"
    and st: "ep_store s' = (ep_store s)(c := ch\<lparr>ch_index := i\<rparr>)" "ep_channels s' = (ep_channels s)(n \<mapsto> c)"
    and e: "i = kAdded \<and> interests (ep_instance s') n = Some (ch_events ch OR always, c) \<or>
      i = kDeleted \<and> interests (ep_instance s') n = None \<and> ch_events ch = 0" for s' i
  proof -
    have c': "ep_store s' c = ch\<lparr>ch_index := i\<rparr>" "ep_channels s' n = Some c" by (simp_all add: st)
    have "entry_ok interests s' n c \<and> accepts (ep_instance s') n"
      using e m acc unfolding entry_ok_def Let_def c' k(2) n_def [symmetric] by (simp add: ch(1,3))
    then have "ok s'"
      by (intro epoll_ok_change [where n = n, OF ok k(1,2) k(3) other refl st(1)]) (simp_all add: st(2))
    moreover have "ep_live s' d \<longleftrightarrow> ep_live s d \<or> d = c" for d
    proof (cases "d = c")
      case False
      have "\<not> ep_live s d" if d: "ch_fd (ep_store s d) = n"
      proof
        assume l: "ep_live s d"
        then have "ep_channels s n = Some d" using d by (simp add: ep_live_def)
        then have "\<not> ep_live s c" using False by (simp add: ep_live_def n_def)
        with reg l d show False by (auto simp: n_def)
      qed
      with False show ?thesis by (auto simp: ep_live_def st)
    qed (simp add: ep_live_def st ch)
    moreover have "modify_ep ctl c f s = Inr s'" using eq by (simp add: modify_ep_def s0_def ch_def)
    moreover have "(\<lambda>d. ch_fd (ep_store s' d)) = (\<lambda>d. ch_fd (ep_store s d))"
      "(\<lambda>d. ch_events (ep_store s' d)) = (\<lambda>d. ch_events (ep_store s d))(c := f (ch_events (ep_store s c)))"
      by (simp_all add: st ch fun_eq_iff n_def)
    ultimately show ?thesis using k(2) by (intro exI [of _ s'] conjI allI)
  qed
  show ?thesis
  proof (cases "ch_index ch = kAdded")
    case True
    then have l: "ep_channels s n = Some c" using reg free ch by (auto simp: ep_live_def n_def kAdded_def kNew_def)
    with epoll_okD(4) [OF ok l] True ch have i: "interests (ep_instance s) n = Some (ch_events (ep_store s c) OR always, c)"
      by (auto simp: kAdded_def kDeleted_def)
    then have i0: "interests (ep_instance s0) (ch_fd (ep_store s0 c)) \<noteq> None" by (simp add: s0 ch)
    have k0: "kinv (ep_instance s0)" using epoll_okD(1) [OF ok] by (simp add: s0)
    have same: "ch\<lparr>ch_index := kAdded\<rparr> = ch" using True by simp
    have l': "(ep_channels s)(n \<mapsto> c) = ep_channels s" using l by auto
    show ?thesis
    proof (cases "isNoneEvent ch")
      case none: True
      obtain k where k: "update_ep ctl EPOLL_CTL_DEL c s0 = s0\<lparr>ep_instance := k\<rparr>" "kinv k" "accepts k = accepts (ep_instance s0)"
        "interests k = (interests (ep_instance s0))(ch_fd (ep_store s0 c) := None)" by (rule update_del [OF k0 i0])
      show ?thesis
        by (rule result [of "ep_set_channel c (ch\<lparr>ch_index := kDeleted\<rparr>) (s0\<lparr>ep_instance := k\<rparr>)" kDeleted])
          (use k l l' n0 True none ch in \<open>simp_all add: updateChannel_ep_def s0 Let_def isNoneEvent_def kNoneEvent_def
            ep_set_channel_def kAdded_def kNew_def kDeleted_def\<close>)
    next
      case some: False
      obtain k where k: "update_ep ctl EPOLL_CTL_MOD c s0 = s0\<lparr>ep_instance := k\<rparr>" "kinv k" "accepts k = accepts (ep_instance s0)"
        "interests k = (interests (ep_instance s0))(ch_fd (ep_store s0 c) \<mapsto> (ch_events (ep_store s0 c) OR always, c))"
        by (rule update_mod [OF k0 i0])
      show ?thesis
        by (rule result [of "s0\<lparr>ep_instance := k\<rparr>" kAdded, unfolded same])
          (use k l l' n0 True some ch in \<open>simp_all add: updateChannel_ep_def s0 Let_def kAdded_def kNew_def kDeleted_def\<close>)
    qed
  next
    case False
    have idx: "ch_index ch = kNew \<and> ep_channels s n = None \<or> ch_index ch = kDeleted \<and> ep_channels s n = Some c"
    proof (cases "ep_live s c")
      case True
      then have "ep_channels s n = Some c" by (simp add: ep_live_def n_def)
      with epoll_okD(4) [OF ok this] False ch show ?thesis by auto
    qed (use reg free ch in auto)
    then have i: "interests (ep_instance s) n = None"
    proof
      assume "ch_index ch = kNew \<and> ep_channels s n = None"
      then show ?thesis using epoll_okD(6) [OF ok] by blast
    next
      assume "ch_index ch = kDeleted \<and> ep_channels s n = Some c"
      then show ?thesis using epoll_okD(4) [OF ok, of n c] ch(2) by (simp add: kDeleted_def kAdded_def)
    qed
    define s1 where "s1 = ep_set_channel c (ch\<lparr>ch_index := kAdded\<rparr>) (s0\<lparr>ep_channels := (ep_channels s)(n \<mapsto> c)\<rparr>)"
    have s1: "ep_instance s1 = ep_instance s" "ep_store s1 = (ep_store s)(c := ch\<lparr>ch_index := kAdded\<rparr>)"
      "ep_channels s1 = (ep_channels s)(n \<mapsto> c)" by (simp_all add: s1_def ep_set_channel_def s0)
    obtain k where k: "update_ep ctl EPOLL_CTL_ADD c s1 = s1\<lparr>ep_instance := k\<rparr>" "kinv k" "accepts k = accepts (ep_instance s1)"
      "interests k = (interests (ep_instance s1))(ch_fd (ep_store s1 c) \<mapsto> (ch_events (ep_store s1 c) OR always, c))"
      by (rule update_add [of s1 c]) (use epoll_okD(1) [OF ok] i acc ch in \<open>simp_all add: s1 n_def [symmetric]\<close>)
    have old: "(s0\<lparr>ep_channels := (ep_channels s)(n \<mapsto> c)\<rparr>) = s0" if "ep_channels s n = Some c"
    proof -
      have "(ep_channels s)(n \<mapsto> c) = ep_channels s0" using that s0(2) by auto
      then show ?thesis by simp
    qed
    have upd: "updateChannel_ep ctl c s0 = Inr (s1\<lparr>ep_instance := k\<rparr>)"
    proof -
      have s1': "update_ep ctl EPOLL_CTL_ADD c (ep_set_channel c (ch\<lparr>ch_index := kAdded\<rparr>) (s0\<lparr>ep_channels := (ep_channels s)(n \<mapsto> c)\<rparr>)) =
          s1\<lparr>ep_instance := k\<rparr>" using k(1) by (simp add: s1_def)
      from idx show ?thesis
      proof
        assume "ch_index ch = kNew \<and> ep_channels s n = None"
        with s1' n0 ch(1) show ?thesis by (simp add: updateChannel_ep_def s0 Let_def)
      next
        assume d: "ch_index ch = kDeleted \<and> ep_channels s n = Some c"
        with s1' [unfolded old [OF conjunct2 [OF d]]] n0 ch(1) show ?thesis
          by (simp add: updateChannel_ep_def s0 Let_def kDeleted_def kNew_def)
      qed
    qed
    show ?thesis
      by (rule result [OF upd, of kAdded]) (use k s1 ch in simp_all)
  qed
qed

lemma remove_ok:
  assumes ok: "ok s" and l: "ep_live s c" and z: "ch_events (ep_store s c) = 0"
  shows "\<exists>s'. removeChannel_ep ctl c s = Inr s' \<and> ok s' \<and> (\<forall>c'. ep_live s' c' \<longleftrightarrow> ep_live s c' \<and> c' \<noteq> c) \<and>
    (\<lambda>d. ch_fd (ep_store s' d)) = (\<lambda>d. ch_fd (ep_store s d)) \<and>
    (\<lambda>d. ch_events (ep_store s' d)) = (\<lambda>d. ch_events (ep_store s d))"
proof -
  define ch where "ch = ep_store s c"
  define n where "n = ch_fd ch"
  have l': "ep_channels s n = Some c" using l by (simp add: ep_live_def n_def ch_def)
  note e = epoll_okD(4) [OF ok l']
  define s1 where "s1 = s\<lparr>ep_channels := (ep_channels s)(n := None)\<rparr>"
  obtain k where k: "(if ch_index ch = kAdded then update_ep ctl EPOLL_CTL_DEL c s1 else s1) = s1\<lparr>ep_instance := k\<rparr>"
    "kinv k" "accepts k = accepts (ep_instance s)" "interests k = (interests (ep_instance s))(n := None)"
  proof (cases "ch_index ch = kAdded")
    case True
    have i: "interests (ep_instance s1) (ch_fd (ep_store s1 c)) \<noteq> None" and k1: "kinv (ep_instance s1)"
      using e True epoll_okD(1) [OF ok] by (auto simp: s1_def ch_def n_def kAdded_def kDeleted_def)
    obtain k where k: "update_ep ctl EPOLL_CTL_DEL c s1 = s1\<lparr>ep_instance := k\<rparr>" "kinv k" "accepts k = accepts (ep_instance s1)"
      "interests k = (interests (ep_instance s1))(ch_fd (ep_store s1 c) := None)" by (rule update_del [OF k1 i])
    show ?thesis by (rule that [OF _ k(2)]) (use k True in \<open>simp_all add: s1_def n_def ch_def\<close>)
  next
    case False
    then have "interests (ep_instance s) n = None" using e by (auto simp: ch_def)
    then show ?thesis using that [of "ep_instance s"] False epoll_okD(1) [OF ok] by (simp add: s1_def fun_upd_idem)
  qed
  define s' where "s' = ep_set_channel c (ch\<lparr>ch_index := kNew\<rparr>) (s1\<lparr>ep_instance := k\<rparr>)"
  have s': "ep_instance s' = k" "ep_store s' = (ep_store s)(c := ch\<lparr>ch_index := kNew\<rparr>)"
    "ep_channels s' = (ep_channels s)(n := None)" by (simp_all add: s'_def s1_def ep_set_channel_def)
  have "removeChannel_ep ctl c s = Inr s'"
  proof -
    have "ep_channels s (ch_fd (ep_store s c)) = Some c" and "ch_index (ep_store s c) = kAdded \<or> ch_index (ep_store s c) = kDeleted"
      using l' e by (auto simp: n_def ch_def)
    then show ?thesis using z k(1) [unfolded s1_def n_def ch_def]
      by (simp add: removeChannel_ep_def Let_def isNoneEvent_def kNoneEvent_def s'_def s1_def n_def ch_def split: if_splits)
  qed
  moreover have "ok s'"
  proof (rule epoll_ok_change [where n = n, OF ok k(2,3) _ _ s'(1,2)])
    show "ep_channels s m \<noteq> Some c" if "m \<noteq> n" for m
      using channel_entry [OF ok, of m c] that by (auto simp: n_def ch_def)
  qed (simp_all add: k(4) s'(3))
  moreover have "ep_live s' d \<longleftrightarrow> ep_live s d \<and> d \<noteq> c" for d
  proof (cases "d = c")
    case True
    then show ?thesis by (simp add: ep_live_def s' n_def ch_def)
  next
    case False
    have "ch_fd (ep_store s d) = n \<Longrightarrow> \<not> ep_live s d" using l' False by (simp add: ep_live_def)
    with False show ?thesis by (auto simp: ep_live_def s')
  qed
  moreover have "(\<lambda>d. ch_fd (ep_store s' d)) = (\<lambda>d. ch_fd (ep_store s d))"
    "(\<lambda>d. ch_events (ep_store s' d)) = (\<lambda>d. ch_events (ep_store s d))"
    by (simp_all add: s' ch_def fun_eq_iff)
  ultimately show ?thesis by (intro exI [of _ s'] conjI allI)
qed

end

sublocale epoll_instance \<subseteq> ep: poller "epoll_ok kinv accepts interests" ep_live "\<lambda>s c. ch_index (ep_store s c) = kNew"
  "\<lambda>s. accepts (ep_instance s)" "\<lambda>s c. True" "\<lambda>s c. ch_fd (ep_store s c)" "\<lambda>s c. ch_events (ep_store s c)"
  plain_mask "ep_watch interests" "modify_ep ctl" "removeChannel_ep ctl"
proof unfold_locales
  show "epoll_ok kinv accepts interests s \<Longrightarrow> ep_live s c \<Longrightarrow>
      ep_watch interests s (ch_fd (ep_store s c)) = ch_events (ep_store s c)" for s c by (rule ep_watch_live)
  show "epoll_ok kinv accepts interests s \<Longrightarrow> (\<And>c. ep_live s c \<Longrightarrow> ch_fd (ep_store s c) \<noteq> n) \<Longrightarrow>
      ep_watch interests s n = 0" for s n by (rule ep_watch_none)
  show "ep_live s c \<Longrightarrow> ep_live s c' \<Longrightarrow> ch_fd (ep_store s c) = ch_fd (ep_store s c') \<Longrightarrow> c = c'" for s :: "'a EpollPoller" and c c'
    by (simp add: ep_live_def)
  show "\<exists>s'. modify_ep ctl c f s = Inr s' \<and> epoll_ok kinv accepts interests s' \<and>
      (\<forall>c'. ep_live s' c' \<longleftrightarrow> ep_live s c' \<or> c' = c) \<and>
      (\<lambda>d. ch_fd (ep_store s' d)) = (\<lambda>d. ch_fd (ep_store s d)) \<and> accepts (ep_instance s') = accepts (ep_instance s) \<and>
      (\<lambda>d. ch_events (ep_store s' d)) = (\<lambda>d. ch_events (ep_store s d))(c := f (ch_events (ep_store s c))) \<and>
      (ep_live s c \<longrightarrow> f (ch_events (ep_store s c)) = 0 \<longrightarrow> True)"
    if "epoll_ok kinv accepts interests s" "accepts (ep_instance s) (ch_fd (ep_store s c))"
      "ep_live s c \<or> ch_index (ep_store s c) = kNew \<and> (\<forall>c'. ep_live s c' \<longrightarrow> ch_fd (ep_store s c') \<noteq> ch_fd (ep_store s c))"
      "plain_mask (f (ch_events (ep_store s c)))" for s c f
    using modify_ok [of s c f, OF that] by simp
  show "\<exists>s'. removeChannel_ep ctl c s = Inr s' \<and> epoll_ok kinv accepts interests s' \<and>
      (\<forall>c'. ep_live s' c' \<longleftrightarrow> ep_live s c' \<and> c' \<noteq> c) \<and>
      (\<lambda>d. ch_fd (ep_store s' d)) = (\<lambda>d. ch_fd (ep_store s d)) \<and>
      (\<lambda>d. ch_events (ep_store s' d)) = (\<lambda>d. ch_events (ep_store s d))"
    if "epoll_ok kinv accepts interests s" "ep_live s c" "True" "ch_events (ep_store s c) = 0" for s c
    by (rule remove_ok [OF that(1,2,4)])
  show "plain_mask 0" by (rule plain_mask_0)
qed

section \<open>The ports of wepoll\<close>

text \<open>A system that has memory and devices left.\<close>

definition win_ok :: "win_os \<Rightarrow> bool" where
  "win_ok os \<longleftrightarrow> (\<forall>k. malloc_ok os k \<and> afd_create_device_handle os k = None) \<and> (\<forall>n. \<exists>b. get_base_socket os n = Inr b)"

definition wepoll_ctl :: "(win_os \<times> port_state) epoll_ctl" where
  "wepoll_ctl op n ev k =
     (case port_ctl (fst k) op (nat n) ev (snd k) of
        Inl e \<Rightarrow> (False, k)
      | Inr (r, p) \<Rightarrow> (\<not> isl r, (fst k, p)))"

definition wepoll_inv :: "win_os \<times> port_state \<Rightarrow> bool" where
  "wepoll_inv k \<longleftrightarrow> win_ok (fst k) \<and> port_ok (snd k) \<and> iocp_handle (snd k) \<noteq> None \<and> active_poll_count (snd k) = 0"

definition wepoll_accepts :: "win_os \<times> port_state \<Rightarrow> int \<Rightarrow> bool" where
  "wepoll_accepts k n \<longleftrightarrow> 0 < n \<and> n < 2 ^ 31"

definition wepoll_interests :: "win_os \<times> port_state \<Rightarrow> int \<Rightarrow> (32 word \<times> nat) option" where
  "wepoll_interests k n = (if n < 0 then None else interest (snd k) (nat n))"

lemma acquire_succeeds:
  assumes "win_ok os"
  shows "poll_group_acquire os s \<noteq> Inr (Inl e, s1)"
  using assms by (auto simp: poll_group_acquire_def poll_group__new_def group_join_def win_ok_def Let_def
      split: option.splits if_splits)

lemma ctl_add_succeeds:
  assumes "win_ok os" and "port_ok p" and "iocp_handle p \<noteq> None" and "n \<noteq> 0" and "n \<noteq> INVALID_SOCKET"
    and "interest p n = None" and "port__ctl_add os n ev p = Inr (r, p')"
  shows "r = Inr ()"
proof -
  have t: "sock_tree p n = None"
  proof (rule ccontr)
    assume "sock_tree p n \<noteq> None"
    then obtain i where i: "sock_tree p n = Some i" by blast
    then obtain k where "socks p i = Some k" using treeD [OF assms(2)] by blast
    with i assms(6) show False by (simp add: interest_def)
  qed
  have g: "groups_ok None p" "alloc_ok p" using assms(2) by (auto simp: port_ok_but_def)
  obtain r1 p1 where a: "poll_group_acquire os p = Inr (r1, p1)" "sock_tree p1 = sock_tree p"
    using poll_group_acquire_ok [OF g assms(3), of os] by blast
  obtain gr where gr: "r1 = Inr gr" using acquire_succeeds [OF assms(1), of p _ p1] a(1) by (cases r1) auto
  obtain b where b: "get_base_socket os n = Inr b" using assms(1) by (auto simp: win_ok_def)
  have m: "malloc_ok os k" for k using assms(1) by (simp add: win_ok_def)
  obtain i p2 where n: "sock_new os n p = Inr (Inr i, p2)"
    using assms(4,5) a gr b m t by (simp add: sock_new_def port_register_socket_def set_sock_def os_call_def Let_def)
  show ?thesis using assms(7) n
    by (auto simp: port__ctl_add_def sock_set_event_def with_sock_def Let_def split: option.splits if_splits sum.splits)
qed

lemma always_or: "ev OR always = ev OR EPOLLERR OR EPOLLHUP"
  by (simp add: always_def or.assoc)

lemma wepoll_upd:
  assumes "0 \<le> n" and "interest p' = (interest p)(nat n := x)"
  shows "wepoll_interests (os, p') = (wepoll_interests (os, p))(n := x)"
  using assms by (auto simp: wepoll_interests_def fun_eq_iff)


interpretation wep: epoll_instance wepoll_inv wepoll_accepts wepoll_interests wepoll_ctl
proof unfold_locales
  fix k :: "win_os \<times> port_state" and n and ev :: epoll_event
  obtain os p where k: "k = (os, p)" by (cases k)
  show "\<exists>k'. wepoll_ctl EPOLL_CTL_ADD n ev k = (True, k') \<and> wepoll_inv k' \<and> wepoll_accepts k' = wepoll_accepts k \<and>
      wepoll_interests k' = (wepoll_interests k)(n \<mapsto> (ev_events ev OR always, ev_data ev))"
    if "wepoll_inv k" "wepoll_accepts k n" "wepoll_interests k n = None"
  proof -
    have n: "0 \<le> n" "nat n \<noteq> 0" "nat n \<noteq> INVALID_SOCKET" "interest p (nat n) = None"
      using that(2,3) by (auto simp: wepoll_accepts_def wepoll_interests_def k INVALID_SOCKET_def)
    have p: "win_ok os" "port_ok p" "iocp_handle p \<noteq> None" "active_poll_count p = 0" using that(1) by (auto simp: wepoll_inv_def k)
    obtain r p' where a: "port__ctl_add os (nat n) ev p = Inr (r, p')" "port_ok p'" "active_poll_count p' = active_poll_count p"
      "iocp_handle p' = iocp_handle p"
      "r = Inr () \<longrightarrow> interest p (nat n) = None \<and> (active_poll_count p = 0 \<longrightarrow>
         interest p' = (interest p)(nat n \<mapsto> (ev_events ev OR EPOLLERR OR EPOLLHUP, ev_data ev)))"
      using port__ctl_add_ok [OF p(2,3), of os "nat n" ev] by (elim exE conjE) (rule that)
    have r: "r = Inr ()" by (rule ctl_add_succeeds [OF p(1-3) n(2-4) a(1)])
    have "wepoll_ctl EPOLL_CTL_ADD n ev k = (True, (os, p'))"
      by (simp add: wepoll_ctl_def k port_ctl_def EPOLL_CTL_ADD_def a(1) r)
    moreover have "wepoll_interests (os, p') = (wepoll_interests k)(n \<mapsto> (ev_events ev OR always, ev_data ev))"
      unfolding k always_or by (rule wepoll_upd) (use n a(5) r p(4) in simp_all)
    ultimately show ?thesis using a p by (intro exI [of _ "(os, p')"]) (auto simp: wepoll_inv_def wepoll_accepts_def fun_eq_iff)
  qed
  show "\<exists>k'. wepoll_ctl EPOLL_CTL_MOD n ev k = (True, k') \<and> wepoll_inv k' \<and> wepoll_accepts k' = wepoll_accepts k \<and>
      wepoll_interests k' = (wepoll_interests k)(n \<mapsto> (ev_events ev OR always, ev_data ev))"
    if "wepoll_inv k" "wepoll_interests k n \<noteq> None"
  proof -
    have n: "0 \<le> n" "interest p (nat n) \<noteq> None" using that(2) by (auto simp: wepoll_interests_def k split: if_splits)
    have p: "win_ok os" "port_ok p" "iocp_handle p \<noteq> None" "active_poll_count p = 0" using that(1) by (auto simp: wepoll_inv_def k)
    obtain r p' where a: "port__ctl_mod os (nat n) ev p = Inr (r, p')" "port_ok p'" "active_poll_count p' = active_poll_count p"
      "iocp_handle p' = iocp_handle p" "r = Inr () \<longleftrightarrow> interest p (nat n) \<noteq> None"
      "r = Inr () \<longrightarrow> active_poll_count p = 0 \<longrightarrow>
         interest p' = (interest p)(nat n \<mapsto> (ev_events ev OR EPOLLERR OR EPOLLHUP, ev_data ev))"
      using port__ctl_mod_ok [OF p(2), of os "nat n" ev] by (elim exE conjE) (rule that)
    have r: "r = Inr ()" using a(5) n(2) by blast
    have "wepoll_ctl EPOLL_CTL_MOD n ev k = (True, (os, p'))"
      by (simp add: wepoll_ctl_def k port_ctl_def EPOLL_CTL_MOD_def a(1) r)
    moreover have "wepoll_interests (os, p') = (wepoll_interests k)(n \<mapsto> (ev_events ev OR always, ev_data ev))"
      unfolding k always_or by (rule wepoll_upd) (use n a(6) r p(4) in simp_all)
    ultimately show ?thesis using a p by (intro exI [of _ "(os, p')"]) (auto simp: wepoll_inv_def wepoll_accepts_def fun_eq_iff)
  qed
  show "\<exists>k'. wepoll_ctl EPOLL_CTL_DEL n ev k = (True, k') \<and> wepoll_inv k' \<and> wepoll_accepts k' = wepoll_accepts k \<and>
      wepoll_interests k' = (wepoll_interests k)(n := None)"
    if "wepoll_inv k" "wepoll_interests k n \<noteq> None"
  proof -
    have n: "0 \<le> n" "interest p (nat n) \<noteq> None" using that(2) by (auto simp: wepoll_interests_def k split: if_splits)
    have p: "win_ok os" "port_ok p" "iocp_handle p \<noteq> None" "active_poll_count p = 0" using that(1) by (auto simp: wepoll_inv_def k)
    obtain r p' where a: "port__ctl_del os (nat n) p = Inr (r, p')" "port_ok p'" "active_poll_count p' = active_poll_count p"
      "iocp_handle p' = iocp_handle p" "r = Inr () \<longleftrightarrow> interest p (nat n) \<noteq> None" "interest p' = (interest p)(nat n := None)"
      using port__ctl_del_ok [OF p(2), of os "nat n"] by (elim exE conjE) (rule that)
    have r: "r = Inr ()" using a(5) n(2) by blast
    have "wepoll_ctl EPOLL_CTL_DEL n ev k = (True, (os, p'))"
      by (simp add: wepoll_ctl_def k port_ctl_def EPOLL_CTL_DEL_def a(1) r)
    moreover have "wepoll_interests (os, p') = (wepoll_interests k)(n := None)"
      unfolding k by (rule wepoll_upd) (use n a(6) in simp_all)
    ultimately show ?thesis using a p by (intro exI [of _ "(os, p')"]) (auto simp: wepoll_inv_def wepoll_accepts_def fun_eq_iff)
  qed
  show "wepoll_accepts k n \<Longrightarrow> 0 \<le> n" by (simp add: wepoll_accepts_def)
qed

section \<open>Polling\<close>

lemma fill_ep_exact:
  assumes "\<forall>e \<in> set es. ev_events e \<noteq> EPOLLEVENT \<and> ep_live s (ev_data e)" and "distinct (map ev_data es)"
  shows "\<exists>s'. fill_ep es act sigs s = Inr (act @ map ev_data es, sigs, s') \<and> ep_channels s' = ep_channels s \<and>
    ep_instance s' = ep_instance s \<and> ep_events_size s' = ep_events_size s \<and>
    (\<forall>e \<in> set es. ep_store s' (ev_data e) = setRevents (ev_events e) (ep_store s (ev_data e))) \<and>
    (\<forall>c. c \<notin> ev_data ` set es \<longrightarrow> ep_store s' c = ep_store s c)"
  using assms
proof (induction es arbitrary: act s)
  case (Cons e es)
  let ?c = "ev_data e"
  let ?s = "ep_set_channel ?c (setRevents (ev_events e) (ep_store s ?c)) s"
  have st: "ep_store ?s d = (if d = ?c then setRevents (ev_events e) (ep_store s ?c) else ep_store s d)" for d
    by (simp add: ep_set_channel_def)
  have fr: "ep_channels ?s = ep_channels s" "ep_instance ?s = ep_instance s" "ep_events_size ?s = ep_events_size s"
    by (simp_all add: ep_set_channel_def)
  have live: "ep_live ?s d = ep_live s d" for d unfolding ep_live_def fr st by (simp add: setRevents_def)
  have nin: "?c \<notin> ev_data ` set es" using Cons.prems(2) by simp
  obtain s' where s': "fill_ep es (act @ [?c]) sigs ?s = Inr ((act @ [?c]) @ map ev_data es, sigs, s')"
    "ep_channels s' = ep_channels s" "ep_instance s' = ep_instance s" "ep_events_size s' = ep_events_size s"
    "\<forall>e \<in> set es. ep_store s' (ev_data e) = setRevents (ev_events e) (ep_store ?s (ev_data e))"
    "\<forall>c. c \<notin> ev_data ` set es \<longrightarrow> ep_store s' c = ep_store ?s c"
    using Cons.IH [of ?s "act @ [?c]"] Cons.prems live fr by auto
  have "ep_channels s (ch_fd (ep_store s ?c)) = Some ?c" "ev_events e \<noteq> EPOLLEVENT"
    using Cons.prems(1) by (simp_all add: ep_live_def)
  then have "fill_ep (e # es) act sigs s = Inr (act @ map ev_data (e # es), sigs, s')" using s'(1) by (simp add: Let_def)
  moreover have "\<forall>e' \<in> set (e # es). ep_store s' (ev_data e') = setRevents (ev_events e') (ep_store s (ev_data e'))"
  proof
    fix e'
    assume "e' \<in> set (e # es)"
    then consider "e' = e" | "e' \<in> set es" "ev_data e' \<noteq> ?c" using nin by (metis image_eqI set_ConsD)
    then show "ep_store s' (ev_data e') = setRevents (ev_events e') (ep_store s (ev_data e'))"
      by cases (use s'(5,6) st nin in \<open>simp_all\<close>)
  qed
  moreover have "\<forall>c. c \<notin> ev_data ` set (e # es) \<longrightarrow> ep_store s' c = ep_store s c" using s'(6) st by simp
  ultimately show ?case using s'(2-4) by (intro exI [of _ s'] conjI)
qed simp

section \<open>Properties\<close>

definition demo_win :: win_os where
  "demo_win = \<lparr>malloc_ok = (\<lambda>k. True), afd_create_device_handle = (\<lambda>k. None), afd_poll = (\<lambda>k. None),
     afd_cancel_poll = (\<lambda>k. None), get_base_socket = (\<lambda>n. Inr n)\<rparr>"

definition demo_ep :: "(win_os \<times> port_state) EpollPoller" where
  "demo_ep = EpollPoller_new (demo_win, port_new 1) (\<lambda>c. Channel_new (int c + 5))"

lemma port_new_ok: "port_ok (port_new iocp)"
  by (simp add: port_new_def port_ok_but_def tree_ok_def queues_ok_def groups_ok_def alloc_ok_def members_def)

lemma demo_ep_ok: "epoll_ok wepoll_inv wepoll_accepts wepoll_interests demo_ep"
  using port_new_ok [of 1]
  by (simp add: demo_ep_def epoll_ok_def EpollPoller_new_def wepoll_inv_def win_ok_def demo_win_def
      wepoll_interests_def interest_def) (simp add: port_new_def)

text \<open>
  C24. Over a port of wepoll a channel that enables events, disables them and is removed never fails an
  assertion; in between the port watches exactly the mask of the channel, and afterwards the port and
  the poller watch what they did before.
\<close>

theorem epollpoller_lifecycle:
  assumes "epoll_ok wepoll_inv wepoll_accepts wepoll_interests s" and "wepoll_accepts (ep_instance s) (ch_fd (ep_store s c))"
    and "ch_index (ep_store s c) = kNew" and "\<forall>c'. ep_live s c' \<longrightarrow> ch_fd (ep_store s c') \<noteq> ch_fd (ep_store s c)"
    and "plain_mask (f (ch_events (ep_store s c)))"
  shows "\<exists>s1 s2 s3. modify_ep wepoll_ctl c f s = Inr s1 \<and>
    ep_watch wepoll_interests s1 (ch_fd (ep_store s c)) = f (ch_events (ep_store s c)) \<and>
    modify_ep wepoll_ctl c disableAll s1 = Inr s2 \<and> removeChannel_ep wepoll_ctl c s2 = Inr s3 \<and>
    epoll_ok wepoll_inv wepoll_accepts wepoll_interests s3 \<and> \<not> ep_live s3 c \<and>
    ep_watch wepoll_interests s3 = ep_watch wepoll_interests s"
  by (rule wep.ep.lifecycle [of s c f, OF assms])

theorem epollpoller_lifecycle_witness:
  "\<exists>s1 s2 s3. modify_ep wepoll_ctl 3 enableReading demo_ep = Inr s1 \<and> ep_watch wepoll_interests s1 8 = kReadEvent \<and>
     modify_ep wepoll_ctl 3 disableAll s1 = Inr s2 \<and> removeChannel_ep wepoll_ctl 3 s2 = Inr s3"
proof -
  have "wepoll_accepts (ep_instance demo_ep) (ch_fd (ep_store demo_ep 3))" "ch_index (ep_store demo_ep 3) = kNew"
    "\<forall>c'. ep_live demo_ep c' \<longrightarrow> ch_fd (ep_store demo_ep c') \<noteq> ch_fd (ep_store demo_ep 3)"
    "plain_mask (enableReading (ch_events (ep_store demo_ep 3)))" and fd: "ch_fd (ep_store demo_ep 3) = 8"
    "enableReading (ch_events (ep_store demo_ep 3)) = kReadEvent"
    by (simp_all add: demo_ep_def EpollPoller_new_def Channel_new_def wepoll_accepts_def kNew_def ep_live_def
        plain_mask_def enableReading_def kReadEvent_def poll_flags always_def EPOLLERR_def EPOLLHUP_def)
  from epollpoller_lifecycle [of demo_ep 3 enableReading, OF demo_ep_ok this(1-4)] show ?thesis unfolding fd by blast
qed

text \<open>
  C25. A poll returns exactly the channels of the reported events, in order, and gives each its events;
  the list of events doubles when it was filled, so a loop that is behind asks for more the next time.
\<close>

theorem epollpoller_poll_exact:
  assumes "wait (ep_events_size s) (ep_instance s) = (Some es, k)" and "length es \<le> ep_events_size s" and "es \<noteq> []"
    and "\<forall>e \<in> set es. ev_events e \<noteq> EPOLLEVENT \<and> ep_live s (ev_data e)" and "distinct (map ev_data es)"
  shows "\<exists>s'. poll_ep wait s = Inr (map ev_data es, [], s') \<and>
    (\<forall>e \<in> set es. ch_revents (ep_store s' (ev_data e)) = ev_events e) \<and>
    (\<forall>c. c \<notin> ev_data ` set es \<longrightarrow> ep_store s' c = ep_store s c) \<and> ep_channels s' = ep_channels s \<and>
    ep_events_size s' = (if length es = ep_events_size s then 2 else 1) * ep_events_size s"
proof -
  let ?s = "s\<lparr>ep_instance := k\<rparr>"
  have "\<forall>e \<in> set es. ev_events e \<noteq> EPOLLEVENT \<and> ep_live ?s (ev_data e)" using assms(4) by (simp add: ep_live_def)
  from fill_ep_exact [OF this assms(5), of "[]" "[]"] obtain s' where s': "fill_ep es [] [] ?s = Inr (map ev_data es, [], s')"
    "ep_channels s' = ep_channels s" "ep_events_size s' = ep_events_size s"
    "\<forall>e \<in> set es. ep_store s' (ev_data e) = setRevents (ev_events e) (ep_store s (ev_data e))"
    "\<forall>c. c \<notin> ev_data ` set es \<longrightarrow> ep_store s' c = ep_store s c" by auto
  let ?s' = "if length es = ep_events_size s then s'\<lparr>ep_events_size := ep_events_size s * 2\<rparr> else s'"
  have "poll_ep wait s = Inr (map ev_data es, [], ?s')"
    using assms(1-3) s'(1,3) by (simp add: poll_ep_def fillActiveChannels_ep_def)
  then show ?thesis using s' by (intro exI [of _ ?s'] conjI) (simp_all add: setRevents_def)
qed

theorem epollpoller_poll_exact_witness:
  "\<exists>s'. poll_ep (\<lambda>n k. (Some [\<lparr>ev_events = EPOLLIN, ev_data = 2\<rparr>], k)) (demo_ep\<lparr>ep_channels := [7 \<mapsto> 2]\<rparr>) = Inr ([2], [], s') \<and>
     ch_revents (ep_store s' 2) = EPOLLIN \<and> ep_events_size s' = 16"
  using epollpoller_poll_exact [of "\<lambda>n k. (Some [\<lparr>ev_events = EPOLLIN, ev_data = 2\<rparr>], k)" "demo_ep\<lparr>ep_channels := [7 \<mapsto> 2]\<rparr>"
      "[\<lparr>ev_events = EPOLLIN, ev_data = 2\<rparr>]" "ep_instance demo_ep"]
  by (auto simp: demo_ep_def EpollPoller_new_def kInitEventListSize_def ep_live_def Channel_new_def EPOLLIN_def EPOLLEVENT_def)


end
