(* ===== verification/Wepoll_Port_Props.thy ===== *)
theory Wepoll_Port_Props
  imports Wepoll_Port_Inv
begin

text \<open>
  The ports of wepoll as a state machine: the states that control operations, waits and completions
  reach, and the properties of the ports.
\<close>

unbundle bit_operations_syntax

section \<open>Reachable ports\<close>

definition in_flight :: "port_state \<Rightarrow> nat \<Rightarrow> bool" where
  "in_flight s i \<longleftrightarrow> (case socks s i of None \<Rightarrow> False | Some k \<Rightarrow> poll_status k \<noteq> SOCK__POLL_IDLE)"

fun completion_sock :: "completion \<Rightarrow> nat option" where
  "completion_sock (Posted key) = None"
| "completion_sock (Completed i status n afd) = Some i"

text \<open>The driver completes operations that are in flight, each once.\<close>

definition deliverable :: "port_state \<Rightarrow> completion list \<Rightarrow> bool" where
  "deliverable s cs \<longleftrightarrow> distinct (List.map_filter completion_sock cs) \<and>
     (\<forall>i \<in> set (List.map_filter completion_sock cs). in_flight s i)"

text \<open>
  The steps between two releases of the lock of the port. A wait consists of a submission, after which
  it sleeps without the lock, and of a delivery; other threads make control operations and waits of
  their own in between.
\<close>

inductive port_reach :: "win_os \<Rightarrow> port_state \<Rightarrow> bool" for os where
  start: "port_reach os (port_new h)"
| ctl: "port_reach os s \<Longrightarrow> port_ctl os op n ev s = Inr (r, s') \<Longrightarrow> port_reach os s'"
| submit: "port_reach os s \<Longrightarrow> port__update_events os s = Inr (Inr (), s') \<Longrightarrow>
    port_reach os (s'\<lparr>active_poll_count := Suc (active_poll_count s')\<rparr>)"
| submit_failed: "port_reach os s \<Longrightarrow> port__update_events os s = Inr (Inl e, s') \<Longrightarrow> port_reach os s'"
| deliver: "port_reach os s \<Longrightarrow> active_poll_count s > 0 \<Longrightarrow> deliverable s cs \<Longrightarrow>
    port__feed_events os cs (s\<lparr>active_poll_count := size_sub (active_poll_count s) 1\<rparr>) = Inr (r, s') \<Longrightarrow>
    port_reach os s'"
| timed_out: "port_reach os s \<Longrightarrow> active_poll_count s > 0 \<Longrightarrow>
    port_reach os (s\<lparr>active_poll_count := size_sub (active_poll_count s) 1\<rparr>)"

lemma deliverable_Cons:
  "deliverable s (Completed i status n afd # cs) \<longleftrightarrow>
     in_flight s i \<and> i \<notin> set (List.map_filter completion_sock cs) \<and> deliverable s cs"
  "deliverable s (Posted key # cs) \<longleftrightarrow> deliverable s cs"
  by (auto simp: deliverable_def map_filter_simps)

lemma deliverable_active [simp]: "deliverable (s\<lparr>active_poll_count := n\<rparr>) cs = deliverable s cs"
  by (simp add: deliverable_def in_flight_def)

lemma port__feed_events_ok:
  assumes "port_ok s" and "deliverable s cs"
  shows "\<exists>evs s'. port__feed_events os cs s = Inr (Inr evs, s') \<and> port_ok s' \<and>
    active_poll_count s' = active_poll_count s \<and> iocp_handle s' = iocp_handle s \<and>
    (\<forall>ev \<in> set evs. ev_events ev = EPOLLEVENT \<and> Posted (ev_data ev) \<in> set cs \<or>
       (\<exists>i k. i \<in> set (List.map_filter completion_sock cs) \<and> socks s i = Some k \<and> \<not> delete_pending k \<and> reported_for k ev))"
  using assms
proof (induction cs arbitrary: s)
  case (Cons c cs)
  show ?case
  proof (cases c)
    case (Posted key)
    with Cons.IH [of s] Cons.prems show ?thesis
      by (fastforce simp: deliverable_Cons map_filter_simps)
  next
    case (Completed i status n afd)
    with Cons.prems(2) obtain k where k: "socks s i = Some k"
      and rest: "i \<notin> set (List.map_filter completion_sock cs)" "deliverable s cs"
      by (auto simp: deliverable_Cons in_flight_def split: option.splits)
    obtain evo s1 where f: "sock_feed_event os i status n afd s = Inr (Inr evo, s1)" "port_ok s1"
      "\<forall>j. j \<noteq> i \<longrightarrow> socks s1 j = socks s j" "active_poll_count s1 = active_poll_count s" "iocp_handle s1 = iocp_handle s"
      "\<forall>ev. evo = Some ev \<longrightarrow> \<not> delete_pending k \<and> reported_for k ev"
      using sock_feed_event_ok [OF Cons.prems(1) k, of os status n afd] by blast
    have same: "socks s1 j = socks s j" if "j \<in> set (List.map_filter completion_sock cs)" for j
      using f(3) rest(1) that by metis
    have "deliverable s1 cs" using rest(2) same by (simp add: deliverable_def in_flight_def)
    then obtain evs s' where g: "port__feed_events os cs s1 = Inr (Inr evs, s')" "port_ok s'"
      "active_poll_count s' = active_poll_count s1" "iocp_handle s' = iocp_handle s1"
      "\<forall>ev \<in> set evs. ev_events ev = EPOLLEVENT \<and> Posted (ev_data ev) \<in> set cs \<or>
        (\<exists>j m. j \<in> set (List.map_filter completion_sock cs) \<and> socks s1 j = Some m \<and> \<not> delete_pending m \<and> reported_for m ev)"
      using Cons.IH [OF f(2)] by blast
    have "port__feed_events os (c # cs) s = Inr (Inr ((case evo of None \<Rightarrow> [] | Some ev \<Rightarrow> [ev]) @ evs), s')"
      using Completed f(1) g(1) by simp
    moreover have "\<forall>ev \<in> set ((case evo of None \<Rightarrow> [] | Some ev \<Rightarrow> [ev]) @ evs).
        ev_events ev = EPOLLEVENT \<and> Posted (ev_data ev) \<in> set (c # cs) \<or>
        (\<exists>j m. j \<in> set (List.map_filter completion_sock (c # cs)) \<and> socks s j = Some m \<and> \<not> delete_pending m \<and> reported_for m ev)"
    proof
      fix ev
      assume "ev \<in> set ((case evo of None \<Rightarrow> [] | Some ev \<Rightarrow> [ev]) @ evs)"
      then consider "evo = Some ev" | "ev \<in> set evs" by (cases evo) auto
      then show "ev_events ev = EPOLLEVENT \<and> Posted (ev_data ev) \<in> set (c # cs) \<or>
        (\<exists>j m. j \<in> set (List.map_filter completion_sock (c # cs)) \<and> socks s j = Some m \<and> \<not> delete_pending m \<and> reported_for m ev)"
      proof cases
        case 1
        with f(6) k Completed show ?thesis by (intro disjI2 exI [of _ i] exI [of _ k]) (simp add: map_filter_simps)
      next
        case 2
        with g(5) same Completed show ?thesis by (fastforce simp: map_filter_simps)
      qed
    qed
    ultimately show ?thesis using f(4,5) g(2-4) by auto
  qed
qed (simp add: map_filter_simps)

lemma port_reach_ok:
  assumes "port_reach os s"
  shows "port_ok s" and "iocp_handle s \<noteq> None"
proof -
  have "port_ok s \<and> iocp_handle s \<noteq> None"
    using assms
  proof induction
    case (start h)
    show ?case by (rule conjI, simp, simp add: port_new_def)
  next
    case (ctl s op n ev r s')
    with port_ctl_ok [of s os op n ev] show ?case by auto
  next
    case (submit s s')
    with port__update_events_ok [of s os] show ?case by auto
  next
    case (submit_failed s e s')
    with port__update_events_ok [of s os] show ?case by auto
  next
    case (deliver s cs r s')
    then show ?case
      using port__feed_events_ok [of "s\<lparr>active_poll_count := size_sub (active_poll_count s) 1\<rparr>" cs os] by auto
  next
    case (timed_out s)
    then show ?case by simp
  qed
  then show "port_ok s" and "iocp_handle s \<noteq> None" by auto
qed

section \<open>Closing a port\<close>

lemma force_delete_all_ok:
  assumes "port_ok s" and "distinct is" and "set is \<subseteq> dom (socks s)"
  shows "\<exists>s'. force_delete_all os is s = Inr s' \<and> port_ok s' \<and> (\<forall>j. socks s' j = (if j \<in> set is then None else socks s j)) \<and>
    dom (groups s') = dom (groups s) \<and> iocp_handle s' = iocp_handle s"
  using assms
proof (induction "is" arbitrary: s)
  case (Cons i "is")
  then obtain k where k: "socks s i = Some k" by auto
  have "port_ok_but {i} s" using Cons.prems(1) by (rule port_ok_but_mono) simp
  then obtain s1 where d: "sock__delete os i True s = Inr (Inr (), s1)" "port_ok s1" "\<forall>j. j \<noteq> i \<longrightarrow> socks s1 j = socks s j"
    "socks s1 i = None" "dom (groups s1) = dom (groups s)" "iocp_handle s1 = iocp_handle s"
    using sock__delete_ok [OF _ k, of os True] by blast
  have "set is \<subseteq> dom (socks s1)"
  proof
    fix j
    assume "j \<in> set is"
    with Cons.prems(2,3) have "j \<noteq> i" "j \<in> dom (socks s)" by auto
    with d(3) show "j \<in> dom (socks s1)" by (simp add: domIff)
  qed
  then obtain s' where s': "force_delete_all os is s1 = Inr s'" "port_ok s'"
    "\<forall>j. socks s' j = (if j \<in> set is then None else socks s1 j)" "dom (groups s') = dom (groups s1)" "iocp_handle s' = iocp_handle s1"
    using Cons.IH [OF d(2)] Cons.prems(2) by auto
  have "socks s' j = (if j \<in> set (i # is) then None else socks s j)" for j
    using s'(3) d(3,4) by (cases "j = i") auto
  with s' d show ?case by auto
qed simp

lemma group_delete_all_ok:
  assumes "\<forall>g \<in> dom (groups s). groups s g = Some 0" and "distinct gs" and "set gs = dom (groups s)" and "poll_group_queue s = gs"
  shows "\<exists>s'. group_delete_all gs s = Inr s' \<and> groups s' = Map.empty \<and> poll_group_queue s' = [] \<and>
    socks s' = socks s \<and> sock_update_queue s' = sock_update_queue s"
  using assms
proof (induction gs arbitrary: s)
  case (Cons g gs)
  let ?s = "s\<lparr>poll_group_queue := gs, groups := (groups s)(g := None)\<rparr>"
  have "g \<in> dom (groups s)" using Cons.prems(3) by (metis list.set_intros(1))
  then have "groups s g = Some 0" using Cons.prems(1) by blast
  then have "group_delete_all (g # gs) s = group_delete_all gs ?s"
    using Cons.prems(4) by (simp add: poll_group_delete_def)
  moreover have "\<forall>h \<in> dom (groups ?s). groups ?s h = Some 0" "distinct gs" "set gs = dom (groups ?s)" "poll_group_queue ?s = gs"
    using Cons.prems(1-3) by auto
  from Cons.IH [OF this] have "\<exists>s'. group_delete_all gs ?s = Inr s' \<and> groups s' = Map.empty \<and> poll_group_queue s' = [] \<and>
      socks s' = socks s \<and> sock_update_queue s' = sock_update_queue s" by simp
  ultimately show ?case by simp
next
  case Nil
  then have "dom (groups s) = {}" by simp
  with Nil show ?case by simp
qed

lemma port_delete_ok:
  assumes "port_ok s" and "iocp_handle s = None" and "distinct roots"
    and "set roots = {i. \<exists>n. sock_tree s n = Some i}"
  shows "\<exists>s'. port_delete os roots s = Inr s' \<and> socks s' = Map.empty \<and> groups s' = Map.empty"
proof -
  have roots: "i \<in> set roots \<longleftrightarrow> (\<exists>k. socks s i = Some k \<and> \<not> delete_pending k)" for i
    using assms(1,4) by (auto simp: port_ok_but_def tree_ok_def)
  then have "set roots \<subseteq> dom (socks s)" by blast
  then obtain s1 where s1: "force_delete_all os roots s = Inr s1" "port_ok s1"
    "\<forall>j. socks s1 j = (if j \<in> set roots then None else socks s j)" "dom (groups s1) = dom (groups s)"
    using force_delete_all_ok [OF assms(1,3), of os] by blast
  have q: "distinct (sock_deleted_queue s1)" "i \<in> set (sock_deleted_queue s1) \<longleftrightarrow> (\<exists>k. socks s1 i = Some k \<and> delete_pending k)" for i
    using s1(2) by (auto simp: port_ok_but_def queues_ok_def)
  have "i \<in> set (sock_deleted_queue s1)" if "socks s1 i = Some k" for i k
    using that q(2) [of i] s1(3) roots [of i] by (auto split: if_splits)
  then have all: "set (sock_deleted_queue s1) = dom (socks s1)" using q(2) by auto
  then obtain s2 where s2: "force_delete_all os (sock_deleted_queue s1) s1 = Inr s2" "port_ok s2"
    "\<forall>j. socks s2 j = (if j \<in> set (sock_deleted_queue s1) then None else socks s1 j)" "dom (groups s2) = dom (groups s1)"
    using force_delete_all_ok [OF s1(2) q(1), of os] by auto
  have "socks s2 j = None" for j using s2(3) all by (cases "j \<in> dom (socks s1)") (auto simp: domIff)
  then have empty: "socks s2 = Map.empty" by (rule ext)
  have g: "groups_ok None s2" using s2(2) by (simp add: port_ok_but_def)
  have "\<forall>h \<in> dom (groups s2). groups s2 h = Some 0"
  proof
    fix h
    assume "h \<in> dom (groups s2)"
    then obtain n where n: "groups s2 h = Some n" by auto
    with groups_okD(5) [OF g n] empty show "groups s2 h = Some 0" by (simp add: members_def)
  qed
  then obtain s3 where s3: "group_delete_all (poll_group_queue s2) s2 = Inr s3" "groups s3 = Map.empty" "socks s3 = socks s2"
    "sock_update_queue s3 = sock_update_queue s2"
    using group_delete_all_ok [OF _ groups_okD(2,3) [OF g] refl] by auto
  have "set (sock_update_queue s2) = {}" using s2(2) empty by (auto simp: port_ok_but_def queues_ok_def)
  then show ?thesis using assms(2) s1(1) s2(1) s3 empty by (simp add: port_delete_def)
qed

section \<open>An example run\<close>

text \<open>A system on which every call succeeds, and a port that watches socket 5 for reading.\<close>

definition demo_os :: win_os where
  "demo_os = \<lparr>malloc_ok = \<lambda>_. True, afd_create_device_handle = \<lambda>_. None, afd_poll = \<lambda>_. Some ERROR_IO_PENDING,
     afd_cancel_poll = \<lambda>_. None, get_base_socket = Inr\<rparr>"

definition demo_sock :: sock_state where
  "demo_sock = \<lparr>tree_key = 5, poll_group = 0, base_socket = 5, user_data = 9, user_events = 25, pending_events = 0,
     poll_status = SOCK__POLL_IDLE, delete_pending = False, poll_info_events = 0\<rparr>"

definition demo_port :: port_state where
  "demo_port = \<lparr>iocp_handle = Some 7, sock_tree = [5 \<mapsto> 1], sock_update_queue = [1], sock_deleted_queue = [],
     poll_group_queue = [0], active_poll_count = 0, socks = [1 \<mapsto> demo_sock],
     groups = [0 \<mapsto> 1], next_address = Suc 1, os_calls = Suc (Suc 1)\<rparr>"

definition demo_waiting :: port_state where
  "demo_waiting = demo_port\<lparr>sock_update_queue := [], os_calls := Suc (Suc (Suc 1)),
     socks := [1 \<mapsto> demo_sock\<lparr>poll_status := SOCK__POLL_PENDING, pending_events := 25,
       poll_info_events := sock__epoll_events_to_afd_events 25\<rparr>]\<rparr>"

lemma demo_ctl: "port_ctl demo_os 1 5 \<lparr>ev_events = 1, ev_data = 9\<rparr> (port_new 7) = Inr (Inr (), demo_port)"
  by (simp add: port_ctl_def port__ctl_add_def sock_new_def demo_os_def port_new_def poll_group_acquire_def
    poll_group__new_def Let_def os_call_def group_join_def POLL_GROUP__MAX_GROUP_SIZE_def INVALID_SOCKET_def
    port_register_socket_def set_sock_def sock_set_event_def with_sock_def SOCK__KNOWN_EPOLL_EVENTS_def epoll_flags
    port_request_socket_update_def sock_enqueued_def port__update_events_if_polling_def demo_port_def demo_sock_def)

lemma demo_submit: "port__update_events demo_os demo_port = Inr (Inr (), demo_waiting)"
proof -
  have "sock_update demo_os 1 demo_port = Inr (Inr (), demo_waiting)"
    by (simp add: demo_os_def demo_port_def demo_sock_def demo_waiting_def
      sock_update_def with_sock_def Let_def port_cancel_socket_update_def sock_enqueued_def sock_queue_remove_def
      set_sock_def os_call_def)
  moreover have "sock_update_queue demo_port = [1]" "sock_update_queue demo_waiting = []"
    by (simp_all add: demo_port_def demo_waiting_def)
  ultimately show ?thesis
    by (simp add: port__update_events.simps [of demo_os demo_port] port__update_events.simps [of demo_os demo_waiting])
qed

lemma demo_reach: "port_reach demo_os demo_port" "port_reach demo_os (demo_waiting\<lparr>active_poll_count := 1\<rparr>)"
proof -
  show "port_reach demo_os demo_port" by (rule port_reach.ctl [OF port_reach.start demo_ctl])
  from port_reach.submit [OF this demo_submit] show "port_reach demo_os (demo_waiting\<lparr>active_poll_count := 1\<rparr>)"
    by (simp add: demo_waiting_def demo_port_def)
qed

section \<open>Properties\<close>

text \<open>
  C10. In every reachable state of a port, whatever the system has answered so far, no control
  operation, no submission and no delivery reads a freed socket or group or fails an assertion.
\<close>

theorem wepoll_never_faults:
  assumes "port_reach os s"
  shows "(\<exists>r s'. port_ctl os op n ev s = Inr (r, s')) \<and> (\<exists>r s'. port__update_events os s = Inr (r, s')) \<and>
    (deliverable s cs \<longrightarrow> (\<exists>evs s'. port__feed_events os cs (s\<lparr>active_poll_count := m\<rparr>) = Inr (Inr evs, s')))"
  using port_reach_ok [OF assms] port_ctl_ok [of s os op n ev] port__update_events_ok [of s os]
    port__feed_events_ok [of "s\<lparr>active_poll_count := m\<rparr>" cs os]
  by auto

theorem wepoll_never_faults_witness:
  "(\<exists>r s'. port_ctl demo_os 3 5 undefined demo_port = Inr (r, s')) \<and> (\<exists>r s'. port__update_events demo_os demo_port = Inr (r, s'))"
  using wepoll_never_faults [OF demo_reach(1), where op = 3 and n = 5 and ev = undefined] by blast

text \<open>
  C11. After a submission without an error every watched socket has a poll operation in flight that
  monitors all the events its user wants, or a cancelled one whose completion queues the socket again:
  no event is missed while a thread waits.
\<close>

theorem wepoll_all_monitored:
  assumes "port_reach os s" and "port__update_events os s = Inr (Inr (), s')" and "sock_tree s' n = Some i"
  shows "\<exists>k. socks s' i = Some k \<and> tree_key k = n \<and>
    (poll_status k = SOCK__POLL_PENDING \<and> missing_events k = 0 \<or> poll_status k = SOCK__POLL_CANCELLED)"
proof -
  have ok: "port_ok s'" "sock_update_queue s' = []"
    using port__update_events_ok [OF port_reach_ok(1) [OF assms(1)], of os] assms(2) by auto
  obtain k where k: "socks s' i = Some k" "\<not> delete_pending k" "tree_key k = n" using treeD [OF ok(1) assms(3)] .
  moreover have "sock_ok s' i k" using ok(1) k(1) by (auto simp: port_ok_but_def)
  ultimately show ?thesis using ok(2) by (auto simp: sock_ok_def)
qed

theorem wepoll_all_monitored_witness:
  "\<exists>k. socks demo_waiting 1 = Some k \<and> tree_key k = 5 \<and>
     (poll_status k = SOCK__POLL_PENDING \<and> missing_events k = 0 \<or> poll_status k = SOCK__POLL_CANCELLED)"
  by (rule wepoll_all_monitored [OF demo_reach(1) demo_submit]) (simp add: demo_waiting_def demo_port_def)

text \<open>
  C26. A wait reports only what was asked for: each event is either a posted signal or a nonempty part
  of the events that the user of a watched socket has set, with the data of that user.
\<close>

theorem wepoll_reports_only_requested:
  assumes "port_reach os s" and "deliverable s cs" and "port__feed_events os cs s = Inr (r, s')"
  shows "\<exists>evs. r = Inr evs \<and> (\<forall>ev \<in> set evs. ev_events ev = EPOLLEVENT \<and> Posted (ev_data ev) \<in> set cs \<or>
    (\<exists>i k. sock_tree s (tree_key k) = Some i \<and> socks s i = Some k \<and> reported_for k ev))"
proof -
  have ok: "port_ok s" by (rule port_reach_ok(1) [OF assms(1)])
  then have "sock_tree s (tree_key k) = Some i" if "socks s i = Some k" "\<not> delete_pending k" for i k
    using that by (auto simp: port_ok_but_def tree_ok_def)
  with port__feed_events_ok [OF ok assms(2), of os] assms(3) show ?thesis by fastforce
qed

theorem wepoll_reports_only_requested_witness:
  "\<exists>r s' evs. port__feed_events demo_os [Posted 3, Completed 1 Io_Success 1 AFD_POLL_RECEIVE]
       (demo_waiting\<lparr>active_poll_count := 1\<rparr>) = Inr (r, s') \<and> r = Inr evs"
proof -
  let ?s = "demo_waiting\<lparr>active_poll_count := 1\<rparr>" and ?cs = "[Posted 3, Completed 1 Io_Success 1 AFD_POLL_RECEIVE]"
  have d: "deliverable ?s ?cs"
    by (simp add: deliverable_def in_flight_def demo_waiting_def demo_port_def demo_sock_def map_filter_simps)
  obtain r s' where "port__feed_events demo_os ?cs ?s = Inr (r, s')"
    using port__feed_events_ok [OF port_reach_ok(1) [OF demo_reach(2)] d, of demo_os] by blast
  with wepoll_reports_only_requested [OF demo_reach(2) d this] show ?thesis by blast
qed

text \<open>
  C27. Closing and deleting a port frees all of its sockets, deleted ones included, and all poll groups,
  and no assertion fails.
\<close>

theorem wepoll_delete_frees_all:
  assumes "port_reach os s" and "distinct roots" and "set roots = {i. \<exists>n. sock_tree s n = Some i}"
  shows "\<exists>s'. port_delete os roots (port_close s) = Inr s' \<and> socks s' = Map.empty \<and> groups s' = Map.empty"
  using port_delete_ok [of "port_close s" roots os] port_reach_ok(1) [OF assms(1)] assms(2,3)
  by (simp add: port_close_def)


theorem wepoll_delete_frees_all_witness:
  "\<exists>s'. port_delete demo_os [1] (port_close demo_port) = Inr s' \<and> socks s' = Map.empty \<and> groups s' = Map.empty"
  by (rule wepoll_delete_frees_all [OF demo_reach(1)]) (auto simp: demo_port_def)

lemma port__feed_events_length:
  "port__feed_events os cs s = Inr (Inr evs, s') \<Longrightarrow> length evs \<le> length cs"
proof (induction cs arbitrary: s evs s')
  case (Cons c cs)
  show ?case
  proof (cases c)
    case (Posted key)
    then obtain r1 s1 where p: "port__feed_events os cs s = Inr (r1, s1)" using Cons.prems by auto
    then obtain evs1 where "r1 = Inr evs1" using Cons.prems Posted by (cases r1) simp_all
    with Cons.IH [of s evs1 s1] p Posted Cons.prems show ?thesis by auto
  next
    case (Completed i status n afd)
    then obtain r1 s1 where f: "sock_feed_event os i status n afd s = Inr (r1, s1)" using Cons.prems by auto
    then obtain evo where r1: "r1 = Inr evo" using Cons.prems Completed by (cases r1) simp_all
    then obtain r2 s2 where g: "port__feed_events os cs s1 = Inr (r2, s2)" using Cons.prems Completed f by auto
    then obtain evs1 where "r2 = Inr evs1" using Cons.prems Completed f r1 by (cases r2) simp_all
    with Cons.IH [of s1 evs1 s2] Cons.prems Completed f g r1 show ?thesis by (cases evo) auto
  qed
qed simp

lemma port__poll_length:
  assumes "port__poll os w s = Inr (Inr evs, s')" and "\<And>cs. completions w = Inr cs \<Longrightarrow> length cs \<le> n"
  shows "length evs \<le> n"
proof -
  obtain r1 s1 where u: "port__update_events os s = Inr (r1, s1)"
    using assms(1) by (auto simp: port__poll_def)
  have r1: "r1 = Inr ()" using assms(1) u by (cases r1) (simp_all add: port__poll_def)
  obtain s2 where o: "ctl_others os (others w) (s1\<lparr>active_poll_count := Suc (active_poll_count s1)\<rparr>) = Inr s2"
    using assms(1) u r1 by (auto simp: port__poll_def)
  show ?thesis
  proof (cases "completions w")
    case (Inl e)
    with assms(1) u r1 o show ?thesis by (simp add: port__poll_def Let_def)
  next
    case (Inr cs)
    with assms(1) u r1 o have "length evs \<le> length cs"
      by (intro port__feed_events_length) (simp add: port__poll_def Let_def)
    with assms(2) [OF Inr] show ?thesis by simp
  qed
qed

lemma wait_loop_bounds:
  assumes "wait_loop os timeout due gqcs ts ws s = Inr (Some (ts', r, s'))"
    and "\<forall>w \<in> set ws. \<forall>cs. completions w = Inr cs \<longrightarrow> length cs \<le> n"
    and "\<forall>w \<in> set ws. due - tick_count w \<le> bound" and "gqcs \<le> bound" and "\<forall>t \<in> set ts. t \<le> bound"
  shows "(\<forall>evs. r = Inr evs \<longrightarrow> length evs \<le> n) \<and> (\<forall>t \<in> set ts'. t \<le> bound)"
  using assms
proof (induction ws arbitrary: gqcs ts s)
  case (Cons w ws)
  obtain r1 s1 where p: "port__poll os w s = Inr (r1, s1)" using Cons.prems(1) by auto
  have len: "length evs \<le> n" if "r1 = Inr evs" for evs
    using port__poll_length [of os w s evs s1 n] p that Cons.prems(2) by simp
  have m: "(due - tick_count w) mod 2 ^ 32 \<le> bound"
    using Cons.prems(3) by (meson list.set_intros(1) mod_less_eq_dividend order_trans)
  have ts: "\<forall>t \<in> set (ts @ [gqcs]). t \<le> bound" using Cons.prems(4,5) by simp
  note IH = Cons.IH [OF _ _ _ _ ts]
  show ?case
  proof (cases r1)
    case (Inl e)
    with Cons.prems(1) p ts show ?thesis by auto
  next
    case (Inr evs)
    have E: "wait_loop os timeout due gqcs ts (w # ws) s =
       (if evs \<noteq> [] then Inr (Some (ts @ [gqcs], Inr evs, s1))
        else if timeout < 0 then wait_loop os timeout due gqcs (ts @ [gqcs]) ws s1
        else if tick_count w \<ge> due then Inr (Some (ts @ [gqcs], Inr [], s1))
        else wait_loop os timeout due ((due - tick_count w) mod 2 ^ 32) (ts @ [gqcs]) ws s1)"
      using p Inr by simp
    consider "ts' = ts @ [gqcs]" "r = Inr evs" | "ts' = ts @ [gqcs]" "r = Inr []"
      | "wait_loop os timeout due gqcs (ts @ [gqcs]) ws s1 = Inr (Some (ts', r, s'))"
      | "wait_loop os timeout due ((due - tick_count w) mod 2 ^ 32) (ts @ [gqcs]) ws s1 = Inr (Some (ts', r, s'))"
      using Cons.prems(1) unfolding E by (auto simp del: wait_loop.simps split: if_splits)
    then show ?thesis
      using ts len [OF Inr] IH Cons.prems(2-4) m by cases auto
  qed
qed simp



section \<open>Event masks\<close>

lemma and_if_0: "(if c then x else 0) AND a = (if c then x AND a else (0 :: 32 word))"
  by simp

lemma afd_of_epoll:
  "sock__epoll_events_to_afd_events ev AND AFD_POLL_RECEIVE \<noteq> 0 \<longleftrightarrow> ev AND (EPOLLIN OR EPOLLRDNORM) \<noteq> 0"
  "sock__epoll_events_to_afd_events ev AND AFD_POLL_ACCEPT \<noteq> 0 \<longleftrightarrow> ev AND (EPOLLIN OR EPOLLRDNORM) \<noteq> 0"
  "sock__epoll_events_to_afd_events ev AND AFD_POLL_RECEIVE_EXPEDITED \<noteq> 0 \<longleftrightarrow> ev AND (EPOLLPRI OR EPOLLRDBAND) \<noteq> 0"
  "sock__epoll_events_to_afd_events ev AND AFD_POLL_SEND \<noteq> 0 \<longleftrightarrow> ev AND (EPOLLOUT OR EPOLLWRNORM OR EPOLLWRBAND) \<noteq> 0"
  "sock__epoll_events_to_afd_events ev AND AFD_POLL_DISCONNECT \<noteq> 0 \<longleftrightarrow> ev AND (EPOLLIN OR EPOLLRDNORM OR EPOLLRDHUP) \<noteq> 0"
  "sock__epoll_events_to_afd_events ev AND AFD_POLL_ABORT \<noteq> 0 \<longleftrightarrow> ev AND EPOLLHUP \<noteq> 0"
  "sock__epoll_events_to_afd_events ev AND AFD_POLL_CONNECT_FAIL \<noteq> 0 \<longleftrightarrow> ev AND EPOLLERR \<noteq> 0"
  by (simp_all add: sock__epoll_events_to_afd_events_def afd_flags bit.conj_disj_distrib2 and_if_0)

lemma epoll_of_afd:
  "sock__afd_events_to_epoll_events AFD_POLL_RECEIVE = EPOLLIN OR EPOLLRDNORM"
  "sock__afd_events_to_epoll_events AFD_POLL_ACCEPT = EPOLLIN OR EPOLLRDNORM"
  "sock__afd_events_to_epoll_events AFD_POLL_RECEIVE_EXPEDITED = EPOLLPRI OR EPOLLRDBAND"
  "sock__afd_events_to_epoll_events AFD_POLL_SEND = EPOLLOUT OR EPOLLWRNORM OR EPOLLWRBAND"
  "sock__afd_events_to_epoll_events AFD_POLL_DISCONNECT = EPOLLIN OR EPOLLRDNORM OR EPOLLRDHUP"
  "sock__afd_events_to_epoll_events AFD_POLL_ABORT = EPOLLHUP"
  "sock__afd_events_to_epoll_events AFD_POLL_CONNECT_FAIL = EPOLLIN OR EPOLLOUT OR EPOLLERR OR EPOLLRDNORM OR EPOLLWRNORM OR EPOLLRDHUP"
  by (simp_all add: sock__afd_events_to_epoll_events_def afd_flags)

text \<open>
  C30. The driver is asked for exactly the conditions that would be reported to the user: an AFD flag
  other than the closing of the socket is in the mask computed for the events of a user if and only
  if that flag maps to an event the user wants.
\<close>

theorem wepoll_masks_agree:
  assumes "a \<in> {AFD_POLL_RECEIVE, AFD_POLL_RECEIVE_EXPEDITED, AFD_POLL_SEND, AFD_POLL_DISCONNECT, AFD_POLL_ABORT,
      AFD_POLL_ACCEPT, AFD_POLL_CONNECT_FAIL}"
    and "user_events k = ev OR EPOLLERR OR EPOLLHUP"
  shows "sock__epoll_events_to_afd_events (user_events k) AND a \<noteq> 0 \<longleftrightarrow>
    sock__afd_events_to_epoll_events a AND user_events k \<noteq> 0"
proof (cases "a = AFD_POLL_CONNECT_FAIL")
  case True
  have "bit (user_events k AND EPOLLERR) 3"
    "bit ((EPOLLIN OR EPOLLOUT OR EPOLLERR OR EPOLLRDNORM OR EPOLLWRNORM OR EPOLLRDHUP) AND user_events k) 3"
    unfolding assms(2) by (simp_all add: epoll_flags bit_or_iff bit_and_iff)
  moreover have "w \<noteq> 0" if "bit w 3" for w :: "32 word" using that by auto
  ultimately show ?thesis unfolding True afd_of_epoll epoll_of_afd by blast
next
  case False
  with assms(1) show ?thesis
    by (elim insertE emptyE) (simp_all only: afd_of_epoll epoll_of_afd and.commute [of "user_events k"] simp_thms)
qed

theorem wepoll_masks_agree_witness:
  "sock__epoll_events_to_afd_events 25 AND AFD_POLL_RECEIVE \<noteq> 0 \<longleftrightarrow>
     sock__afd_events_to_epoll_events AFD_POLL_RECEIVE AND 25 \<noteq> 0"
  using wepoll_masks_agree [of AFD_POLL_RECEIVE demo_sock 1] by (simp add: demo_sock_def epoll_flags)

end
