(* ===== verification/Tcp_Connection.thy ===== *)
theory Tcp_Connection
  imports Message_Buffer Channel
begin

text \<open>
  \<^verbatim>\<open>netpoll/net/inner/tcp_connection_impl.cc\<close> and \<^verbatim>\<open>.h\<close>: an established connection.

  The write side is a list of nodes: message buffers, files and streams, in the order in which they
  were sent. Data goes to the socket directly while nothing is queued, and to the list once the
  socket is full; the writable event then drains the list. A send from another thread, or one
  behind such a send, is a task of the loop, counted by \<^verbatim>\<open>m_sendNum\<close>.

  The system is the record \<open>conn_os\<close>. Its calls are asked with the number of calls made so far, so
  that every sequence of answers is possible. \<open>wire\<close> collects the bytes the system has accepted. A
  stream callback is the list of the chunks it will deliver, an empty chunk or the end of the list
  standing for the result 0. User callbacks are recorded in \<open>conn_log\<close> in the order of their calls.
\<close>

section \<open>Data\<close>

datatype ConnStatus = Disconnected | Connecting | Connected | Disconnecting

record BufferNode =
  m_sendFd :: int
  m_offset :: nat
  fileBytesToSend :: int
  streamCallback :: "byte list list option"
  nDataWritten :: nat
  msgBuffer :: "MessageBuffer option"

definition isFile :: "BufferNode \<Rightarrow> bool" where
  "isFile n \<longleftrightarrow> streamCallback n \<noteq> None \<or> m_sendFd n \<ge> 0"

definition BufferNode_new :: BufferNode where
  "BufferNode_new =
     \<lparr>m_sendFd = -1, m_offset = 0, fileBytesToSend = 0, streamCallback = None, nDataWritten = 0,
      msgBuffer = None\<rparr>"

datatype conn_event =
    ConnectionCB ConnStatus
  | CloseCallback
  | RecvMsgCB
  | WriteCompleteCB
  | HighWaterMarkCB nat
  | CloseWrite
  | FileClosed int
  | StreamCleanup
  | ChannelRemoved
  | WheelInsert nat

text \<open>The destructor of a node.\<close>

definition BufferNode_delete :: "BufferNode \<Rightarrow> conn_event list" where
  "BufferNode_delete n =
     (if m_sendFd n \<ge> 0 then [FileClosed (m_sendFd n)] else []) @
     (if streamCallback n \<noteq> None then [StreamCleanup] else [])"

record conn_os =
  os_platform :: platform
  os_write :: "nat \<Rightarrow> nat \<Rightarrow> int + nat"
  os_sendfile :: "nat \<Rightarrow> nat \<Rightarrow> nat \<Rightarrow> int + nat"
  os_read :: "nat \<Rightarrow> nat \<Rightarrow> int + nat"
  os_now :: "nat \<Rightarrow> int"
  os_file :: "int \<Rightarrow> byte list"

text \<open>What \<^verbatim>\<open>queueInLoop\<close> is given: data captured by value, a shared buffer, or a node.\<close>

datatype conn_task =
    SendTask "byte list"
  | SendPtrTask nat
  | NodeTask BufferNode

record TcpConnection =
  m_events :: "32 word"
  m_status :: ConnStatus
  m_readBuffer :: MessageBuffer
  m_writeBufferList :: "BufferNode list"
  m_fileBuffer :: "byte list option"
  m_recvMsgCallback :: bool
  m_connectionCallback :: bool
  m_closeCallback :: bool
  m_writeCompleteCallback :: bool
  m_highWaterMark :: "nat option"
  m_sendNum :: nat
  m_bytesSent :: nat
  m_bytesReceived :: nat
  m_idleTimeout :: nat
  m_lastTimingWheelUpdateTime :: int
  m_kickoffEntry :: bool
  m_kickoffConn :: bool
  queued :: "conn_task list"
  wire :: "byte list"
  sys_calls :: nat
  conn_log :: "conn_event list"

definition EWOULDBLOCK :: int where "EWOULDBLOCK = 11"
definition EAGAIN :: int where "EAGAIN = 11"
definition EPIPE :: int where "EPIPE = 32"
definition ECONNRESET :: int where "ECONNRESET = 104"
definition ECONNABORTED :: int where "ECONNABORTED = 103"

definition TcpConnection_new :: TcpConnection where
  "TcpConnection_new =
     \<lparr>m_events = kNoneEvent, m_status = Connecting, m_readBuffer = MessageBuffer_new kBufferDefaultLength,
      m_writeBufferList = [], m_fileBuffer = None, m_recvMsgCallback = False, m_connectionCallback = False,
      m_closeCallback = False, m_writeCompleteCallback = False, m_highWaterMark = None, m_sendNum = 0,
      m_bytesSent = 0, m_bytesReceived = 0, m_idleTimeout = 0, m_lastTimingWheelUpdateTime = 0,
      m_kickoffEntry = False, m_kickoffConn = False, queued = [], wire = [], sys_calls = 0, conn_log = []\<rparr>"

definition logs :: "conn_event list \<Rightarrow> TcpConnection \<Rightarrow> TcpConnection" where
  "logs es c = c\<lparr>conn_log := conn_log c @ es\<rparr>"

definition conn_writing :: "TcpConnection \<Rightarrow> bool" where
  "conn_writing c \<longleftrightarrow> has_flag (m_events c) kWriteEvent"

definition start_writing :: "TcpConnection \<Rightarrow> TcpConnection" where
  "start_writing c = (if conn_writing c then c else c\<lparr>m_events := enableWriting (m_events c)\<rparr>)"

definition stop_writing :: "TcpConnection \<Rightarrow> TcpConnection" where
  "stop_writing c = (if conn_writing c then c\<lparr>m_events := disableWriting (m_events c)\<rparr> else c)"

section \<open>Idle timeout\<close>

definition enableKickingOff :: "nat \<Rightarrow> TcpConnection \<Rightarrow> TcpConnection result" where
  "enableKickingOff timeout c =
     assert_that (timeout > 0)
     (Inr (logs [WheelInsert timeout] (c\<lparr>m_kickoffEntry := True, m_kickoffConn := True\<rparr>)))"

definition keepAlive :: "TcpConnection \<Rightarrow> TcpConnection" where
  "keepAlive c =
     (let c1 = c\<lparr>m_idleTimeout := 0\<rparr> in if m_kickoffEntry c1 then c1\<lparr>m_kickoffConn := False\<rparr> else c1)"

definition extendLife :: "conn_os \<Rightarrow> TcpConnection \<Rightarrow> TcpConnection" where
  "extendLife os c =
     (if m_idleTimeout c > 0 then
        (let now = os_now os (sys_calls c); c1 = c\<lparr>sys_calls := Suc (sys_calls c)\<rparr> in
         if now < m_lastTimingWheelUpdateTime c + 1000000 then c1
         else (let c2 = c1\<lparr>m_lastTimingWheelUpdateTime := now\<rparr> in
               if m_kickoffEntry c2 then logs [WheelInsert (m_idleTimeout c2)] c2 else c2))
      else c)"

section \<open>Writing\<close>

definition WriteSocketError :: "conn_os \<Rightarrow> int \<Rightarrow> bool" where
  "WriteSocketError os e \<longleftrightarrow> (os_platform os = Windows \<longrightarrow> e \<noteq> 0) \<and> e \<noteq> EWOULDBLOCK"

definition writeInLoop :: "conn_os \<Rightarrow> byte list \<Rightarrow> TcpConnection \<Rightarrow> (int + nat) \<times> TcpConnection" where
  "writeInLoop os buffer c =
     (let c1 = c\<lparr>sys_calls := Suc (sys_calls c)\<rparr> in
      case os_write os (sys_calls c) (length buffer) of
        Inl e \<Rightarrow> (Inl e, c1)
      | Inr n \<Rightarrow> (Inr n, c1\<lparr>m_bytesSent := m_bytesSent c1 + n, wire := wire c1 @ take n buffer\<rparr>))"

text \<open>The part of \<^verbatim>\<open>sendInLoop\<close> for the data that the socket did not take.\<close>

definition sendInLoop_rest :: "byte list \<Rightarrow> TcpConnection \<Rightarrow> TcpConnection result" where
  "sendInLoop_rest rest c =
     (let l = m_writeBufferList c;
          l1 = (if l = [] \<or> isFile (last l)
                then l @ [BufferNode_new\<lparr>msgBuffer := Some (MessageBuffer_new kBufferDefaultLength)\<rparr>] else l) in
      case msgBuffer (last l1) of
        None \<Rightarrow> Inl UseAfterFree
      | Some b \<Rightarrow> and_then (pushBack b rest) (\<lambda>b1.
          let c1 = start_writing (c\<lparr>m_writeBufferList := butlast l1 @ [(last l1)\<lparr>msgBuffer := Some b1\<rparr>]\<rparr>) in
          case m_highWaterMark c1 of
            None \<Rightarrow> Inr c1
          | Some markLen \<Rightarrow>
              Inr (if readableBytes b1 > markLen then logs [HighWaterMarkCB (readableBytes b1)] c1 else c1)))"

definition sendInLoop :: "conn_os \<Rightarrow> byte list \<Rightarrow> TcpConnection \<Rightarrow> TcpConnection result" where
  "sendInLoop os buffer c =
     (if m_status c \<noteq> Connected then Inr c
      else
        (let c1 = extendLife os c in
         if \<not> conn_writing c1 \<and> m_writeBufferList c1 = [] then
           (case writeInLoop os buffer c1 of
              (Inl e, c2) \<Rightarrow>
                if WriteSocketError os e then Inr c2
                else if buffer \<noteq> [] then sendInLoop_rest buffer c2 else Inr c2
            | (Inr sendLen, c2) \<Rightarrow>
                if sendLen > length buffer then Inl OutOfBounds
                else if length buffer - sendLen > 0 then sendInLoop_rest (drop sendLen buffer) c2
                else Inr c2)
         else if buffer \<noteq> [] then sendInLoop_rest buffer c1 else Inr c1))"

definition set_front :: "BufferNode \<Rightarrow> TcpConnection \<Rightarrow> TcpConnection" where
  "set_front n c = c\<lparr>m_writeBufferList := n # tl (m_writeBufferList c)\<rparr>"

text \<open>The next chunk of a stream: the callback fills the buffer or ends the stream.\<close>

definition stream_fetch :: "BufferNode \<Rightarrow> BufferNode \<times> byte list" where
  "stream_fetch n =
     (case streamCallback n of
        Some (chunk # chunks) \<Rightarrow>
          (n\<lparr>streamCallback := Some chunks,
             fileBytesToSend := if chunk = [] then 0 else fileBytesToSend n\<rparr>, chunk)
      | _ \<Rightarrow> (n\<lparr>fileBytesToSend := 0\<rparr>, []))"

lemma stream_fetch_decreases:
  "(n1, b1) = stream_fetch n \<Longrightarrow> b1 \<noteq> [] \<Longrightarrow>
   length (the (streamCallback n1)) < length (the (streamCallback n))"
  by (auto simp: stream_fetch_def split: option.splits list.splits)

text \<open>
  The loop of a stream on the node \<open>n\<close>, with \<open>buf\<close> the unsent part of the file buffer. It returns the
  node, the buffer and whether it left through the end of the loop.
\<close>

function stream_loop :: "conn_os \<Rightarrow> BufferNode \<Rightarrow> byte list \<Rightarrow> TcpConnection \<Rightarrow>
    BufferNode \<times> byte list \<times> TcpConnection" where
  "stream_loop os n buf c =
     (if fileBytesToSend n > 0 \<or> buf \<noteq> [] then
        (case (if buf = [] then stream_fetch n else (n, buf)) of (n1, buf1) \<Rightarrow>
           if buf1 = [] then (n1, [], start_writing c)
           else (case writeInLoop os buf1 c of
               (Inr nWritten, c1) \<Rightarrow>
                 (let n2 = n1\<lparr>nDataWritten := nDataWritten n1 + nWritten\<rparr> in
                  if nWritten < length buf1 then (n2, drop nWritten buf1, start_writing c1)
                  else stream_loop os n2 [] c1)
             | (Inl e, c1) \<Rightarrow>
                 if WriteSocketError os e then (n1, buf1, c1) else (n1, buf1, start_writing c1)))
      else (n, [], start_writing c))"
  by pat_completeness auto
termination
  by (relation "measure (\<lambda>(os, n, buf, c). length (the (streamCallback n)) + (if buf = [] then 0 else 1))")
    (auto split: if_splits dest: stream_fetch_decreases)

declare stream_loop.simps [simp del]

text \<open>The loop that copies a file through the file buffer of size \<open>bufsize\<close>, used where there is no \<^verbatim>\<open>sendfile\<close>.\<close>

function file_loop :: "conn_os \<Rightarrow> nat \<Rightarrow> BufferNode \<Rightarrow> TcpConnection \<Rightarrow> BufferNode \<times> TcpConnection" where
  "file_loop os bufsize n c =
     (if fileBytesToSend n > 0 then
        (case os_read os (sys_calls c) (min bufsize (nat (fileBytesToSend n))) of
           Inl e \<Rightarrow> (n, stop_writing (c\<lparr>sys_calls := Suc (sys_calls c)\<rparr>))
         | Inr r \<Rightarrow>
             if r = 0 then (n, c\<lparr>sys_calls := Suc (sys_calls c)\<rparr>)
             else
               (let data = take r (drop (m_offset n) (os_file os (m_sendFd n)));
                    c1 = c\<lparr>sys_calls := Suc (sys_calls c),
                           m_fileBuffer := Some (overwrite 0 data (the (m_fileBuffer c)))\<rparr> in
                case writeInLoop os data c1 of
                  (Inr nSend, c2) \<Rightarrow>
                    (let n1 = n\<lparr>fileBytesToSend := fileBytesToSend n - int nSend, m_offset := m_offset n + nSend\<rparr> in
                     if nSend < r then (n1, start_writing c2) else file_loop os bufsize n1 c2)
                | (Inl e, c2) \<Rightarrow>
                    if WriteSocketError os e then (n, c2) else (n, start_writing c2)))
      else (n, start_writing c))"
  by pat_completeness auto
termination
  by (relation "measure (\<lambda>(os, bufsize, n, c). nat (fileBytesToSend n))") auto

declare file_loop.simps [simp del]

definition sendFileInLoop :: "conn_os \<Rightarrow> BufferNode \<Rightarrow> TcpConnection \<Rightarrow> TcpConnection result" where
  "sendFileInLoop os f c =
     assert_that (isFile f)
     (if os_platform os = Linux \<and> streamCallback f = None then
        (let c1 = c\<lparr>sys_calls := Suc (sys_calls c)\<rparr> in
         case os_sendfile os (sys_calls c) (m_offset f) (nat (fileBytesToSend f)) of
           Inl e \<Rightarrow> Inr (if e \<noteq> EAGAIN then stop_writing c1 else c1)
         | Inr bytesSent \<Rightarrow>
             let c2 = c1\<lparr>wire := wire c1 @ segment (m_offset f) bytesSent (os_file os (m_sendFd f))\<rparr> in
             if int bytesSent < fileBytesToSend f \<and> bytesSent = 0 then Inr c2
             else Inr (start_writing (set_front
               (f\<lparr>m_offset := m_offset f + bytesSent, fileBytesToSend := fileBytesToSend f - int bytesSent\<rparr>) c2)))
      else if streamCallback f \<noteq> None then
        (case stream_loop os f (case m_fileBuffer c of None \<Rightarrow> [] | Some b \<Rightarrow> b) c of
           (f1, buf, c1) \<Rightarrow> Inr (set_front f1 (c1\<lparr>m_fileBuffer := Some buf\<rparr>)))
      else
        (let c1 = (if m_fileBuffer c = None then c\<lparr>m_fileBuffer := Some (replicate (16 * 1024) 0)\<rparr> else c) in
         case file_loop os (length (the (m_fileBuffer c1))) f c1 of
           (f1, c2) \<Rightarrow> Inr (set_front f1 c2)))"

text \<open>The message at the front of the list is offered to the socket.\<close>

definition send_front :: "conn_os \<Rightarrow> BufferNode \<Rightarrow> TcpConnection \<Rightarrow> TcpConnection result" where
  "send_front os n c =
     (case msgBuffer n of
        None \<Rightarrow> Inl UseAfterFree
      | Some b \<Rightarrow> and_then (load b (peek b) (readableBytes b)) (\<lambda>bytes.
          case writeInLoop os bytes c of
            (Inr k, c1) \<Rightarrow> Inr (set_front (n\<lparr>msgBuffer := Some (retrieve b k)\<rparr>) c1)
          | (Inl e, c1) \<Rightarrow> Inr c1))"

definition sendNext :: "conn_os \<Rightarrow> TcpConnection \<Rightarrow> TcpConnection result" where
  "sendNext os c =
     (case m_writeBufferList c of
        [] \<Rightarrow> Inl AssertionFailed
      | n # ns \<Rightarrow> if \<not> isFile n then send_front os n c else sendFileInLoop os n c)"

text \<open>A finished node is removed: the end of the list stops the writing, otherwise the next node follows.\<close>

definition finish_front :: "conn_os \<Rightarrow> BufferNode \<Rightarrow> TcpConnection \<Rightarrow> TcpConnection result" where
  "finish_front os n c =
     (let c1 = c\<lparr>m_writeBufferList := tl (m_writeBufferList c)\<rparr> in
      and_then
        (if m_writeBufferList c1 = [] then
           (let c2 = c1\<lparr>m_events := disableWriting (m_events c1)\<rparr>;
                c3 = (if m_writeCompleteCallback c2 then logs [WriteCompleteCB] c2 else c2) in
            Inr (if m_status c3 = Disconnecting then logs [CloseWrite] c3 else c3))
         else sendNext os c1)
        (\<lambda>c4. Inr (logs (BufferNode_delete n) c4)))"

definition handleWrite :: "conn_os \<Rightarrow> TcpConnection \<Rightarrow> TcpConnection result" where
  "handleWrite os c0 =
     (let c = extendLife os c0 in
      if \<not> conn_writing c then Inr c
      else case m_writeBufferList c of
        [] \<Rightarrow> Inl AssertionFailed
      | n # ns \<Rightarrow>
          if isFile n then
            (if fileBytesToSend n \<le> 0 then finish_front os n c else sendFileInLoop os n c)
          else
            (case msgBuffer n of
               None \<Rightarrow> Inl UseAfterFree
             | Some b \<Rightarrow> if readableBytes b = 0 then finish_front os n c else send_front os n c))"

section \<open>Sending from the loop and from other threads\<close>

definition plusSendNumByGuard :: "TcpConnection \<Rightarrow> TcpConnection" where
  "plusSendNumByGuard c = c\<lparr>m_sendNum := m_sendNum c + 1\<rparr>"

definition minusSendNumByGuard :: "TcpConnection \<Rightarrow> TcpConnection" where
  "minusSendNumByGuard c = c\<lparr>m_sendNum := size_sub (m_sendNum c) 1\<rparr>"

definition conn_queueInLoop :: "conn_task \<Rightarrow> TcpConnection \<Rightarrow> TcpConnection" where
  "conn_queueInLoop t c = c\<lparr>queued := queued c @ [t]\<rparr>"

text \<open>A node is appended to the list and sent at once if it is alone there.\<close>

definition push_node :: "conn_os \<Rightarrow> BufferNode \<Rightarrow> TcpConnection \<Rightarrow> TcpConnection result" where
  "push_node os n c =
     (let c1 = c\<lparr>m_writeBufferList := m_writeBufferList c @ [n]\<rparr> in
      if length (m_writeBufferList c1) = 1 then sendFileInLoop os (hd (m_writeBufferList c1)) c1 else Inr c1)"

text \<open>\<open>bufs\<close> are the message buffers that are shared with the tasks.\<close>

definition run_task :: "conn_os \<Rightarrow> (nat \<Rightarrow> MessageBuffer) \<Rightarrow> conn_task \<Rightarrow> TcpConnection \<Rightarrow> TcpConnection result" where
  "run_task os bufs t c =
     and_then
       (case t of
          SendTask d \<Rightarrow> sendInLoop os d c
        | SendPtrTask p \<Rightarrow> sendInLoop os (contents (bufs p)) c
        | NodeTask n \<Rightarrow> push_node os n c)
       (\<lambda>c1. Inr (minusSendNumByGuard c1))"

definition send_StringView :: "conn_os \<Rightarrow> bool \<Rightarrow> byte list \<Rightarrow> TcpConnection \<Rightarrow> TcpConnection result" where
  "send_StringView os isInLoopThread msg c =
     (if isInLoopThread then
        (if m_sendNum c = 0 then sendInLoop os msg c
         else Inr (conn_queueInLoop (SendTask msg) (plusSendNumByGuard c)))
      else Inr (conn_queueInLoop (SendTask msg) (plusSendNumByGuard c)))"

definition send_MessageBufferPtr ::
  "conn_os \<Rightarrow> (nat \<Rightarrow> MessageBuffer) \<Rightarrow> bool \<Rightarrow> nat \<Rightarrow> TcpConnection \<Rightarrow> TcpConnection result" where
  "send_MessageBufferPtr os bufs isInLoopThread p c =
     (if isInLoopThread then
        (if m_sendNum c = 0 then sendInLoop os (contents (bufs p)) c
         else Inr (conn_queueInLoop (SendPtrTask p) (plusSendNumByGuard c)))
      else Inr (conn_queueInLoop (SendPtrTask p) (plusSendNumByGuard c)))"

definition send_MessageBuffer :: "conn_os \<Rightarrow> bool \<Rightarrow> MessageBuffer \<Rightarrow> TcpConnection \<Rightarrow> TcpConnection result" where
  "send_MessageBuffer os isInLoopThread buffer c =
     (if isInLoopThread then
        (if m_sendNum c = 0 then sendInLoop os (contents buffer) c
         else Inr (conn_queueInLoop (SendTask (contents buffer)) (plusSendNumByGuard c)))
      else Inr (conn_queueInLoop (SendTask (contents buffer)) (plusSendNumByGuard c)))"

definition send_MessageBufferMove :: "conn_os \<Rightarrow> bool \<Rightarrow> MessageBuffer \<Rightarrow> TcpConnection \<Rightarrow> TcpConnection result" where
  "send_MessageBufferMove os isInLoopThread buffer c =
     (if isInLoopThread then
        (if m_sendNum c = 0 then sendInLoop os (contents buffer) c
         else Inr (conn_queueInLoop (SendTask (contents buffer)) (plusSendNumByGuard c)))
      else Inr (conn_queueInLoop (SendTask (contents buffer)) (plusSendNumByGuard c)))"

definition send_node :: "conn_os \<Rightarrow> bool \<Rightarrow> BufferNode \<Rightarrow> TcpConnection \<Rightarrow> TcpConnection result" where
  "send_node os isInLoopThread n c =
     (if isInLoopThread then
        (if m_sendNum c = 0 then push_node os n c
         else Inr (conn_queueInLoop (NodeTask n) (plusSendNumByGuard c)))
      else Inr (conn_queueInLoop (NodeTask n) (plusSendNumByGuard c)))"

definition sendFile_fd :: "conn_os \<Rightarrow> bool \<Rightarrow> int \<Rightarrow> nat \<Rightarrow> nat \<Rightarrow> TcpConnection \<Rightarrow> TcpConnection result" where
  "sendFile_fd os isInLoopThread sfd offset len c =
     assert_that (len > 0) (assert_that (sfd \<ge> 0)
     (send_node os isInLoopThread
        (BufferNode_new\<lparr>m_sendFd := sfd, m_offset := offset, fileBytesToSend := int len\<rparr>) c))"

text \<open>\<open>opened\<close> is the result of \<^verbatim>\<open>open\<close> and \<open>st_size\<close> that of \<^verbatim>\<open>stat\<close>.\<close>

definition sendFile :: "conn_os \<Rightarrow> bool \<Rightarrow> int \<Rightarrow> nat option \<Rightarrow> nat \<Rightarrow> nat \<Rightarrow> TcpConnection \<Rightarrow> TcpConnection result" where
  "sendFile os isInLoopThread opened st_size offset len c =
     (if opened < 0 then Inr c
      else if len = 0 then
        (case st_size of
           None \<Rightarrow> Inr (logs [FileClosed opened] c)
         | Some len1 \<Rightarrow> sendFile_fd os isInLoopThread opened offset len1 c)
      else sendFile_fd os isInLoopThread opened offset len c)"

definition sendStream :: "conn_os \<Rightarrow> bool \<Rightarrow> byte list list \<Rightarrow> TcpConnection \<Rightarrow> TcpConnection result" where
  "sendStream os isInLoopThread callback c =
     send_node os isInLoopThread
       (BufferNode_new\<lparr>m_offset := 0, fileBytesToSend := 1, streamCallback := Some callback\<rparr>) c"

section \<open>Opening and closing\<close>

definition connectEstablished :: "TcpConnection \<Rightarrow> TcpConnection result" where
  "connectEstablished c =
     assert_that (m_status c = Connecting)
     (let c1 = c\<lparr>m_events := enableReading (m_events c), m_status := Connected\<rparr> in
      Inr (if m_connectionCallback c1 then logs [ConnectionCB Connected] c1 else c1))"

definition handleClose :: "TcpConnection \<Rightarrow> TcpConnection" where
  "handleClose c =
     (let c1 = c\<lparr>m_status := Disconnected, m_events := disableAll (m_events c)\<rparr>;
          c2 = (if m_connectionCallback c1 then logs [ConnectionCB Disconnected] c1 else c1) in
      if m_closeCallback c2 then logs [CloseCallback] c2 else c2)"

definition connectDestroyed :: "TcpConnection \<Rightarrow> TcpConnection result" where
  "connectDestroyed c =
     and_then
       (if m_status c = Connected then
          (let c1 = c\<lparr>m_status := Disconnected, m_events := disableAll (m_events c)\<rparr> in
           if m_connectionCallback c1 then Inr (logs [ConnectionCB Disconnected] c1) else Inl UseAfterFree)
        else Inr c)
       (\<lambda>c2. Inr (logs [ChannelRemoved] c2))"

definition shutdown :: "TcpConnection \<Rightarrow> TcpConnection" where
  "shutdown c =
     (if m_status c = Connected then
        (let c1 = c\<lparr>m_status := Disconnecting\<rparr> in
         if \<not> conn_writing c1 then logs [CloseWrite] c1 else c1)
      else c)"

definition forceClose :: "TcpConnection \<Rightarrow> TcpConnection" where
  "forceClose c =
     (if m_status c = Connected \<or> m_status c = Disconnecting
      then handleClose (c\<lparr>m_status := Disconnecting\<rparr>) else c)"

definition KickoffEntry_delete :: "TcpConnection \<Rightarrow> TcpConnection" where
  "KickoffEntry_delete c =
     (let c1 = c\<lparr>m_kickoffEntry := False\<rparr> in if m_kickoffConn c1 then forceClose c1 else c1)"

section \<open>Reading\<close>

definition handleRead_conn :: "conn_os \<Rightarrow> (nat list \<Rightarrow> int + byte list) \<Rightarrow> TcpConnection \<Rightarrow> TcpConnection result" where
  "handleRead_conn os readv c =
     and_then (readFd readv (m_readBuffer c)) (\<lambda>(n, err, b).
       let c1 = c\<lparr>m_readBuffer := b\<rparr> in
       if n < 0 then
         (let errno = (case err of Some e \<Rightarrow> e | None \<Rightarrow> 0) in
          if errno = EPIPE \<or> errno = ECONNRESET then Inr c1
          else if os_platform os = Windows \<and> errno = ECONNABORTED then Inr (handleClose c1)
          else if os_platform os \<noteq> Windows \<and> errno = EAGAIN then Inr c1
          else Inr (handleClose c1))
       else
         (let c2 = extendLife os (if n = 0 then handleClose c1 else c1) in
          if n > 0 then
            (let c3 = c2\<lparr>m_bytesReceived := m_bytesReceived c2 + nat n\<rparr> in
             Inr (if m_recvMsgCallback c3 then logs [RecvMsgCB] c3 else c3))
          else Inr c2))"

section \<open>Invariant and pending bytes\<close>

text \<open>
  \<open>pending\<close> are the bytes that have been sent by the user and not yet been accepted by the system: the
  unsent part of the file buffer, followed by what the nodes hold.
\<close>

definition node_bytes :: "conn_os \<Rightarrow> BufferNode \<Rightarrow> byte list" where
  "node_bytes os n =
     (case streamCallback n of
        Some chunks \<Rightarrow> if fileBytesToSend n > 0 then concat (takeWhile (\<lambda>x. x \<noteq> []) chunks) else []
      | None \<Rightarrow>
          if m_sendFd n \<ge> 0 then segment (m_offset n) (nat (fileBytesToSend n)) (os_file os (m_sendFd n))
          else (case msgBuffer n of None \<Rightarrow> [] | Some b \<Rightarrow> contents b))"

definition leftover :: "TcpConnection \<Rightarrow> byte list" where
  "leftover c = (case m_fileBuffer c of None \<Rightarrow> [] | Some b \<Rightarrow> b)"

definition pending :: "conn_os \<Rightarrow> TcpConnection \<Rightarrow> byte list" where
  "pending os c = leftover c @ concat (map (node_bytes os) (m_writeBufferList c))"

definition node_ok :: "conn_os \<Rightarrow> BufferNode \<Rightarrow> bool" where
  "node_ok os n \<longleftrightarrow>
     (case streamCallback n of
        Some chunks \<Rightarrow> True
      | None \<Rightarrow>
          if m_sendFd n \<ge> 0 then 0 \<le> fileBytesToSend n \<and>
            m_offset n + nat (fileBytesToSend n) \<le> length (os_file os (m_sendFd n))
          else (case msgBuffer n of None \<Rightarrow> False | Some b \<Rightarrow> buffer_ok b))"

definition conn_ok :: "conn_os \<Rightarrow> TcpConnection \<Rightarrow> bool" where
  "conn_ok os c \<longleftrightarrow>
     (\<forall>n \<in> set (m_writeBufferList c). node_ok os n) \<and>
     (leftover c \<noteq> [] \<longrightarrow> m_writeBufferList c \<noteq> [] \<and>
        streamCallback (hd (m_writeBufferList c)) \<noteq> None \<and> fileBytesToSend (hd (m_writeBufferList c)) > 0) \<and>
     (conn_writing c \<longrightarrow> m_writeBufferList c \<noteq> [])"

text \<open>The documented bounds of the calls: no more is accepted than was offered.\<close>

definition os_ok :: "conn_os \<Rightarrow> bool" where
  "os_ok os \<longleftrightarrow> os_platform os = Linux \<and> (\<forall>k len n. os_write os k len = Inr n \<longrightarrow> n \<le> len) \<and>
     (\<forall>k off cnt n. os_sendfile os k off cnt = Inr n \<longrightarrow> n \<le> cnt)"

text \<open>What the operations on the write side leave alone.\<close>

definition same_control :: "TcpConnection \<Rightarrow> TcpConnection \<Rightarrow> bool" where
  "same_control c c' \<longleftrightarrow> m_status c' = m_status c \<and> queued c' = queued c \<and> m_sendNum c' = m_sendNum c \<and>
     m_readBuffer c' = m_readBuffer c"

definition carries :: "conn_os \<Rightarrow> TcpConnection \<Rightarrow> byte list \<Rightarrow> TcpConnection \<Rightarrow> bool" where
  "carries os c added c' \<longleftrightarrow> conn_ok os c' \<and> same_control c c' \<and>
     wire c' @ pending os c' = wire c @ pending os c @ added"

lemma same_control_refl [simp]: "same_control c c"
  by (simp add: same_control_def)

lemma same_control_trans: "same_control c d \<Longrightarrow> same_control d e \<Longrightarrow> same_control c e"
  by (simp add: same_control_def)

named_theorems conn_simps \<open>fields after the elementary operations on a connection\<close>

lemma logs_simps [simp]:
  "m_events (logs es c) = m_events c" "m_status (logs es c) = m_status c" "wire (logs es c) = wire c"
  "m_writeBufferList (logs es c) = m_writeBufferList c" "m_fileBuffer (logs es c) = m_fileBuffer c"
  "queued (logs es c) = queued c" "m_sendNum (logs es c) = m_sendNum c" "m_readBuffer (logs es c) = m_readBuffer c"
  "conn_log (logs es c) = conn_log c @ es" "sys_calls (logs es c) = sys_calls c"
  "conn_writing (logs es c) = conn_writing c" "leftover (logs es c) = leftover c"
  "m_writeCompleteCallback (logs es c) = m_writeCompleteCallback c"
  by (simp_all add: logs_def conn_writing_def leftover_def)

lemma start_writing_simps [simp]:
  "m_status (start_writing c) = m_status c" "wire (start_writing c) = wire c"
  "m_writeBufferList (start_writing c) = m_writeBufferList c" "m_fileBuffer (start_writing c) = m_fileBuffer c"
  "queued (start_writing c) = queued c" "m_sendNum (start_writing c) = m_sendNum c"
  "m_readBuffer (start_writing c) = m_readBuffer c" "conn_log (start_writing c) = conn_log c"
  "conn_writing (start_writing c)" "leftover (start_writing c) = leftover c" "sys_calls (start_writing c) = sys_calls c"
  "m_highWaterMark (start_writing c) = m_highWaterMark c"
  by (simp_all add: start_writing_def conn_writing_def leftover_def)

lemma stop_writing_simps [simp]:
  "m_status (stop_writing c) = m_status c" "wire (stop_writing c) = wire c"
  "m_writeBufferList (stop_writing c) = m_writeBufferList c" "m_fileBuffer (stop_writing c) = m_fileBuffer c"
  "queued (stop_writing c) = queued c" "m_sendNum (stop_writing c) = m_sendNum c"
  "m_readBuffer (stop_writing c) = m_readBuffer c" "conn_log (stop_writing c) = conn_log c"
  "\<not> conn_writing (stop_writing c)" "leftover (stop_writing c) = leftover c"
  by (simp_all add: stop_writing_def conn_writing_def leftover_def)

lemma extendLife_simps [simp]:
  "m_events (extendLife os c) = m_events c" "m_status (extendLife os c) = m_status c" "wire (extendLife os c) = wire c"
  "m_writeBufferList (extendLife os c) = m_writeBufferList c" "m_fileBuffer (extendLife os c) = m_fileBuffer c"
  "queued (extendLife os c) = queued c" "m_sendNum (extendLife os c) = m_sendNum c"
  "m_readBuffer (extendLife os c) = m_readBuffer c"
  "conn_writing (extendLife os c) = conn_writing c" "leftover (extendLife os c) = leftover c"
  by (simp_all add: extendLife_def conn_writing_def leftover_def Let_def)

lemma carries_refl [simp]: "conn_ok os c \<Longrightarrow> carries os c [] c"
  by (simp add: carries_def)

lemma pending_cong:
  "m_writeBufferList c' = m_writeBufferList c \<Longrightarrow> leftover c' = leftover c \<Longrightarrow> pending os c' = pending os c"
  by (simp add: pending_def)

lemma extendLife_ok [simp]: "conn_ok os (extendLife os c) = conn_ok os c"
  "pending os (extendLife os c) = pending os c" "same_control c (extendLife os c)"
  by (simp_all add: conn_ok_def pending_def same_control_def)

lemma logs_ok [simp]: "conn_ok os (logs es c) = conn_ok os c" "pending os (logs es c) = pending os c"
  "carries os c added (logs es c') = carries os c added c'"
  by (simp_all add: conn_ok_def pending_def same_control_def carries_def)

lemma os_okD:
  assumes "os_ok os"
  shows "os_write os k len = Inr n \<Longrightarrow> n \<le> len" and "os_sendfile os k off cnt = Inr n \<Longrightarrow> n \<le> cnt"
    and "os_platform os = Linux"
  using assms by (auto simp: os_ok_def)

lemma writeInLoop_cases [case_names error written]:
  obtains e c1 where "writeInLoop os buf c = (Inl e, c1)" "c1 = c\<lparr>sys_calls := Suc (sys_calls c)\<rparr>"
      "os_write os (sys_calls c) (length buf) = Inl e"
  | n c1 where "writeInLoop os buf c = (Inr n, c1)" "os_write os (sys_calls c) (length buf) = Inr n"
      "c1 = c\<lparr>sys_calls := Suc (sys_calls c), m_bytesSent := m_bytesSent c + n, wire := wire c @ take n buf\<rparr>"
proof (cases "os_write os (sys_calls c) (length buf)")
  case (Inl e)
  then have "writeInLoop os buf c = (Inl e, c\<lparr>sys_calls := Suc (sys_calls c)\<rparr>)" by (simp add: writeInLoop_def)
  from that(1) [OF this refl Inl] show ?thesis .
next
  case (Inr n)
  then have "writeInLoop os buf c =
      (Inr n, c\<lparr>sys_calls := Suc (sys_calls c), m_bytesSent := m_bytesSent c + n, wire := wire c @ take n buf\<rparr>)"
    by (simp add: writeInLoop_def)
  from that(2) [OF this Inr refl] show ?thesis .
qed

section \<open>Nothing is lost or reordered\<close>

lemma pending_Cons: "pending os c = leftover c @ node_bytes os n @ concat (map (node_bytes os) ns)"
  if "m_writeBufferList c = n # ns"
  using that by (simp add: pending_def)

lemma new_node_bytes [simp]:
  "node_bytes os (BufferNode_new\<lparr>msgBuffer := Some b\<rparr>) = contents b"
  "node_ok os (BufferNode_new\<lparr>msgBuffer := Some b\<rparr>) = buffer_ok b"
  "msgBuffer (BufferNode_new\<lparr>msgBuffer := Some b\<rparr>) = Some b"
  "\<not> isFile (BufferNode_new\<lparr>msgBuffer := Some b\<rparr>)"
  by (simp_all add: node_bytes_def node_ok_def BufferNode_new_def isFile_def)

lemma message_node:
  assumes "node_ok os n" and "\<not> isFile n"
  obtains b where "msgBuffer n = Some b" "buffer_ok b" "node_bytes os n = contents b"
    "\<And>b'. node_bytes os (n\<lparr>msgBuffer := Some b'\<rparr>) = contents b'" "\<And>b'. node_ok os (n\<lparr>msgBuffer := Some b'\<rparr>) = buffer_ok b'"
    "\<And>b'. streamCallback (n\<lparr>msgBuffer := Some b'\<rparr>) = None" "streamCallback n = None"
proof -
  from assms(2) have st: "streamCallback n = None" "\<not> 0 \<le> m_sendFd n" by (simp_all add: isFile_def)
  with assms(1) obtain b where b: "msgBuffer n = Some b" "buffer_ok b"
    by (cases "msgBuffer n") (simp_all add: node_ok_def)
  show ?thesis by (rule that [of b]) (use b st in \<open>simp_all add: node_ok_def node_bytes_def\<close>)
qed

lemma sendInLoop_rest_ok:
  assumes ok: "conn_ok os c"
  shows "\<exists>c'. sendInLoop_rest rest c = Inr c' \<and> carries os c rest c' \<and> conn_writing c'"
proof -
  define l where "l = m_writeBufferList c"
  define l1 where "l1 = (if l = [] \<or> isFile (last l)
    then l @ [BufferNode_new\<lparr>msgBuffer := Some (MessageBuffer_new kBufferDefaultLength)\<rparr>] else l)"
  have ne: "l1 \<noteq> []" by (simp add: l1_def)
  have nodes: "\<forall>n \<in> set l1. node_ok os n"
    using ok by (auto simp: l1_def l_def conn_ok_def kBufferDefaultLength_def intro: buffer_ok_new)
  have bytes: "concat (map (node_bytes os) l1) = concat (map (node_bytes os) l)" by (simp add: l1_def)
  have "\<not> isFile (last l1)" by (simp add: l1_def)
  moreover have "node_ok os (last l1)" using nodes ne by simp
  ultimately obtain b where b: "msgBuffer (last l1) = Some b" "buffer_ok b" "node_bytes os (last l1) = contents b"
    "\<And>b'. node_bytes os ((last l1)\<lparr>msgBuffer := Some b'\<rparr>) = contents b'"
    "\<And>b'. node_ok os ((last l1)\<lparr>msgBuffer := Some b'\<rparr>) = buffer_ok b'"
    "\<And>b'. streamCallback ((last l1)\<lparr>msgBuffer := Some b'\<rparr>) = None" "streamCallback (last l1) = None"
    using message_node by blast
  obtain b1 where b1: "pushBack b rest = Inr b1" "buffer_ok b1" "contents b1 = contents b @ rest"
    using pushBack_spec [OF b(2), of rest] by blast
  define l2 where "l2 = butlast l1 @ [(last l1)\<lparr>msgBuffer := Some b1\<rparr>]"
  define c1 where "c1 = start_writing (c\<lparr>m_writeBufferList := l2\<rparr>)"
  have l1: "l1 = butlast l1 @ [last l1]" using ne by simp
  have "concat (map (node_bytes os) l1) = concat (map (node_bytes os) (butlast l1)) @ contents b"
    by (subst l1) (simp add: b(3))
  then have pend: "pending os c1 = pending os c @ rest"
    using bytes by (simp add: pending_def c1_def leftover_def l2_def b(4) b1(3) l_def)
  have "leftover c \<noteq> [] \<Longrightarrow> l \<noteq> [] \<and> streamCallback (hd l) \<noteq> None \<and> fileBytesToSend (hd l) > 0"
    using ok by (simp add: conn_ok_def l_def)
  moreover have "hd l2 = hd l" if "l \<noteq> []" "streamCallback (hd l) \<noteq> None"
    using that b(7) by (cases l) (auto simp: l2_def l1_def split: if_splits list.splits)
  moreover have "\<forall>n \<in> set l2. node_ok os n"
    using nodes b1(2) by (auto simp: l2_def b(5) dest: in_set_butlastD)
  ultimately have "conn_ok os c1" by (auto simp: conn_ok_def c1_def leftover_def l2_def)
  with pend have "carries os c rest c1" by (simp add: carries_def same_control_def c1_def)
  moreover have "conn_writing c1" by (simp add: c1_def)
  moreover have "sendInLoop_rest rest c = (case m_highWaterMark c1 of None \<Rightarrow> Inr c1 | Some markLen \<Rightarrow>
      Inr (if readableBytes b1 > markLen then logs [HighWaterMarkCB (readableBytes b1)] c1 else c1))"
    using b(1) b1(1) by (simp add: sendInLoop_rest_def Let_def l_def [symmetric] l1_def [symmetric]
        l2_def c1_def split: option.split)
  ultimately show ?thesis by (cases "m_highWaterMark c1") simp_all
qed

lemma carries_sys_calls [simp]:
  "conn_ok os (c\<lparr>sys_calls := k\<rparr>) = conn_ok os c" "pending os (c\<lparr>sys_calls := k\<rparr>) = pending os c"
  "same_control c (c\<lparr>sys_calls := k\<rparr>)" "conn_writing (c\<lparr>sys_calls := k\<rparr>) = conn_writing c"
  by (simp_all add: conn_ok_def pending_def leftover_def same_control_def conn_writing_def)

lemma carries_trans:
  assumes "carries os c xs d" and "carries os d ys e"
  shows "carries os c (xs @ ys) e"
proof -
  have "wire e @ pending os e = (wire d @ pending os d) @ ys" using assms(2) by (simp add: carries_def)
  also have "wire d @ pending os d = wire c @ pending os c @ xs" using assms(1) by (simp add: carries_def)
  finally show ?thesis using assms by (auto simp: carries_def intro: same_control_trans)
qed

text \<open>
  A message is accepted in full, or dropped in full when the socket reports an error other than being
  busy.
\<close>

definition fatal_write :: "conn_os \<Rightarrow> byte list \<Rightarrow> TcpConnection \<Rightarrow> bool" where
  "fatal_write os buffer c \<longleftrightarrow>
     (case os_write os (sys_calls (extendLife os c)) (length buffer) of Inl e \<Rightarrow> WriteSocketError os e | Inr n \<Rightarrow> False)"

lemma sendInLoop_ok:
  assumes "os_ok os" and "conn_ok os c" and "m_status c = Connected"
  shows "\<exists>c'. sendInLoop os buffer c = Inr c' \<and>
    (carries os c buffer c' \<or> fatal_write os buffer c \<and> m_writeBufferList c = [] \<and> carries os c [] c')"
proof -
  let ?c1 = "extendLife os c"
  have rest: "\<exists>c'. sendInLoop_rest rest d = Inr c' \<and> carries os d rest c'" if "conn_ok os d" for rest d
    using sendInLoop_rest_ok [OF that] by blast
  show ?thesis
  proof (cases "\<not> conn_writing ?c1 \<and> m_writeBufferList ?c1 = []")
    case direct: True
    show ?thesis
    proof (cases rule: writeInLoop_cases [where os = os and buf = buffer and c = "?c1"])
      case (error e c2)
      have c2: "conn_ok os c2" using assms(2) error(2) by simp
      have keep: "carries os c [] c2"
        using assms(2) error(2) by (simp add: carries_def same_control_def)
      show ?thesis
      proof (cases "WriteSocketError os e")
        case True
        with error keep assms(3) direct show ?thesis
          by (auto simp: sendInLoop_def fatal_write_def Let_def)
      next
        case False
        obtain c' where "sendInLoop_rest buffer c2 = Inr c'" "carries os c buffer c'"
          using rest [OF c2, of buffer] carries_trans [OF keep] by auto
        moreover have "carries os c buffer c2" if "buffer = []" using keep that by simp
        ultimately show ?thesis using False error(1) assms(3) direct by (auto simp: sendInLoop_def)
      qed
    next
      case (written n c2)
      note le = os_okD(1) [OF assms(1) written(2)]
      have c2: "conn_ok os c2"
        using assms(2) written(3) by (simp add: conn_ok_def conn_writing_def leftover_def)
      have keep: "carries os c (take n buffer) c2"
        using c2 written(3) direct assms(2)
        by (auto simp: carries_def same_control_def pending_def leftover_def conn_ok_def)
      show ?thesis
      proof (cases "n = length buffer")
        case True
        then show ?thesis using keep written(1) assms(3) direct by (auto simp: sendInLoop_def)
      next
        case False
        obtain c' where "sendInLoop_rest (drop n buffer) c2 = Inr c'" "carries os c buffer c'"
          using rest [OF c2, of "drop n buffer"] carries_trans [OF keep, of "drop n buffer"] by auto
        then show ?thesis using False le written(1) assms(3) direct by (auto simp: sendInLoop_def)
      qed
    qed
  next
    case False
    have c1: "carries os c [] ?c1" using assms(2) by (simp add: carries_def)
    obtain c' where "sendInLoop_rest buffer ?c1 = Inr c'" "carries os c buffer c'"
      using rest [of ?c1 buffer] assms(2) carries_trans [OF c1] by auto
    moreover have "carries os c buffer ?c1" if "buffer = []" using c1 that by simp
    ultimately show ?thesis using False assms(3) by (auto simp: sendInLoop_def Let_def)
  qed
qed

lemma stream_fetch_bytes:
  assumes "streamCallback n \<noteq> None" and "fileBytesToSend n > 0" and "stream_fetch n = (n1, b1)"
  shows "streamCallback n1 \<noteq> None" and "b1 @ node_bytes os n1 = node_bytes os n"
    and "b1 \<noteq> [] \<Longrightarrow> fileBytesToSend n1 > 0"
  using assms by (auto simp: stream_fetch_def node_bytes_def split: option.splits list.splits)

text \<open>What the loops of \<^verbatim>\<open>sendFileInLoop\<close> may change: the output, the interest in writing, the file buffer.\<close>

definition only_output :: "TcpConnection \<Rightarrow> TcpConnection \<Rightarrow> bool" where
  "only_output c c' \<longleftrightarrow> same_control c c' \<and> m_writeBufferList c' = m_writeBufferList c \<and>
     m_fileBuffer c' = m_fileBuffer c"

lemma only_outputI [simp]:
  "only_output c c" "only_output c (start_writing c') = only_output c c'" "only_output c (stop_writing c') = only_output c c'"
  by (simp_all add: only_output_def same_control_def)

lemma only_output_trans: "only_output c d \<Longrightarrow> only_output d e \<Longrightarrow> only_output c e"
  by (auto simp: only_output_def intro: same_control_trans)

lemma take_drop_append [simp]: "take k b @ drop k b @ xs = b @ xs"
  by (metis append_assoc append_take_drop_id)

lemma node_bytes_written [simp]: "node_bytes os (n\<lparr>nDataWritten := k\<rparr>) = node_bytes os n"
  by (simp add: node_bytes_def split: option.split)

lemma stream_loop_ok:
  assumes "os_ok os" and "streamCallback n \<noteq> None" and "buf \<noteq> [] \<Longrightarrow> fileBytesToSend n > 0"
    and "stream_loop os n buf c = (n', buf', c')"
  shows "streamCallback n' \<noteq> None \<and> (buf' \<noteq> [] \<longrightarrow> fileBytesToSend n' > 0) \<and> only_output c c' \<and>
    wire c' @ buf' @ node_bytes os n' = wire c @ buf @ node_bytes os n"
  using assms
proof (induction os n buf c rule: stream_loop.induct)
  case (1 os n buf c)
  note IH = "1.IH" and os = "1.prems"(1) and st = "1.prems"(2) and pos = "1.prems"(3) and eq = "1.prems"(4)
  show ?case
  proof (cases "fileBytesToSend n > 0 \<or> buf \<noteq> []")
    case True
    with pos have fb: "fileBytesToSend n > 0" by blast
    obtain n1 b1 where f: "(n1, b1) = (if buf = [] then stream_fetch n else (n, buf))" by (metis surj_pair)
    have st1: "streamCallback n1 \<noteq> None" and bytes: "b1 @ node_bytes os n1 = buf @ node_bytes os n"
      and fb1: "b1 \<noteq> [] \<Longrightarrow> fileBytesToSend n1 > 0"
      using f st fb stream_fetch_bytes(1,3) [OF st fb, of n1 b1] stream_fetch_bytes(2) [OF st fb, of n1 b1 os]
      by (auto split: if_splits)
    show ?thesis
    proof (cases "b1 = []")
      case b1: True
      with eq f True st1 bytes show ?thesis
        by (subst (asm) stream_loop.simps) (auto split: prod.splits)
    next
      case b1: False
      show ?thesis
      proof (cases rule: writeInLoop_cases [where os = os and buf = b1 and c = c])
        case (error e c1)
        then have "only_output c c1" "wire c1 = wire c" by (simp_all add: only_output_def same_control_def)
        with eq f True b1 error(1) st1 bytes fb1 show ?thesis
          by (subst (asm) stream_loop.simps) (auto split: prod.splits if_splits)
      next
        case (written k c1)
        note k = os_okD(1) [OF os written(2)]
        have c1: "only_output c c1" "wire c1 = wire c @ take k b1"
          using written(3) by (simp_all add: only_output_def same_control_def)
        define n2 where "n2 = n1\<lparr>nDataWritten := nDataWritten n1 + k\<rparr>"
        have n2: "streamCallback n2 \<noteq> None" "node_bytes os n2 = node_bytes os n1"
          "fileBytesToSend n2 = fileBytesToSend n1" using st1 by (simp_all add: n2_def)
        show ?thesis
        proof (cases "k < length b1")
          case less: True
          have "n' = n2" "buf' = drop k b1" "c' = start_writing c1"
            using eq True b1 written(1) less unfolding stream_loop.simps [of os n buf] f [symmetric]
            by (simp_all add: n2_def Let_def)
          with n2 c1 fb1 [OF b1] bytes show ?thesis by simp
        next
          case all: False
          have "stream_loop os n2 [] c1 = (n', buf', c')"
            using eq True b1 written(1) all unfolding stream_loop.simps [of os n buf] f [symmetric]
            by (simp add: n2_def Let_def)
          from IH [OF True f b1 written(1) [symmetric] refl n2_def all os n2(1) _ this]
          show ?thesis using c1 bytes all k n2(2) by (auto intro: only_output_trans)
        qed
      qed
    qed
  next
    case False
    with eq st show ?thesis by (subst (asm) stream_loop.simps) auto
  qed
qed

end
