(* ===== verification/Tcp_Connection_Props.thy ===== *)
theory Tcp_Connection_Props
  imports Tcp_Connection "HOL-Library.Sublist"
begin

text \<open>
  Properties of connections: what was sent arrives in order and in whole messages, also when the
  loop and other threads send at the same time; the list drains; closing.
\<close>

section \<open>The write side\<close>

lemma set_front_simps [simp]:
  "m_writeBufferList (set_front n c) = n # tl (m_writeBufferList c)" "wire (set_front n c) = wire c"
  "same_control d (set_front n c) = same_control d c" "leftover (set_front n c) = leftover c"
  "conn_writing (set_front n c) = conn_writing c" "m_fileBuffer (set_front n c) = m_fileBuffer c"
  by (simp_all add: set_front_def same_control_def leftover_def conn_writing_def)

lemma same_control_writing [simp]:
  "same_control d (start_writing c) = same_control d c" "same_control d (stop_writing c) = same_control d c"
  by (simp_all add: same_control_def)

lemma conn_okD:
  assumes "conn_ok os c" and "m_writeBufferList c = n # ns"
  shows "node_ok os n" and "\<forall>m \<in> set ns. node_ok os m"
    and "leftover c \<noteq> [] \<Longrightarrow> streamCallback n \<noteq> None \<and> fileBytesToSend n > 0"
  using assms by (auto simp: conn_ok_def)

lemma leftover_Nil:
  "conn_ok os c \<Longrightarrow> m_writeBufferList c = n # ns \<Longrightarrow> streamCallback n = None \<or> fileBytesToSend n \<le> 0 \<Longrightarrow> leftover c = []"
  using conn_okD(3) by fastforce

text \<open>Replacing the node at the front by what is left of it.\<close>

lemma carries_front:
  assumes "conn_ok os c" and "m_writeBufferList c = n # ns" and "same_control c c'" and "m_writeBufferList c' = n' # ns"
    and "node_ok os n'" and "leftover c' \<noteq> [] \<Longrightarrow> streamCallback n' \<noteq> None \<and> fileBytesToSend n' > 0"
    and "wire c' @ leftover c' @ node_bytes os n' = wire c @ leftover c @ node_bytes os n"
  shows "carries os c [] c'"
proof -
  have "conn_ok os c'" using assms(4-6) conn_okD(2) [OF assms(1,2)] by (simp add: conn_ok_def)
  moreover have "wire c' @ pending os c' = (wire c' @ leftover c' @ node_bytes os n') @ concat (map (node_bytes os) ns)"
    using pending_Cons [OF assms(4)] by simp
  moreover have "wire c @ pending os c = (wire c @ leftover c @ node_bytes os n) @ concat (map (node_bytes os) ns)"
    using pending_Cons [OF assms(2)] by simp
  ultimately show ?thesis using assms(3,7) by (simp add: carries_def)
qed

lemma send_front_ok:
  assumes os: "os_ok os" and ok: "conn_ok os c" and l: "m_writeBufferList c = n # ns" and m: "\<not> isFile n"
  shows "\<exists>c'. send_front os n c = Inr c' \<and> carries os c [] c'"
proof -
  obtain b where b: "msgBuffer n = Some b" "buffer_ok b" "node_bytes os n = contents b"
    "\<And>b'. node_bytes os (n\<lparr>msgBuffer := Some b'\<rparr>) = contents b'" "\<And>b'. node_ok os (n\<lparr>msgBuffer := Some b'\<rparr>) = buffer_ok b'"
    "\<And>b'. streamCallback (n\<lparr>msgBuffer := Some b'\<rparr>) = None" "streamCallback n = None"
    using message_node [OF conn_okD(1) [OF ok l] m] by blast
  have left: "leftover c = []" by (rule leftover_Nil [OF ok l]) (simp add: b(7))
  show ?thesis
  proof (cases rule: writeInLoop_cases [where os = os and buf = "contents b" and c = c])
    case (error e c1)
    then have "carries os c [] c1" using ok by (simp add: carries_def)
    with error(1) b(1,2) show ?thesis by (simp add: send_front_def load_all)
  next
    case (written k c1)
    note r = retrieve_ok [OF b(2), of k]
    have c1: "wire c1 = wire c @ take k (contents b)" "leftover c1 = []" "same_control c c1" "m_writeBufferList c1 = n # ns"
      using written(3) left l by (simp_all add: leftover_def same_control_def)
    have n': "node_bytes os (n\<lparr>msgBuffer := Some (retrieve b k)\<rparr>) = drop k (contents b)"
      "node_ok os (n\<lparr>msgBuffer := Some (retrieve b k)\<rparr>)" using r b(4,5) by auto
    have "carries os c [] (set_front (n\<lparr>msgBuffer := Some (retrieve b k)\<rparr>) c1)"
      by (rule carries_front [OF ok l, where n' = "n\<lparr>msgBuffer := Some (retrieve b k)\<rparr>"]) (use c1 n' left b(3) in simp_all)
    with written(1) b(1,2) show ?thesis by (simp add: send_front_def load_all)
  qed
qed

lemma file_node_bytes:
  assumes "node_ok os f" and "streamCallback f = None" and "0 \<le> m_sendFd f" and "k \<le> nat (fileBytesToSend f)"
  defines "f' \<equiv> f\<lparr>m_offset := m_offset f + k, fileBytesToSend := fileBytesToSend f - int k\<rparr>"
  shows "node_ok os f'" and "segment (m_offset f) k (os_file os (m_sendFd f)) @ node_bytes os f' = node_bytes os f"
proof -
  have fb: "0 \<le> fileBytesToSend f" "m_offset f + nat (fileBytesToSend f) \<le> length (os_file os (m_sendFd f))"
    using assms(1-3) by (simp_all add: node_ok_def)
  have "nat (fileBytesToSend f) = k + nat (fileBytesToSend f - int k)" using assms(4) fb(1) by simp
  then show "segment (m_offset f) k (os_file os (m_sendFd f)) @ node_bytes os f' = node_bytes os f"
    using assms(2,3) by (simp add: f'_def node_bytes_def segment_split [symmetric])
  show "node_ok os f'" using fb assms(2-4) by (simp add: f'_def node_ok_def le_nat_iff nat_diff_distrib)
qed

lemma sendFileInLoop_ok:
  assumes os: "os_ok os" and ok: "conn_ok os c" and l: "m_writeBufferList c = f # ns" and f: "isFile f"
  shows "\<exists>c'. sendFileInLoop os f c = Inr c' \<and> carries os c [] c'"
proof (cases "streamCallback f")
  case None
  note linux = os_okD(3) [OF os]
  have fd: "0 \<le> m_sendFd f" using f None by (simp add: isFile_def)
  have left: "leftover c = []" by (rule leftover_Nil [OF ok l]) (simp add: None)
  let ?c1 = "c\<lparr>sys_calls := Suc (sys_calls c)\<rparr>"
  show ?thesis
  proof (cases "os_sendfile os (sys_calls c) (m_offset f) (nat (fileBytesToSend f))")
    case (Inl e)
    have "carries os c [] (stop_writing ?c1)"
      by (rule carries_front [OF ok l]) (use l left conn_okD(1) [OF ok l] in \<open>simp_all add: leftover_def same_control_def\<close>)
    moreover have "carries os c [] ?c1" using ok by (simp add: carries_def)
    ultimately show ?thesis using Inl None f linux by (simp add: sendFileInLoop_def Let_def)
  next
    case (Inr k)
    note k = os_okD(2) [OF os Inr]
    note fb = file_node_bytes [OF conn_okD(1) [OF ok l] None fd k]
    let ?f = "f\<lparr>m_offset := m_offset f + k, fileBytesToSend := fileBytesToSend f - int k\<rparr>"
    let ?c2 = "?c1\<lparr>wire := wire c @ segment (m_offset f) k (os_file os (m_sendFd f))\<rparr>"
    have sent: "carries os c [] (start_writing (set_front ?f ?c2))"
      by (rule carries_front [OF ok l])
        (use l left fb in \<open>simp_all add: same_control_def leftover_def set_front_def\<close>)
    have zero: "carries os c [] ?c2" if "k = 0"
      by (rule carries_front [OF ok l])
        (use l left that conn_okD(1) [OF ok l] in \<open>simp_all add: same_control_def leftover_def\<close>)
    from sent zero Inr None f linux show ?thesis
      by (auto simp: sendFileInLoop_def Let_def)
  qed
next
  case (Some chunks)
  obtain f1 buf c1 where s: "stream_loop os f (leftover c) c = (f1, buf, c1)" by (metis surj_pair)
  have "streamCallback f \<noteq> None" using Some by simp
  from stream_loop_ok [OF os this _ s] conn_okD(3) [OF ok l]
  have r: "streamCallback f1 \<noteq> None" "buf \<noteq> [] \<longrightarrow> fileBytesToSend f1 > 0" "only_output c c1"
    "wire c1 @ buf @ node_bytes os f1 = wire c @ leftover c @ node_bytes os f" by auto
  let ?c' = "set_front f1 (c1\<lparr>m_fileBuffer := Some buf\<rparr>)"
  have "node_ok os f1" using r(1) by (auto simp: node_ok_def)
  then have "carries os c [] ?c'"
    by (intro carries_front [OF ok l])
      (use l r in \<open>simp_all add: same_control_def leftover_def only_output_def set_front_def\<close>)
  with s Some f show ?thesis by (simp add: sendFileInLoop_def leftover_def)
qed

lemma sendNext_ok:
  assumes "os_ok os" and "conn_ok os c" and "m_writeBufferList c \<noteq> []"
  shows "\<exists>c'. sendNext os c = Inr c' \<and> carries os c [] c'"
  using assms send_front_ok sendFileInLoop_ok
  by (cases "m_writeBufferList c") (auto simp: sendNext_def)

text \<open>A node without bytes is removed.\<close>

lemma finish_front_ok:
  assumes os: "os_ok os" and ok: "conn_ok os c" and l: "m_writeBufferList c = n # ns"
    and "node_bytes os n = []" and left: "leftover c = []"
  shows "\<exists>c'. finish_front os n c = Inr c' \<and> carries os c [] c'"
proof -
  let ?c1 = "c\<lparr>m_writeBufferList := ns\<rparr>"
  have wp: "wire ?c1 @ pending os ?c1 = wire c @ pending os c"
    using l assms(4) by (simp add: pending_def leftover_def)
  show ?thesis
  proof (cases ns)
    case Nil
    let ?c2 = "?c1\<lparr>m_events := disableWriting (m_events c)\<rparr>"
    have "carries os c [] ?c2"
      using wp left Nil by (simp add: carries_def conn_ok_def same_control_def pending_def leftover_def conn_writing_def)
    then have "\<exists>c'. finish_front os n c = Inr c' \<and> (\<exists>es. c' = logs es ?c2)"
      using Nil l by (auto simp: finish_front_def Let_def logs_def)
    with \<open>carries os c [] ?c2\<close> show ?thesis by auto
  next
    case Cons
    have "conn_ok os ?c1"
      using left Cons conn_okD(2) [OF ok l] by (simp add: conn_ok_def leftover_def)
    then have c1: "carries os c [] ?c1" using wp by (simp add: carries_def same_control_def)
    obtain c' where "sendNext os ?c1 = Inr c'" "carries os ?c1 [] c'"
      using sendNext_ok [OF os \<open>conn_ok os ?c1\<close>] Cons by auto
    with carries_trans [OF c1] l Cons show ?thesis by (auto simp: finish_front_def Let_def)
  qed
qed

lemma handleWrite_ok:
  assumes os: "os_ok os" and ok: "conn_ok os c"
  shows "\<exists>c'. handleWrite os c = Inr c' \<and> carries os c [] c'"
proof -
  let ?c = "extendLife os c"
  have ok1: "conn_ok os ?c" and c1: "carries os c [] ?c" using ok by (simp_all add: carries_def)
  have "\<exists>c'. handleWrite os c = Inr c' \<and> carries os ?c [] c'"
  proof (cases "conn_writing ?c")
    case True
    then obtain n ns where l: "m_writeBufferList ?c = n # ns" using ok1 by (cases "m_writeBufferList ?c") (auto simp: conn_ok_def)
    show ?thesis
    proof (cases "isFile n")
      case f: True
      have "node_bytes os n = [] \<and> leftover ?c = []" if "fileBytesToSend n \<le> 0"
        using leftover_Nil [OF ok1 l] that f by (auto simp: node_bytes_def isFile_def split: option.split)
      with sendFileInLoop_ok [OF os ok1 l f] finish_front_ok [OF os ok1 l] True f l show ?thesis
        by (auto simp: handleWrite_def Let_def)
    next
      case False
      obtain b where b: "msgBuffer n = Some b" "buffer_ok b" "node_bytes os n = contents b" "streamCallback n = None"
        using message_node [OF conn_okD(1) [OF ok1 l] False] by metis
      have "node_bytes os n = []" if "readableBytes b = 0" using that b(2,3) length_contents [of b] by simp
      moreover have "leftover ?c = []" by (rule leftover_Nil [OF ok1 l]) (simp add: b(4))
      ultimately show ?thesis
        using send_front_ok [OF os ok1 l False] finish_front_ok [OF os ok1 l] True False l b(1)
        by (auto simp: handleWrite_def Let_def)
    qed
  qed (use ok1 in \<open>simp add: handleWrite_def Let_def\<close>)
  with carries_trans [OF c1] show ?thesis by auto
qed

text \<open>A file or stream is accepted also before the connection is established and after it is closed.\<close>

lemma push_node_ok:
  assumes os: "os_ok os" and ok: "conn_ok os c" and n: "node_ok os n" "isFile n"
  shows "\<exists>c'. push_node os n c = Inr c' \<and> carries os c (node_bytes os n) c'"
proof -
  let ?c1 = "c\<lparr>m_writeBufferList := m_writeBufferList c @ [n]\<rparr>"
  have c1: "carries os c (node_bytes os n) ?c1"
    using ok n by (auto simp: carries_def conn_ok_def same_control_def pending_def leftover_def conn_writing_def)
  then have ok1: "conn_ok os ?c1" by (simp add: carries_def)
  show ?thesis
  proof (cases "m_writeBufferList c")
    case Nil
    obtain c' where "sendFileInLoop os n ?c1 = Inr c'" "carries os ?c1 [] c'"
      using sendFileInLoop_ok [OF os ok1, of n "[]"] Nil n(2) by auto
    with carries_trans [OF c1, of "[]" c'] Nil show ?thesis by (simp add: push_node_def)
  qed (use c1 in \<open>simp add: push_node_def\<close>)
qed

section \<open>Senders on several threads\<close>

text \<open>
  The loop and other threads share a connection. Another thread first counts its send and then
  queues the task; the loop may do anything in between. \<open>accepted\<close> lists what was sent in the order in
  which the sends took effect.
\<close>

record conn_sys =
  conn :: TcpConnection
  in_flight :: "conn_task list"
  accepted :: "byte list list"

definition task_bytes :: "conn_os \<Rightarrow> (nat \<Rightarrow> MessageBuffer) \<Rightarrow> conn_task \<Rightarrow> byte list" where
  "task_bytes os bufs t =
     (case t of SendTask d \<Rightarrow> d | SendPtrTask p \<Rightarrow> contents (bufs p) | NodeTask n \<Rightarrow> node_bytes os n)"

definition task_ok :: "conn_os \<Rightarrow> conn_task \<Rightarrow> bool" where
  "task_ok os t \<longleftrightarrow> (case t of NodeTask n \<Rightarrow> node_ok os n \<and> isFile n | _ \<Rightarrow> True)"

definition send_in_loop :: "conn_os \<Rightarrow> (nat \<Rightarrow> MessageBuffer) \<Rightarrow> bool \<Rightarrow> conn_task \<Rightarrow> TcpConnection \<Rightarrow> TcpConnection result" where
  "send_in_loop os bufs isInLoopThread t c =
     (case t of
        SendTask d \<Rightarrow> send_StringView os isInLoopThread d c
      | SendPtrTask p \<Rightarrow> send_MessageBufferPtr os bufs isInLoopThread p c
      | NodeTask n \<Rightarrow> send_node os isInLoopThread n c)"

definition fresh_conn :: "TcpConnection \<Rightarrow> bool" where
  "fresh_conn c \<longleftrightarrow> m_writeBufferList c = [] \<and> m_fileBuffer c = None \<and> \<not> conn_writing c \<and> queued c = [] \<and>
     m_sendNum c = 0 \<and> wire c = [] \<and> m_idleTimeout c = 0"

inductive conn_reach :: "conn_os \<Rightarrow> (nat \<Rightarrow> MessageBuffer) \<Rightarrow> conn_sys \<Rightarrow> bool" for os bufs where
  start: "fresh_conn c \<Longrightarrow> conn_reach os bufs \<lparr>conn = c, in_flight = [], accepted = []\<rparr>"
| loop_send: "conn_reach os bufs s \<Longrightarrow> task_ok os t \<Longrightarrow> send_in_loop os bufs True t (conn s) = Inr c \<Longrightarrow>
    conn_reach os bufs (s\<lparr>conn := c, accepted := accepted s @ [task_bytes os bufs t]\<rparr>)"
| other_count: "conn_reach os bufs s \<Longrightarrow> task_ok os t \<Longrightarrow>
    conn_reach os bufs (s\<lparr>conn := plusSendNumByGuard (conn s), in_flight := t # in_flight s\<rparr>)"
| other_queue: "conn_reach os bufs s \<Longrightarrow> t \<in> set (in_flight s) \<Longrightarrow>
    conn_reach os bufs (s\<lparr>conn := conn_queueInLoop t (conn s), in_flight := remove1 t (in_flight s),
      accepted := accepted s @ [task_bytes os bufs t]\<rparr>)"
| run: "conn_reach os bufs s \<Longrightarrow> queued (conn s) = t # ts \<Longrightarrow>
    run_task os bufs t ((conn s)\<lparr>queued := ts\<rparr>) = Inr c \<Longrightarrow> conn_reach os bufs (s\<lparr>conn := c\<rparr>)"
| writable: "conn_reach os bufs s \<Longrightarrow> handleWrite os (conn s) = Inr c \<Longrightarrow> conn_reach os bufs (s\<lparr>conn := c\<rparr>)"
| readable: "conn_reach os bufs s \<Longrightarrow> handleRead_conn os readv (conn s) = Inr c \<Longrightarrow> conn_reach os bufs (s\<lparr>conn := c\<rparr>)"
| establish: "conn_reach os bufs s \<Longrightarrow> connectEstablished (conn s) = Inr c \<Longrightarrow> conn_reach os bufs (s\<lparr>conn := c\<rparr>)"
| close: "conn_reach os bufs s \<Longrightarrow> c \<in> {shutdown (conn s), forceClose (conn s), handleClose (conn s),
    keepAlive (conn s), KickoffEntry_delete (conn s)} \<Longrightarrow> conn_reach os bufs (s\<lparr>conn := c\<rparr>)"
| kicking: "conn_reach os bufs s \<Longrightarrow> enableKickingOff timeout (conn s) = Inr c \<Longrightarrow> conn_reach os bufs (s\<lparr>conn := c\<rparr>)"
| destroy: "conn_reach os bufs s \<Longrightarrow> connectDestroyed (conn s) = Inr c \<Longrightarrow> conn_reach os bufs (s\<lparr>conn := c\<rparr>)"

text \<open>A send of another thread without interference is its two steps in a row.\<close>

lemma other_thread_send:
  "send_in_loop os bufs False t c = Inr (conn_queueInLoop t (plusSendNumByGuard c))"
  by (simp add: send_in_loop_def send_StringView_def send_MessageBufferPtr_def send_node_def split: conn_task.split)

text \<open>The steps that do not touch the write side.\<close>

definition keeps :: "conn_os \<Rightarrow> TcpConnection \<Rightarrow> TcpConnection \<Rightarrow> bool" where
  "keeps os c c' \<longleftrightarrow> conn_ok os c' \<and> wire c' = wire c \<and> pending os c' = pending os c \<and> queued c' = queued c \<and>
     m_sendNum c' = m_sendNum c"

lemma keepsI:
  assumes "conn_ok os c" and "m_writeBufferList c' = m_writeBufferList c" and "m_fileBuffer c' = m_fileBuffer c"
    and "conn_writing c' \<Longrightarrow> conn_writing c" and "wire c' = wire c" "queued c' = queued c" "m_sendNum c' = m_sendNum c"
  shows "keeps os c c'"
  using assms by (auto simp: keeps_def conn_ok_def pending_def leftover_def)

lemma keeps_trans: "keeps os c d \<Longrightarrow> keeps os d e \<Longrightarrow> keeps os c e"
  by (simp add: keeps_def)

lemma handleClose_simps [simp]:
  "m_writeBufferList (handleClose c) = m_writeBufferList c" "m_fileBuffer (handleClose c) = m_fileBuffer c"
  "\<not> conn_writing (handleClose c)" "wire (handleClose c) = wire c" "queued (handleClose c) = queued c"
  "m_sendNum (handleClose c) = m_sendNum c" "m_status (handleClose c) = Disconnected"
  "m_events (handleClose c) = 0" "m_idleTimeout (handleClose c) = m_idleTimeout c"
  by (simp_all add: handleClose_def Let_def conn_writing_def disableAll_def kNoneEvent_def logs_def)

lemma closing_keeps:
  assumes "conn_ok os c"
  shows "keeps os c (handleClose c)" and "keeps os c (forceClose c)" and "keeps os c (shutdown c)"
    and "keeps os c (keepAlive c)" and "keeps os c (KickoffEntry_delete c)"
proof -
  show close: "keeps os c (handleClose c)" by (rule keepsI [OF assms]) simp_all
  show force: "keeps os c (forceClose c)"
    by (rule keepsI [OF assms]) (simp_all add: forceClose_def split: if_splits)
  show "keeps os c (shutdown c)"
    by (rule keepsI [OF assms]) (auto simp: shutdown_def conn_writing_def Let_def split: if_splits)
  show "keeps os c (keepAlive c)"
    by (rule keepsI [OF assms]) (auto simp: keepAlive_def conn_writing_def Let_def split: if_splits)
  show "keeps os c (KickoffEntry_delete c)"
    by (rule keepsI [OF assms]) (auto simp: KickoffEntry_delete_def forceClose_def conn_writing_def Let_def split: if_splits)
qed

lemma opening_keeps:
  assumes "conn_ok os c"
  shows "connectEstablished c = Inr c' \<Longrightarrow> keeps os c c'" and "connectDestroyed c = Inr c' \<Longrightarrow> keeps os c c'"
    and "enableKickingOff timeout c = Inr c' \<Longrightarrow> keeps os c c'"
  by (rule keepsI [OF assms]; auto simp: connectEstablished_def connectDestroyed_def enableKickingOff_def Let_def
      conn_writing_def disableAll_def kNoneEvent_def split: if_splits)+

lemma handleRead_keeps:
  assumes "conn_ok os c" and "handleRead_conn os readv c = Inr c'"
  shows "keeps os c c'"
proof -
  obtain n err b where r: "readFd readv (m_readBuffer c) = Inr (n, err, b)"
    using assms(2) by (auto simp: handleRead_conn_def)
  have w: "conn_writing (c\<lparr>m_readBuffer := b\<rparr>) = conn_writing c"
    "conn_writing (d\<lparr>m_bytesReceived := k\<rparr>) = conn_writing d" for d k by (simp_all add: conn_writing_def)
  show ?thesis
    by (rule keepsI [OF assms(1)]) (use assms(2) r w in \<open>auto simp: handleRead_conn_def Let_def split: if_splits\<close>)
qed


section \<open>The invariant of all senders\<close>

definition sys_ok :: "conn_os \<Rightarrow> (nat \<Rightarrow> MessageBuffer) \<Rightarrow> conn_sys \<Rightarrow> bool" where
  "sys_ok os bufs s \<longleftrightarrow> conn_ok os (conn s) \<and>
     (\<forall>t \<in> set (queued (conn s)) \<union> set (in_flight s). task_ok os t) \<and>
     m_sendNum (conn s) = length (queued (conn s)) + length (in_flight s) \<and>
     (\<exists>through. wire (conn s) @ pending os (conn s) = concat through \<and>
        subseq (through @ map (task_bytes os bufs) (queued (conn s))) (accepted s))"

lemma sendInLoop_any:
  assumes "os_ok os" and "conn_ok os c"
  shows "\<exists>c'. sendInLoop os d c = Inr c' \<and> (carries os c d c' \<or> carries os c [] c')"
proof (cases "m_status c = Connected")
  case True
  with sendInLoop_ok [OF assms, of d] show ?thesis by blast
next
  case False
  with assms(2) show ?thesis by (simp add: sendInLoop_def)
qed

lemma run_task_ok:
  assumes "os_ok os" and "conn_ok os c" and "task_ok os t"
  obtains c1 where "run_task os bufs t c = Inr (minusSendNumByGuard c1)"
    and "carries os c (task_bytes os bufs t) c1 \<or> carries os c [] c1"
  using assms(3) sendInLoop_any [OF assms(1,2)] push_node_ok [OF assms(1,2)] that
  by (cases t) (fastforce simp: run_task_def task_bytes_def task_ok_def)+

lemma send_in_loop_ok:
  assumes "os_ok os" and "conn_ok os c" and "task_ok os t"
  obtains (direct) c1 where "m_sendNum c = 0" "send_in_loop os bufs True t c = Inr c1"
      "carries os c (task_bytes os bufs t) c1 \<or> carries os c [] c1"
    | (later) "m_sendNum c \<noteq> 0" "send_in_loop os bufs True t c = Inr (conn_queueInLoop t (plusSendNumByGuard c))"
proof (cases "m_sendNum c = 0")
  case True
  obtain c1 where "run_task os bufs t c = Inr (minusSendNumByGuard c1)" and
    c1: "carries os c (task_bytes os bufs t) c1 \<or> carries os c [] c1"
    by (rule run_task_ok [OF assms, of bufs])
  have "\<exists>c1. send_in_loop os bufs True t c = Inr c1 \<and> (carries os c (task_bytes os bufs t) c1 \<or> carries os c [] c1)"
    using assms(3) True sendInLoop_any [OF assms(1,2)] push_node_ok [OF assms(1,2)]
    by (cases t) (fastforce simp: send_in_loop_def send_StringView_def send_MessageBufferPtr_def send_node_def
        task_bytes_def task_ok_def)+
  with direct [OF True] show thesis by blast
next
  case False
  then show thesis
    by (intro later) (simp_all add: send_in_loop_def send_StringView_def send_MessageBufferPtr_def send_node_def
        split: conn_task.split)
qed

lemma carries_through:
  assumes "carries os c d c' \<or> carries os c [] c'" and "wire c @ pending os c = concat xs"
  shows "\<exists>ys. wire c' @ pending os c' = concat ys \<and> (ys = xs \<or> ys = xs @ [d])"
proof -
  have "wire c' @ pending os c' = (wire c @ pending os c) @ d \<or> wire c' @ pending os c' = wire c @ pending os c"
    using assms(1) by (auto simp: carries_def)
  then have "wire c' @ pending os c' = concat (xs @ [d]) \<or> wire c' @ pending os c' = concat xs"
    unfolding assms(2) by simp
  then show ?thesis by blast
qed

lemma keeps_sys_ok: "sys_ok os bufs s \<Longrightarrow> keeps os (conn s) c \<Longrightarrow> sys_ok os bufs (s\<lparr>conn := c\<rparr>)"
  by (simp add: sys_ok_def keeps_def)

lemma carries_keeps: "carries os c [] c' \<Longrightarrow> sys_ok os bufs s \<Longrightarrow> conn s = c \<Longrightarrow> sys_ok os bufs (s\<lparr>conn := c'\<rparr>)"
  by (auto simp: sys_ok_def carries_def same_control_def)

lemma queue_in_loop_simps [simp]:
  "conn_ok os (conn_queueInLoop t c) = conn_ok os c" "wire (conn_queueInLoop t c) = wire c"
  "pending os (conn_queueInLoop t c) = pending os c" "queued (conn_queueInLoop t c) = queued c @ [t]"
  "m_sendNum (conn_queueInLoop t c) = m_sendNum c"
  "conn_ok os (plusSendNumByGuard c) = conn_ok os c" "wire (plusSendNumByGuard c) = wire c"
  "pending os (plusSendNumByGuard c) = pending os c" "queued (plusSendNumByGuard c) = queued c"
  "m_sendNum (plusSendNumByGuard c) = Suc (m_sendNum c)"
  "conn_ok os (minusSendNumByGuard c) = conn_ok os c" "wire (minusSendNumByGuard c) = wire c"
  "pending os (minusSendNumByGuard c) = pending os c" "queued (minusSendNumByGuard c) = queued c"
  "m_sendNum (minusSendNumByGuard c) = size_sub (m_sendNum c) 1"
  by (simp_all add: conn_queueInLoop_def plusSendNumByGuard_def minusSendNumByGuard_def conn_ok_def pending_def
      leftover_def conn_writing_def)

lemma loop_send_sys_ok:
  assumes os: "os_ok os" and ok: "sys_ok os bufs s" and t: "task_ok os t"
    and eq: "send_in_loop os bufs True t (conn s) = Inr c"
  shows "sys_ok os bufs (s\<lparr>conn := c, accepted := accepted s @ [task_bytes os bufs t]\<rparr>)"
proof -
  have c: "conn_ok os (conn s)" using ok by (simp add: sys_ok_def)
  obtain xs where xs: "wire (conn s) @ pending os (conn s) = concat xs"
    "subseq (xs @ map (task_bytes os bufs) (queued (conn s))) (accepted s)" using ok by (auto simp: sys_ok_def)
  from os c t show ?thesis
  proof (cases rule: send_in_loop_ok [where bufs = bufs])
    case (direct c1)
    have [simp]: "c1 = c" using direct(2) eq by simp
    have q: "queued (conn s) = []" "in_flight s = []" using ok direct(1) by (auto simp: sys_ok_def)
    from carries_through [OF direct(3) xs(1)] obtain ys where ys: "wire c @ pending os c = concat ys"
      "ys = xs \<or> ys = xs @ [task_bytes os bufs t]" by auto
    have "conn_ok os c" "queued c = []" "m_sendNum c = 0"
      using direct(1,3) q by (auto simp: carries_def same_control_def)
    moreover have "subseq ys (accepted s @ [task_bytes os bufs t])" using ys(2) xs(2) q(1) by auto
    ultimately show ?thesis using ys(1) q by (auto simp: sys_ok_def)
  next
    case later
    then have [simp]: "c = conn_queueInLoop t (plusSendNumByGuard (conn s))" using eq by simp
    have "subseq (xs @ map (task_bytes os bufs) (queued (conn s)) @ [task_bytes os bufs t])
        (accepted s @ [task_bytes os bufs t])"
      using list_emb_append_mono [OF xs(2) subseq_order.order_refl [of "[task_bytes os bufs t]"]] by simp
    then show ?thesis using ok t xs(1) by (auto simp: sys_ok_def)
  qed
qed


lemma run_sys_ok:
  assumes os: "os_ok os" and ok: "sys_ok os bufs s" and q: "queued (conn s) = t # ts"
    and eq: "run_task os bufs t ((conn s)\<lparr>queued := ts\<rparr>) = Inr c"
  shows "sys_ok os bufs (s\<lparr>conn := c\<rparr>)"
proof -
  let ?c = "(conn s)\<lparr>queued := ts\<rparr>"
  have c: "conn_ok os ?c" "pending os ?c = pending os (conn s)" "wire ?c = wire (conn s)"
    using ok by (simp_all add: sys_ok_def conn_ok_def pending_def leftover_def conn_writing_def)
  have t: "task_ok os t" using ok q by (simp add: sys_ok_def)
  obtain xs where xs: "wire ?c @ pending os ?c = concat xs"
    "subseq (xs @ map (task_bytes os bufs) (t # ts)) (accepted s)" using ok q c(2) by (auto simp: sys_ok_def)
  obtain c1 where c1: "run_task os bufs t ?c = Inr (minusSendNumByGuard c1)"
    "carries os ?c (task_bytes os bufs t) c1 \<or> carries os ?c [] c1"
    by (rule run_task_ok [OF os c(1) t])
  have [simp]: "c = minusSendNumByGuard c1" using c1(1) eq by simp
  from carries_through [OF c1(2) xs(1)] obtain ys where ys: "wire c1 @ pending os c1 = concat ys"
    "ys = xs \<or> ys = xs @ [task_bytes os bufs t]" by auto
  have frame: "conn_ok os c1" "queued c1 = ts" "m_sendNum c1 = m_sendNum (conn s)"
    using c1(2) by (auto simp: carries_def same_control_def)
  have "subseq (xs @ map (task_bytes os bufs) ts) (xs @ map (task_bytes os bufs) (t # ts))"
    by (simp add: subseq_append' list_emb_Cons)
  then have "subseq (ys @ map (task_bytes os bufs) ts) (accepted s)"
    using ys(2) xs(2) subseq_order.trans by auto
  with frame ys(1) ok q show ?thesis by (auto simp: sys_ok_def)
qed

lemma sys_ok_conn: "sys_ok os bufs s \<Longrightarrow> conn_ok os (conn s)"
  by (simp add: sys_ok_def)

lemma conn_reach_ok:
  assumes "conn_reach os bufs s" and "os_ok os"
  shows "sys_ok os bufs s"
  using assms(1)
proof induction
  case (start c)
  then show ?case
    by (auto simp: sys_ok_def fresh_conn_def conn_ok_def pending_def leftover_def intro: exI [of _ "[]"])
next
  case (loop_send s t c)
  then show ?case by (intro loop_send_sys_ok [OF assms(2)])
next
  case (other_queue s t)
  then obtain xs where xs: "wire (conn s) @ pending os (conn s) = concat xs"
    "subseq (xs @ map (task_bytes os bufs) (queued (conn s))) (accepted s)" by (auto simp: sys_ok_def)
  have "subseq (xs @ map (task_bytes os bufs) (queued (conn s) @ [t])) (accepted s @ [task_bytes os bufs t])"
    using list_emb_append_mono [OF xs(2) subseq_order.order_refl [of "[task_bytes os bufs t]"]] by simp
  moreover have "length (in_flight s) = Suc (length (remove1 t (in_flight s)))"
    using other_queue.hyps by (metis One_nat_def Suc_pred length_pos_if_in_set length_remove1)
  moreover have "set (remove1 t (in_flight s)) \<subseteq> set (in_flight s)" by (rule set_remove1_subset)
  ultimately show ?case using other_queue xs(1) by (auto simp: sys_ok_def)
next
  case (run s t ts c)
  then show ?case by (intro run_sys_ok [OF assms(2)])
next
  case (writable s c)
  then have "carries os (conn s) [] c" using handleWrite_ok [OF assms(2), of "conn s"] by (auto simp: sys_ok_def)
  from carries_keeps [OF this writable.IH refl] show ?case .
next
  case (readable s readv c)
  from keeps_sys_ok [OF readable.IH handleRead_keeps [OF sys_ok_conn [OF readable.IH] readable.hyps(2)]] show ?case .
next
  case (establish s c)
  from keeps_sys_ok [OF establish.IH opening_keeps(1) [OF sys_ok_conn [OF establish.IH] establish.hyps(2)]] show ?case .
next
  case (destroy s c)
  from keeps_sys_ok [OF destroy.IH opening_keeps(2) [OF sys_ok_conn [OF destroy.IH] destroy.hyps(2)]] show ?case .
next
  case (kicking s timeout c)
  from keeps_sys_ok [OF kicking.IH opening_keeps(3) [OF sys_ok_conn [OF kicking.IH] kicking.hyps(2)]] show ?case .
next
  case (close s c)
  have "keeps os (conn s) c" using closing_keeps [OF sys_ok_conn [OF close.IH]] close.hyps(2) by blast
  with close.IH show ?case by (rule keeps_sys_ok)
qed (simp add: sys_ok_def)

section \<open>Draining\<close>

text \<open>The handler for the writable event, called until the list is empty.\<close>

fun drain :: "conn_os \<Rightarrow> nat \<Rightarrow> TcpConnection \<Rightarrow> TcpConnection result" where
  "drain os 0 c = Inr c"
| "drain os (Suc k) c = (if m_writeBufferList c = [] then Inr c else and_then (handleWrite os c) (drain os k))"

text \<open>A system that always takes something.\<close>

definition os_progress :: "conn_os \<Rightarrow> bool" where
  "os_progress os \<longleftrightarrow> (\<forall>k len. \<exists>n. os_write os k len = Inr n \<and> (len > 0 \<longrightarrow> n > 0)) \<and>
     (\<forall>k off cnt. \<exists>n. os_sendfile os k off cnt = Inr n \<and> (cnt > 0 \<longrightarrow> n > 0))"

definition no_streams :: "TcpConnection \<Rightarrow> bool" where
  "no_streams c \<longleftrightarrow> (\<forall>n \<in> set (m_writeBufferList c). streamCallback n = None)"

definition work :: "conn_os \<Rightarrow> TcpConnection \<Rightarrow> nat" where
  "work os c = length (pending os c) + length (m_writeBufferList c)"

text \<open>One step either takes bytes from the front or removes an empty front; writing stays on until the end.\<close>

definition advances :: "conn_os \<Rightarrow> TcpConnection \<Rightarrow> TcpConnection \<Rightarrow> bool" where
  "advances os c c' \<longleftrightarrow> no_streams c' \<and> work os c' < work os c \<and>
     (if m_writeBufferList c' = [] then \<not> conn_writing c' \<and> (m_status c = Disconnecting \<longrightarrow> CloseWrite \<in> set (conn_log c'))
      else conn_writing c')"

lemma length_pending:
  "carries os c [] c' \<Longrightarrow> length (wire c') + length (pending os c') = length (wire c) + length (pending os c)"
  unfolding carries_def by (metis append_Nil2 length_append)

text \<open>Sending from the front keeps the shape of the list and shortens the bytes if there are some.\<close>

lemma send_front_progress:
  assumes os: "os_ok os" "os_progress os" and ok: "conn_ok os c" and l: "m_writeBufferList c = n # ns" and m: "\<not> isFile n"
    and eq: "send_front os n c = Inr c'"
  shows "\<exists>n'. m_writeBufferList c' = n' # ns \<and> streamCallback n' = None \<and> conn_writing c' = conn_writing c \<and>
    length (pending os c') \<le> length (pending os c) \<and> (node_bytes os n \<noteq> [] \<longrightarrow> length (pending os c') < length (pending os c))"
proof -
  obtain b where b: "msgBuffer n = Some b" "buffer_ok b" "node_bytes os n = contents b" "streamCallback n = None"
    using message_node [OF conn_okD(1) [OF ok l] m] by metis
  obtain k where k: "os_write os (sys_calls c) (length (contents b)) = Inr k" "length (contents b) > 0 \<longrightarrow> k > 0"
    using os(2) unfolding os_progress_def by blast
  then have le: "k \<le> length (contents b)" using os_okD(1) [OF os(1)] by blast
  have c': "c' = set_front (n\<lparr>msgBuffer := Some (retrieve b k)\<rparr>)
      (c\<lparr>sys_calls := Suc (sys_calls c), m_bytesSent := m_bytesSent c + k, wire := wire c @ take k (contents b)\<rparr>)"
    using eq b(1,2) k(1) by (simp add: send_front_def load_all writeInLoop_def)
  then have "length (wire c') = length (wire c) + k" using le by simp
  moreover have "carries os c [] c'" using send_front_ok [OF os(1) ok l m] eq by auto
  ultimately have "k + length (pending os c') = length (pending os c)" using length_pending by fastforce
  moreover have "conn_writing c' = conn_writing c" by (simp add: c' conn_writing_def set_front_def)
  moreover have "m_writeBufferList c' = n\<lparr>msgBuffer := Some (retrieve b k)\<rparr> # ns" using l by (simp add: c')
  ultimately show ?thesis using k(2) b(3,4) by auto
qed

lemma sendFileInLoop_progress:
  assumes os: "os_ok os" "os_progress os" and ok: "conn_ok os c" and l: "m_writeBufferList c = f # ns"
    and f: "isFile f" "streamCallback f = None" and eq: "sendFileInLoop os f c = Inr c'"
  shows "\<exists>n'. m_writeBufferList c' = n' # ns \<and> streamCallback n' = None \<and> (conn_writing c \<longrightarrow> conn_writing c') \<and>
    length (pending os c') \<le> length (pending os c) \<and>
    (fileBytesToSend f > 0 \<longrightarrow> length (pending os c') < length (pending os c))"
proof -
  obtain k where k: "os_sendfile os (sys_calls c) (m_offset f) (nat (fileBytesToSend f)) = Inr k"
    "nat (fileBytesToSend f) > 0 \<longrightarrow> k > 0" using os(2) unfolding os_progress_def by blast
  have fd: "0 \<le> m_sendFd f" using f by (simp add: isFile_def)
  have fb: "0 \<le> fileBytesToSend f" "m_offset f + nat (fileBytesToSend f) \<le> length (os_file os (m_sendFd f))"
    using conn_okD(1) [OF ok l] f(2) fd by (simp_all add: node_ok_def)
  have le: "k \<le> nat (fileBytesToSend f)" using os_okD(2) [OF os(1) k(1)] .
  let ?f = "f\<lparr>m_offset := m_offset f + k, fileBytesToSend := fileBytesToSend f - int k\<rparr>"
  let ?c2 = "c\<lparr>sys_calls := Suc (sys_calls c), wire := wire c @ segment (m_offset f) k (os_file os (m_sendFd f))\<rparr>"
  have c': "c' = start_writing (set_front ?f ?c2)"
    using eq k f fb os_okD(3) [OF os(1)] by (auto simp: sendFileInLoop_def Let_def)
  then have "length (wire c') = length (wire c) + k" using le fb(2) by (simp add: length_segment)
  moreover have "carries os c [] c'" using sendFileInLoop_ok [OF os(1) ok l f(1)] eq by auto
  ultimately have "k + length (pending os c') = length (pending os c)" using length_pending by fastforce
  moreover have "conn_writing c'" "m_writeBufferList c' = ?f # ns" "streamCallback ?f = None"
    using l f(2) by (simp_all add: c')
  ultimately show ?thesis using k(2) by auto
qed

lemma sendNext_progress:
  assumes os: "os_ok os" "os_progress os" and ok: "conn_ok os c" and l: "m_writeBufferList c = n # ns" and s: "no_streams c"
    and eq: "sendNext os c = Inr c'" and w: "conn_writing c"
  shows "no_streams c' \<and> m_writeBufferList c' \<noteq> [] \<and> conn_writing c' \<and>
    length (m_writeBufferList c') = length (m_writeBufferList c) \<and> length (pending os c') \<le> length (pending os c)"
proof (cases "isFile n")
  case True
  have "streamCallback n = None" using s l by (simp add: no_streams_def)
  from sendFileInLoop_progress [OF os ok l True this, of c'] eq True l s w show ?thesis
    by (auto simp: sendNext_def no_streams_def)
next
  case False
  from send_front_progress [OF os ok l False, of c'] eq False l s w show ?thesis
    by (auto simp: sendNext_def no_streams_def)
qed


lemma finish_front_progress:
  assumes os: "os_ok os" "os_progress os" and ok: "conn_ok os c" and l: "m_writeBufferList c = n # ns" and s: "no_streams c"
    and n: "node_bytes os n = []" "leftover c = []" and w: "conn_writing c" and eq: "finish_front os n c = Inr c'"
  shows "advances os c c'"
proof -
  let ?c1 = "c\<lparr>m_writeBufferList := ns\<rparr>"
  have pend: "pending os ?c1 = pending os c" using l n by (simp add: pending_def leftover_def)
  show ?thesis
  proof (cases ns)
    case Nil
    let ?c2 = "?c1\<lparr>m_events := disableWriting (m_events c)\<rparr>"
    obtain es where c': "c' = logs es ?c2" "m_status c = Disconnecting \<longrightarrow> CloseWrite \<in> set es"
      using eq Nil l by (auto simp: finish_front_def Let_def logs_def split: if_splits)
    have "pending os c' = []" "\<not> conn_writing c'"
      using n(2) Nil by (simp_all add: c'(1) pending_def leftover_def conn_writing_def)
    with c' Nil l show ?thesis by (simp add: advances_def work_def no_streams_def)
  next
    case (Cons m ms)
    have ok1: "conn_ok os ?c1" using n(2) Cons conn_okD(2) [OF ok l] by (simp add: conn_ok_def leftover_def)
    obtain c1 where c1: "sendNext os ?c1 = Inr c1" "c' = logs (BufferNode_delete n) c1"
      using eq Cons l by (auto simp: finish_front_def Let_def)
    have "no_streams ?c1" using s l by (simp add: no_streams_def)
    moreover have "conn_writing ?c1" using w by (simp add: conn_writing_def)
    ultimately have "no_streams c1 \<and> m_writeBufferList c1 \<noteq> [] \<and> conn_writing c1 \<and>
        length (m_writeBufferList c1) = length ns \<and> length (pending os c1) \<le> length (pending os ?c1)"
      using sendNext_progress [OF os ok1, of m ms c1] c1(1) Cons by simp
    with c1(2) pend l show ?thesis by (simp add: advances_def work_def no_streams_def)
  qed
qed

lemma handleWrite_progress:
  assumes os: "os_ok os" "os_progress os" and ok: "conn_ok os c" and s: "no_streams c" and w: "conn_writing c"
  shows "\<exists>c'. handleWrite os c = Inr c' \<and> carries os c [] c' \<and> advances os c c'"
proof -
  let ?c = "extendLife os c"
  obtain c' where c': "handleWrite os c = Inr c'" "carries os c [] c'" using handleWrite_ok [OF os(1) ok] by blast
  have ok1: "conn_ok os ?c" "no_streams ?c" "conn_writing ?c" using ok s w by (simp_all add: no_streams_def)
  then obtain n ns where l: "m_writeBufferList ?c = n # ns" by (cases "m_writeBufferList ?c") (auto simp: conn_ok_def)
  have n: "streamCallback n = None" using ok1(2) l by (simp add: no_streams_def)
  have left: "leftover ?c = []" by (rule leftover_Nil [OF ok1(1) l]) (simp add: n)
  have adv: "advances os c c'" if "advances os ?c c'" using that by (simp add: advances_def work_def)
  note fin = finish_front_progress [OF os ok1(1) l ok1(2) _ left ok1(3), of c']
  have step: "advances os ?c c'" if "\<exists>n'. m_writeBufferList c' = n' # ns \<and> streamCallback n' = None \<and> conn_writing c' \<and>
      length (pending os c') < length (pending os ?c)"
    using that l ok1(2) by (auto simp: advances_def work_def no_streams_def)
  show ?thesis
  proof (cases "isFile n")
    case f: True
    show ?thesis
    proof (cases "fileBytesToSend n \<le> 0")
      case True
      then have "node_bytes os n = []" using f n by (simp add: node_bytes_def isFile_def)
      with fin c' adv True f l w show ?thesis by (simp add: handleWrite_def Let_def)
    next
      case False
      with c'(1) f l w have "sendFileInLoop os n ?c = Inr c'" by (simp add: handleWrite_def Let_def)
      from sendFileInLoop_progress [OF os ok1(1) l f n this] False ok1(3) step adv c' show ?thesis by auto
    qed
  next
    case m: False
    obtain b where b: "msgBuffer n = Some b" "buffer_ok b" "node_bytes os n = contents b"
      using message_node [OF conn_okD(1) [OF ok1(1) l] m] by metis
    show ?thesis
    proof (cases "readableBytes b = 0")
      case True
      then have "node_bytes os n = []" using b(2,3) length_contents [of b] by simp
      with fin c' adv True m b(1) l w show ?thesis by (simp add: handleWrite_def Let_def)
    next
      case False
      with c'(1) m l w b(1) have "send_front os n ?c = Inr c'" by (simp add: handleWrite_def Let_def)
      moreover have "node_bytes os n \<noteq> []" using False b(2,3) length_contents [of b] by auto
      ultimately show ?thesis
        using send_front_progress [OF os ok1(1) l m, of c'] ok1(3) step adv c' by auto
    qed
  qed
qed

lemma drain_ok:
  assumes "os_ok os" "os_progress os" and "conn_ok os c" and "no_streams c" and "conn_writing c"
  shows "\<exists>c'. drain os (work os c) c = Inr c' \<and> m_writeBufferList c' = [] \<and> \<not> conn_writing c' \<and>
    wire c' = wire c @ pending os c \<and> (m_status c = Disconnecting \<longrightarrow> CloseWrite \<in> set (conn_log c'))"
  using assms(3-5)
proof (induction "work os c" arbitrary: c rule: less_induct)
  case less
  obtain c1 where c1: "handleWrite os c = Inr c1" "carries os c [] c1" "advances os c c1"
    using handleWrite_progress [OF assms(1,2) less.prems] by blast
  have ne: "m_writeBufferList c \<noteq> []" using less.prems(1,3) by (auto simp: conn_ok_def)
  then obtain k where k: "work os c = Suc k" by (cases "work os c") (simp_all add: work_def)
  have c1': "conn_ok os c1" "m_status c1 = m_status c" "wire c1 @ pending os c1 = wire c @ pending os c"
    using c1(2) by (simp_all add: carries_def same_control_def)
  show ?case
  proof (cases "m_writeBufferList c1 = []")
    case True
    then have "leftover c1 = []" using c1'(1) by (auto simp: conn_ok_def)
    then have "wire c1 = wire c @ pending os c" using c1'(3) True by (simp add: pending_def)
    moreover have "drain os k c1 = Inr c1" using True by (cases k) simp_all
    ultimately show ?thesis using c1 True k ne by (simp add: advances_def)
  next
    case False
    have le: "work os c1 \<le> k" using c1(3) k by (simp add: advances_def)
    obtain c' where c': "drain os (work os c1) c1 = Inr c'" "m_writeBufferList c' = []" "\<not> conn_writing c'"
      "wire c' = wire c1 @ pending os c1" "m_status c1 = Disconnecting \<longrightarrow> CloseWrite \<in> set (conn_log c')"
      using less.hyps [of c1] c1(3) c1'(1) False by (auto simp: advances_def)
    have more: "drain os (j + i) d = Inr e" if "drain os j d = Inr e" "m_writeBufferList e = []" for j i d e
      using that
    proof (induction j arbitrary: d)
      case 0
      then show ?case by (cases i) simp_all
    qed (auto split: if_splits)
    have "drain os k c1 = Inr c'" using more [OF c'(1,2), of "k - work os c1"] le by simp
    with c' c1(1) c1' k ne show ?thesis by simp
  qed
qed

section \<open>The idle timeout\<close>

lemma idle_timeout_simps [simp]:
  "m_idleTimeout (logs es c) = m_idleTimeout c" "m_idleTimeout (start_writing c) = m_idleTimeout c"
  "m_idleTimeout (stop_writing c) = m_idleTimeout c" "m_idleTimeout (set_front n c) = m_idleTimeout c"
  "m_idleTimeout (extendLife os c) = m_idleTimeout c" "m_idleTimeout (minusSendNumByGuard c) = m_idleTimeout c"
  "m_idleTimeout (plusSendNumByGuard c) = m_idleTimeout c" "m_idleTimeout (conn_queueInLoop t c) = m_idleTimeout c"
  by (simp_all add: logs_def start_writing_def stop_writing_def set_front_def extendLife_def minusSendNumByGuard_def
      plusSendNumByGuard_def conn_queueInLoop_def Let_def)

lemma writeInLoop_idle: "writeInLoop os buf c = (r, c') \<Longrightarrow> m_idleTimeout c' = m_idleTimeout c"
  by (auto simp: writeInLoop_def Let_def split: sum.splits)

lemma stream_loop_idle: "stream_loop os n buf c = (n', buf', c') \<Longrightarrow> m_idleTimeout c' = m_idleTimeout c"
proof (induction os n buf c rule: stream_loop.induct)
  case (1 os n buf c)
  then show ?case
    by (subst (asm) (2) stream_loop.simps)
      (fastforce split: prod.splits if_splits sum.splits simp: Let_def dest: writeInLoop_idle)
qed


lemma file_loop_idle: "file_loop os k n c = (n', c') \<Longrightarrow> m_idleTimeout c' = m_idleTimeout c"
proof (induction os k n c rule: file_loop.induct)
  case (1 os k n c)
  then show ?case
    by (subst (asm) (2) file_loop.simps)
      (fastforce split: prod.splits if_splits sum.splits simp: Let_def dest: writeInLoop_idle)
qed

lemma sendFileInLoop_idle: "sendFileInLoop os f c = Inr c' \<Longrightarrow> m_idleTimeout c' = m_idleTimeout c"
  by (auto simp: sendFileInLoop_def Let_def split: sum.splits if_splits prod.splits
      dest: stream_loop_idle file_loop_idle)

lemma send_front_idle:
  assumes "send_front os n c = Inr c'"
  shows "m_idleTimeout c' = m_idleTimeout c"
proof -
  obtain b bytes where "msgBuffer n = Some b" "load b (peek b) (readableBytes b) = Inr bytes"
    using assms by (auto simp: send_front_def split: option.splits)
  with assms show ?thesis
    by (cases "os_write os (sys_calls c) (length bytes)") (auto simp: send_front_def writeInLoop_def)
qed

lemma handleWrite_idle:
  assumes "handleWrite os c = Inr c'"
  shows "m_idleTimeout c' = m_idleTimeout c"
proof -
  have next_idle: "m_idleTimeout e = m_idleTimeout d" if "sendNext os d = Inr e" for d e
    using that by (auto simp: sendNext_def split: list.splits if_splits dest: send_front_idle sendFileInLoop_idle)
  have "m_idleTimeout e = m_idleTimeout d" if "finish_front os n d = Inr e" for n d e
    using that by (auto simp: finish_front_def Let_def split: if_splits dest: next_idle)
  then show ?thesis using assms
    by (auto simp: handleWrite_def Let_def split: list.splits if_splits option.splits
        dest: send_front_idle sendFileInLoop_idle)
qed

lemma sendInLoop_idle:
  assumes "sendInLoop os d c = Inr c'"
  shows "m_idleTimeout c' = m_idleTimeout c"
proof -
  have "m_idleTimeout e = m_idleTimeout f" if "sendInLoop_rest r f = Inr e" for r e f
    using that by (auto simp: sendInLoop_rest_def Let_def split: option.splits if_splits)
  then show ?thesis using assms
    by (auto simp: sendInLoop_def Let_def split: if_splits sum.splits prod.splits dest!: writeInLoop_idle)
qed

lemma task_idle:
  "run_task os bufs t c = Inr c' \<Longrightarrow> m_idleTimeout c' = m_idleTimeout c"
  "send_in_loop os bufs b t c = Inr c' \<Longrightarrow> m_idleTimeout c' = m_idleTimeout c"
proof -
  have push: "push_node os n d = Inr e \<Longrightarrow> m_idleTimeout e = m_idleTimeout d" for n d e
    by (auto simp: push_node_def Let_def split: if_splits dest: sendFileInLoop_idle)
  show "run_task os bufs t c = Inr c' \<Longrightarrow> m_idleTimeout c' = m_idleTimeout c"
    by (auto simp: run_task_def split: conn_task.splits dest: push sendInLoop_idle)
  show "send_in_loop os bufs b t c = Inr c' \<Longrightarrow> m_idleTimeout c' = m_idleTimeout c"
    by (auto simp: send_in_loop_def send_StringView_def send_MessageBufferPtr_def send_node_def
        split: conn_task.splits if_splits dest: push sendInLoop_idle)
qed

lemma conn_reach_idle: "conn_reach os bufs s \<Longrightarrow> m_idleTimeout (conn s) = 0"
proof (induction rule: conn_reach.induct)
  case (readable s readv c)
  then show ?case by (auto simp: handleRead_conn_def Let_def split: if_splits)
next
  case (close s c)
  then show ?case
    by (auto simp: shutdown_def forceClose_def keepAlive_def KickoffEntry_delete_def Let_def split: if_splits)
qed (auto simp: fresh_conn_def connectEstablished_def connectDestroyed_def enableKickingOff_def Let_def
    split: if_splits dest: task_idle handleWrite_idle)

section \<open>Properties\<close>

text \<open>A system that takes at most four bytes of a message and three of a file, and a connection to write to.\<close>

definition slow_os :: conn_os where
  "slow_os = \<lparr>os_platform = Linux, os_write = (\<lambda>k len. Inr (min len 4)), os_sendfile = (\<lambda>k off cnt. Inr (min cnt 3)),
     os_read = (\<lambda>k len. Inr len), os_now = (\<lambda>k. 0), os_file = (\<lambda>fd. [10, 11, 12, 13, 14, 15])\<rparr>"

definition open_conn :: TcpConnection where
  "open_conn = TcpConnection_new\<lparr>m_status := Connected, m_events := kReadEvent\<rparr>"

lemma slow_os_ok: "os_ok slow_os" "os_progress slow_os"
  by (simp_all add: os_ok_def os_progress_def slow_os_def)

lemma open_conn_fresh: "fresh_conn open_conn" "conn_ok os open_conn" "m_status open_conn = Connected"
  "pending os open_conn = []" "wire open_conn = []"
  by (simp_all add: fresh_conn_def open_conn_def TcpConnection_new_def conn_writing_def kReadEvent_def kWriteEvent_def
      poll_flags has_flag_def conn_ok_def leftover_def pending_def)



text \<open>
  C7. On a connected connection \<^verbatim>\<open>sendInLoop\<close> never fails; it appends exactly the given bytes to what
  is on the wire or pending, however much the socket takes, unless nothing was pending and the socket
  reported an error other than being busy, in which case the whole message is dropped.
\<close>

theorem tcp_sendInLoop_exact:
  assumes "os_ok os" and "conn_ok os c" and "m_status c = Connected"
  shows "\<exists>c'. sendInLoop os buffer c = Inr c' \<and> conn_ok os c' \<and>
    (wire c' @ pending os c' = wire c @ pending os c @ buffer \<or>
     fatal_write os buffer c \<and> m_writeBufferList c = [] \<and> wire c' @ pending os c' = wire c @ pending os c)"
proof -
  obtain c' where "sendInLoop os buffer c = Inr c'" and
    "carries os c buffer c' \<or> fatal_write os buffer c \<and> m_writeBufferList c = [] \<and> carries os c [] c'"
    using sendInLoop_ok [OF assms] by blast
  then show ?thesis unfolding carries_def by auto
qed

theorem tcp_sendInLoop_exact_witness:
  "\<exists>c'. sendInLoop slow_os [1, 2, 3, 4, 5, 6] open_conn = Inr c' \<and> conn_ok slow_os c' \<and>
     wire c' @ pending slow_os c' = [1, 2, 3, 4, 5, 6]"
  using tcp_sendInLoop_exact [OF slow_os_ok(1) open_conn_fresh(2,3), of "[1, 2, 3, 4, 5, 6]"]
  by (simp add: open_conn_fresh fatal_write_def slow_os_def)



text \<open>
  C35. A file offered to a busy socket on an idle connection is stuck: when \<^verbatim>\<open>sendfile\<close> reports
  \<^verbatim>\<open>EAGAIN\<close> the node stays in the list with the interest in writing off, so the writable event is not
  reported, and handling it would do nothing either.
\<close>

theorem tcp_sendfile_busy_stalls:
  assumes "os_platform os = Linux" and "os_sendfile os (sys_calls c) offset len = Inl EAGAIN"
    and "m_sendNum c = 0" and "m_writeBufferList c = []" and "\<not> conn_writing c" and "m_idleTimeout c = 0"
    and "0 \<le> sfd" and "0 < len"
  shows "\<exists>n c'. sendFile_fd os True sfd offset len c = Inr c' \<and> m_writeBufferList c' = [n] \<and> isFile n \<and>
    fileBytesToSend n = int len \<and> \<not> conn_writing c' \<and> wire c' = wire c \<and> handleWrite os c' = Inr c'"
  using assms
  by (simp add: sendFile_fd_def send_node_def push_node_def sendFileInLoop_def isFile_def BufferNode_new_def
      EAGAIN_def conn_writing_def handleWrite_def extendLife_def)

theorem tcp_sendfile_busy_stalls_witness:
  "\<exists>n c'. sendFile_fd (slow_os\<lparr>os_sendfile := \<lambda>k off cnt. Inl EAGAIN\<rparr>) True 5 0 6 open_conn = Inr c' \<and>
     m_writeBufferList c' = [n] \<and> \<not> conn_writing c'"
  using tcp_sendfile_busy_stalls [of "slow_os\<lparr>os_sendfile := \<lambda>k off cnt. Inl EAGAIN\<rparr>" open_conn 0 6 5]
    open_conn_fresh(1) by (auto simp: fresh_conn_def slow_os_def)

text \<open>
  C36. Traffic never extends the life of a connection with an idle timeout: \<^verbatim>\<open>enableKickingOff\<close> does not
  store the timeout, so in every reachable state \<^verbatim>\<open>extendLife\<close> does nothing, and the entry that is dropped
  by the timing wheel closes the connection however active it is.
\<close>

theorem tcp_idle_never_extended:
  assumes "conn_reach os bufs s"
  shows "extendLife os (conn s) = conn s \<and>
    (m_kickoffConn (conn s) \<and> m_status (conn s) = Connected \<longrightarrow> m_status (KickoffEntry_delete (conn s)) = Disconnected)"
  using conn_reach_idle [OF assms] by (simp add: extendLife_def KickoffEntry_delete_def forceClose_def)

theorem tcp_idle_never_extended_witness:
  "extendLife slow_os (open_conn\<lparr>m_kickoffEntry := True, m_kickoffConn := True, conn_log := [WheelInsert 3]\<rparr>) =
     open_conn\<lparr>m_kickoffEntry := True, m_kickoffConn := True, conn_log := [WheelInsert 3]\<rparr>"
proof -
  let ?s = "\<lparr>conn = open_conn, in_flight = [], accepted = []\<rparr>"
  let ?c = "open_conn\<lparr>m_kickoffEntry := True, m_kickoffConn := True, conn_log := [WheelInsert 3]\<rparr>"
  have "enableKickingOff 3 (conn ?s) = Inr ?c"
    by (simp add: enableKickingOff_def logs_def open_conn_def TcpConnection_new_def)
  from conn_reach.kicking [OF conn_reach.start [OF open_conn_fresh(1)] this]
  have "conn_reach slow_os undefined (?s\<lparr>conn := ?c\<rparr>)" .
  from tcp_idle_never_extended [OF this] show ?thesis by simp
qed


end
