(* ===== verification/Event_Loop.thy ===== *)
theory Event_Loop
  imports Complex_Main Lockfree_Queue Timer_Queue
begin

text \<open>
  \<^verbatim>\<open>netpoll/net/eventloop.cc\<close> and \<^verbatim>\<open>.h\<close>: the loop of a thread and the calls other threads make on it.

  The loop and the calls \<^verbatim>\<open>queueInLoop\<close> and \<^verbatim>\<open>quit\<close> are split at their shared accesses; any number of
  threads and the loop interleave. \<open>loop_pc\<close> is where the loop thread is inside \<^verbatim>\<open>loop\<close>, and \<open>callers t\<close>
  where thread \<open>t\<close> is inside a call. The functions handed over go through the \<^verbatim>\<open>MpscQueue\<close> of
  \<open>Lockfree_Queue\<close>, whose own steps are interleaved as well. \<open>wakeup_count\<close> is the counter behind the
  wakeup descriptor (on Linux an eventfd), and channel \<open>0\<close> is the channel of that descriptor. Callbacks
  of channels and functions show in what the loop thread calls while it is inside one of them.
\<close>

section \<open>State\<close>

datatype loop_pc =
    LIdle
  | LStarting
  | LCheck
  | LPoll
  | LHandle "nat list"
  | LEmpty
  | LDrain
  | LDequeue
  | LRun nat
  | LQuitFuncs

datatype caller = QIdle | QEnqueue | QCheck | QWake | QuitStore

record EventLoop =
  m_looping :: bool
  m_quit :: bool
  m_eventHandling :: bool
  m_callingFuncs :: bool
  m_tid :: nat
  m_activeChannels :: "nat list"
  m_currentActiveChannel :: "nat option"
  m_funcs :: "nat MpscQueue"
  m_timerQueue :: TimerQueue
  m_funcOnQuit :: "nat MpscQueue"
  wakeup_count :: nat
  loop_pc :: loop_pc
  callers :: "nat \<Rightarrow> caller"
  ran_funcs :: "nat list"
  ran_onQuit :: "nat list"

text \<open>\<open>tls t\<close> is the value of \<^verbatim>\<open>t_loopInThisThread\<close> in thread \<open>t\<close>: the identity of a loop.\<close>

type_synonym thread_locals = "nat \<Rightarrow> nat option"

definition isInLoopThread :: "nat \<Rightarrow> EventLoop \<Rightarrow> bool" where
  "isInLoopThread t s \<longleftrightarrow> m_tid s = t"

definition isRunning :: "EventLoop \<Rightarrow> bool" where
  "isRunning s \<longleftrightarrow> m_looping s \<and> \<not> m_quit s"

text \<open>The constructor in thread \<open>t\<close> aborts if the thread has a loop; \<open>a\<close> and \<open>b\<close> are the first nodes of the queues.\<close>

definition EventLoop_new :: "nat \<Rightarrow> nat \<Rightarrow> nat \<Rightarrow> nat \<Rightarrow> TimerQueue \<Rightarrow> thread_locals \<Rightarrow> (thread_locals \<times> EventLoop) result" where
  "EventLoop_new this t a b timers tls =
     assert_that (tls t = None)
     (Inr (tls(t \<mapsto> this),
       \<lparr>m_looping = False, m_quit = False, m_eventHandling = False, m_callingFuncs = False, m_tid = t,
        m_activeChannels = [], m_currentActiveChannel = None, m_funcs = MpscQueue_new a, m_timerQueue = timers,
        m_funcOnQuit = MpscQueue_new b, wakeup_count = 0, loop_pc = LIdle, callers = (\<lambda>_. QIdle), ran_funcs = [], ran_onQuit = []\<rparr>))"

text \<open>The move to thread \<open>t\<close>; the first \<open>None\<close> of a result is the exit of the process.\<close>

definition moveToCurrentThread :: "nat \<Rightarrow> nat \<Rightarrow> thread_locals \<Rightarrow> EventLoop \<Rightarrow> (thread_locals \<times> EventLoop) option" where
  "moveToCurrentThread this t tls s =
     (if isRunning s then None
      else if isInLoopThread t s then Some (tls, s)
      else if tls t \<noteq> None then None
      else Some ((tls(m_tid s := None))(t \<mapsto> this), s\<lparr>m_tid := t\<rparr>))"

section \<open>Timers\<close>

text \<open>
  Time points of the timer queue are nanoseconds of the steady clock, \<open>steady\<close>; a \<^verbatim>\<open>Timestamp\<close> counts
  microseconds of the system clock, \<open>now\<close>. Arithmetic on \<^verbatim>\<open>double\<close> is exact here.
\<close>

definition trunc :: "rat \<Rightarrow> int" where
  "trunc r = (if r < 0 then - \<lfloor>- r\<rfloor> else \<lfloor>r\<rfloor>)"

definition timestamp_plus :: "int \<Rightarrow> rat \<Rightarrow> int" where
  "timestamp_plus timestamp seconds = timestamp + trunc (seconds * 1000000)"

definition with_timers :: "EventLoop \<Rightarrow> (TimerId \<times> TimerQueue) result \<Rightarrow> (TimerId \<times> EventLoop) result" where
  "with_timers s r = and_then r (\<lambda>(i, q). Inr (i, s\<lparr>m_timerQueue := q\<rparr>))"

definition runAt :: "int \<Rightarrow> int \<Rightarrow> int \<Rightarrow> bool \<Rightarrow> bool \<Rightarrow> EventLoop \<Rightarrow> (TimerId \<times> EventLoop) result" where
  "runAt now steady time h l s =
     (let microSeconds = time - now; tp = steady + microSeconds * 1000 in
      with_timers s (addTimer tp 0 h l (m_timerQueue s)))"

definition runAfter :: "int \<Rightarrow> int \<Rightarrow> rat \<Rightarrow> bool \<Rightarrow> bool \<Rightarrow> EventLoop \<Rightarrow> (TimerId \<times> EventLoop) result" where
  "runAfter now steady delay h l s = runAt now steady (timestamp_plus now delay) h l s"

definition runEvery :: "int \<Rightarrow> rat \<Rightarrow> bool \<Rightarrow> bool \<Rightarrow> EventLoop \<Rightarrow> (TimerId \<times> EventLoop) result" where
  "runEvery steady interval h l s =
     (let dur = trunc (interval * 1000000) * 1000 in
      with_timers s (addTimer (steady + dur) dur h l (m_timerQueue s)))"

definition cancelTimer_el :: "TimerId \<Rightarrow> EventLoop \<Rightarrow> EventLoop" where
  "cancelTimer_el i s = (if isRunning s then s\<lparr>m_timerQueue := cancelTimer i (m_timerQueue s)\<rparr> else s)"

section \<open>Calls\<close>

definition set_caller :: "nat \<Rightarrow> caller \<Rightarrow> EventLoop \<Rightarrow> EventLoop" where
  "set_caller t p s = s\<lparr>callers := (callers s)(t := p)\<rparr>"

text \<open>An access of the queue of functions.\<close>

definition on_funcs :: "nat action \<Rightarrow> EventLoop \<Rightarrow> EventLoop result option" where
  "on_funcs e s = map_option (\<lambda>r. and_then r (\<lambda>q. Inr (s\<lparr>m_funcs := q\<rparr>))) (act e (m_funcs s))"

definition wakeup :: "EventLoop \<Rightarrow> EventLoop" where
  "wakeup s = s\<lparr>wakeup_count := wakeup_count s + 1\<rparr>"

definition wakeupRead :: "EventLoop \<Rightarrow> EventLoop" where
  "wakeupRead s = s\<lparr>wakeup_count := 0\<rparr>"

text \<open>\<^verbatim>\<open>queueInLoop\<close> after the function is in the queue.\<close>

definition queueInLoop_check :: "nat \<Rightarrow> EventLoop \<Rightarrow> EventLoop" where
  "queueInLoop_check t s = set_caller t (if \<not> isInLoopThread t s \<or> \<not> m_looping s then QWake else QIdle) s"

definition quit_load :: "nat \<Rightarrow> EventLoop \<Rightarrow> EventLoop" where
  "quit_load t s = (if m_quit s then s else set_caller t QuitStore s)"

definition quit_store :: "nat \<Rightarrow> EventLoop \<Rightarrow> EventLoop" where
  "quit_store t s = set_caller t (if \<not> isInLoopThread t s then QWake else QIdle) (s\<lparr>m_quit := True\<rparr>)"

text \<open>The quit functions are queued and taken as single steps.\<close>

definition runOnQuit :: "nat \<Rightarrow> nat \<Rightarrow> EventLoop \<Rightarrow> EventLoop result" where
  "runOnQuit a f s = and_then (enqueue 0 a f (m_funcOnQuit s)) (\<lambda>q. Inr (s\<lparr>m_funcOnQuit := q\<rparr>))"

section \<open>The loop\<close>

definition loop_start :: "EventLoop \<Rightarrow> EventLoop result" where
  "loop_start s = assert_that (\<not> m_looping s) (Inr (s\<lparr>m_looping := True, loop_pc := LStarting\<rparr>))"

definition loop_reset :: "EventLoop \<Rightarrow> EventLoop" where
  "loop_reset s = s\<lparr>m_quit := False, loop_pc := LCheck\<rparr>"

text \<open>The condition of the loop; leaving it clears the flag and goes on to the quit functions.\<close>

definition loop_check :: "EventLoop \<Rightarrow> EventLoop" where
  "loop_check s =
     (if m_quit s then s\<lparr>m_looping := False, loop_pc := LQuitFuncs\<rparr>
      else s\<lparr>m_activeChannels := [], loop_pc := LPoll\<rparr>)"

text \<open>The poller returned the channels \<open>cs\<close>.\<close>

definition loop_polled :: "nat list \<Rightarrow> EventLoop \<Rightarrow> EventLoop" where
  "loop_polled cs s = s\<lparr>m_activeChannels := cs, m_eventHandling := True, loop_pc := LHandle cs\<rparr>"

definition loop_handle :: "nat \<Rightarrow> nat list \<Rightarrow> EventLoop \<Rightarrow> EventLoop" where
  "loop_handle c cs s =
     (let s1 = s\<lparr>m_currentActiveChannel := Some c, loop_pc := LHandle cs\<rparr> in if c = 0 then wakeupRead s1 else s1)"

definition loop_handled :: "EventLoop \<Rightarrow> EventLoop" where
  "loop_handled s =
     s\<lparr>m_currentActiveChannel := None, m_eventHandling := False, m_callingFuncs := True, loop_pc := LEmpty\<rparr>"

definition funcs_empty :: "EventLoop \<Rightarrow> EventLoop result" where
  "funcs_empty s = and_then (empty (m_funcs s)) (\<lambda>e.
     Inr (if e then s\<lparr>m_callingFuncs := False, loop_pc := LCheck\<rparr> else s\<lparr>loop_pc := LDrain\<rparr>))"

text \<open>\<^verbatim>\<open>dequeue\<close> in the inner loop: the load decides whether there is a function.\<close>

definition funcs_load :: "EventLoop \<Rightarrow> EventLoop result option" where
  "funcs_load s = map_option (\<lambda>r. and_then r (\<lambda>s1.
     Inr (s1\<lparr>loop_pc := if consumer (m_funcs s1) = CIdle then LEmpty else LDequeue\<rparr>))) (on_funcs Deq_Load s)"

definition funcs_dequeue :: "EventLoop \<Rightarrow> EventLoop result option" where
  "funcs_dequeue s =
     (case consumer (m_funcs s) of
        CIdle \<Rightarrow> None
      | CLoaded tail nxt \<Rightarrow> on_funcs Deq_Take s
      | CTaken tail nxt f \<Rightarrow> on_funcs Deq_Store s
      | CStored tail f \<Rightarrow> map_option (\<lambda>r. and_then r (\<lambda>s1. Inr (s1\<lparr>loop_pc := LRun f\<rparr>))) (on_funcs Deq_Delete s))"

definition funcs_ran :: "nat \<Rightarrow> EventLoop \<Rightarrow> EventLoop" where
  "funcs_ran f s = s\<lparr>ran_funcs := ran_funcs s @ [f], loop_pc := LDrain\<rparr>"

definition quit_funcs :: "EventLoop \<Rightarrow> EventLoop result" where
  "quit_funcs s = and_then (dequeue (m_funcOnQuit s)) (\<lambda>(f, q).
     let s1 = s\<lparr>m_funcOnQuit := q\<rparr> in
     case f of None \<Rightarrow> Inr (s1\<lparr>loop_pc := LIdle\<rparr>) | Some f \<Rightarrow> Inr (s1\<lparr>ran_onQuit := ran_onQuit s1 @ [f]\<rparr>))"

section \<open>Interleaving\<close>

datatype el_action =
    Queue nat nat nat
  | Queue_Exchange nat
  | Queue_Link nat
  | Queue_Check nat
  | Wake nat
  | Quit nat
  | Quit_Store nat
  | On_Quit nat nat
  | Loop
  | Polled "nat list"

text \<open>The loop thread can call only from a callback, or while it is outside the loop.\<close>

definition may_call :: "nat \<Rightarrow> EventLoop \<Rightarrow> bool" where
  "may_call t s \<longleftrightarrow> callers s t = QIdle \<and>
     (t = m_tid s \<longrightarrow> (case loop_pc s of LIdle \<Rightarrow> True | LHandle cs \<Rightarrow> True | LRun f \<Rightarrow> True | LQuitFuncs \<Rightarrow> True | _ \<Rightarrow> False))"

text \<open>One step of the loop thread; \<open>None\<close> while it waits in the poller.\<close>

definition loop_step :: "EventLoop \<Rightarrow> EventLoop result option" where
  "loop_step s =
     (case loop_pc s of
        LIdle \<Rightarrow> Some (loop_start s)
      | LStarting \<Rightarrow> Some (Inr (loop_reset s))
      | LCheck \<Rightarrow> Some (Inr (loop_check s))
      | LPoll \<Rightarrow> None
      | LHandle [] \<Rightarrow> Some (Inr (loop_handled s))
      | LHandle (c # cs) \<Rightarrow> Some (Inr (loop_handle c cs s))
      | LEmpty \<Rightarrow> Some (funcs_empty s)
      | LDrain \<Rightarrow> funcs_load s
      | LDequeue \<Rightarrow> funcs_dequeue s
      | LRun f \<Rightarrow> Some (Inr (funcs_ran f s))
      | LQuitFuncs \<Rightarrow> Some (quit_funcs s))"

text \<open>The poller reports the wakeup channel exactly when its counter is positive.\<close>

fun el_act :: "el_action \<Rightarrow> EventLoop \<Rightarrow> EventLoop result option" where
  "el_act (Queue t a f) s =
     (if may_call t s then map_option (\<lambda>r. and_then r (\<lambda>s1. Inr (set_caller t QEnqueue s1))) (on_funcs (Enq_New t a f) s)
      else None)"
| "el_act (Queue_Exchange t) s = (if callers s t = QEnqueue then on_funcs (Enq_Exchange t) s else None)"
| "el_act (Queue_Link t) s =
     (if callers s t = QEnqueue then map_option (\<lambda>r. and_then r (\<lambda>s1. Inr (set_caller t QCheck s1))) (on_funcs (Enq_Link t) s)
      else None)"
| "el_act (Queue_Check t) s = (if callers s t = QCheck then Some (Inr (queueInLoop_check t s)) else None)"
| "el_act (Wake t) s = (if callers s t = QWake then Some (Inr (set_caller t QIdle (wakeup s))) else None)"
| "el_act (Quit t) s = (if may_call t s then Some (Inr (quit_load t s)) else None)"
| "el_act (Quit_Store t) s = (if callers s t = QuitStore then Some (Inr (quit_store t s)) else None)"
| "el_act (On_Quit a f) s = (if heap (m_funcOnQuit s) a = None then Some (runOnQuit a f s) else None)"
| "el_act Loop s = (if callers s (m_tid s) = QIdle then loop_step s else None)"
| "el_act (Polled cs) s =
     (if loop_pc s = LPoll \<and> (0 \<in> set cs \<longleftrightarrow> wakeup_count s > 0) then Some (Inr (loop_polled cs s)) else None)"

inductive el_reach :: "EventLoop \<Rightarrow> bool" where
  start: "EventLoop_new this t a b timers tls = Inr (tls', s) \<Longrightarrow> el_reach s"
| step: "el_reach s \<Longrightarrow> el_act e s = Some (Inr s') \<Longrightarrow> el_reach s'"

fun run_el :: "el_action list \<Rightarrow> EventLoop \<Rightarrow> EventLoop result" where
  "run_el [] s = Inr s"
| "run_el (e # es) s = (case el_act e s of None \<Rightarrow> run_el es s | Some r \<Rightarrow> and_then r (run_el es))"

section \<open>The invariant\<close>

text \<open>Somebody is about to wake the loop, or it has been woken.\<close>

definition waking :: "EventLoop \<Rightarrow> bool" where
  "waking s \<longleftrightarrow> wakeup_count s > 0 \<or> (\<exists>t. callers s t \<in> {QEnqueue, QCheck, QWake})"

text \<open>The places from which the loop goes to the poller without looking at the queue again.\<close>

definition past_drain :: "loop_pc \<Rightarrow> bool" where
  "past_drain p \<longleftrightarrow> p \<in> {LIdle, LStarting, LCheck, LPoll, LQuitFuncs}"

definition el_inv :: "EventLoop \<Rightarrow> bool" where
  "el_inv s \<longleftrightarrow>
     reachable (m_funcs s) \<and> quiescent (m_funcOnQuit s) \<and>
     (\<forall>t. producers (m_funcs s) t \<noteq> PIdle \<longleftrightarrow> callers s t = QEnqueue) \<and>
     (consumer (m_funcs s) = CIdle \<longleftrightarrow> loop_pc s \<noteq> LDequeue) \<and>
     (m_looping s \<longleftrightarrow> loop_pc s \<notin> {LIdle, LQuitFuncs}) \<and>
     (loop_pc s \<in> {LStarting, LCheck, LPoll, LEmpty, LDrain, LDequeue} \<longrightarrow> callers s (m_tid s) = QIdle) \<and>
     (past_drain (loop_pc s) \<longrightarrow> queue_items (m_funcs s) = [] \<or> waking s) \<and>
     (loop_pc s = LPoll \<and> m_quit s \<longrightarrow> wakeup_count s > 0 \<or> (\<exists>t. callers s t = QWake))"

lemma el_invD:
  assumes "el_inv s"
  shows "reachable (m_funcs s)" and "quiescent (m_funcOnQuit s)"
    and "\<And>t. producers (m_funcs s) t \<noteq> PIdle \<longleftrightarrow> callers s t = QEnqueue"
    and "consumer (m_funcs s) = CIdle \<longleftrightarrow> loop_pc s \<noteq> LDequeue"
    and "m_looping s \<longleftrightarrow> loop_pc s \<notin> {LIdle, LQuitFuncs}"
    and "loop_pc s \<in> {LStarting, LCheck, LPoll, LEmpty, LDrain, LDequeue} \<Longrightarrow> callers s (m_tid s) = QIdle"
    and "past_drain (loop_pc s) \<Longrightarrow> queue_items (m_funcs s) = [] \<or> waking s"
    and "loop_pc s = LPoll \<Longrightarrow> m_quit s \<Longrightarrow> wakeup_count s > 0 \<or> (\<exists>t. callers s t = QWake)"
  using assms unfolding el_inv_def by blast+

section \<open>The queue of functions\<close>

lemma act_reachable:
  assumes "reachable q" and "act e q = Some r"
  obtains q' where "r = Inr q'" and "reachable q'"
proof -
  obtain ch where "mpsc_inv q ch" using reachable_inv [OF assms(1)] ..
  with mpsc_inv_act [OF this assms(2)] obtain q' where "r = Inr q'" by blast
  with assms that show thesis using reachable_act by blast
qed

lemma act_frame:
  "act (Enq_New t a f) q = Some (Inr q') \<Longrightarrow> producers q t = PIdle \<and> producers q' = (producers q)(t := PAllocated a) \<and>
     consumer q' = consumer q \<and> queue_items q' = queue_items q"
  "act (Enq_Exchange t) q = Some (Inr q') \<Longrightarrow> (\<exists>p. p \<noteq> PIdle \<and> producers q' = (producers q)(t := p)) \<and> consumer q' = consumer q"
  "act (Enq_Link t) q = Some (Inr q') \<Longrightarrow> producers q' = (producers q)(t := PIdle) \<and> consumer q' = consumer q \<and>
     queue_items q' = queue_items q"
  "act Deq_Load q = Some (Inr q') \<Longrightarrow> producers q' = producers q \<and> queue_items q' = queue_items q"
  "act Deq_Take q = Some (Inr q') \<Longrightarrow> producers q' = producers q \<and> consumer q' \<noteq> CIdle"
  "act Deq_Store q = Some (Inr q') \<Longrightarrow> producers q' = producers q \<and> consumer q' \<noteq> CIdle"
  "act Deq_Delete q = Some (Inr q') \<Longrightarrow> producers q' = producers q \<and> consumer q' = CIdle"
  by (auto simp: enqueue_new_def enqueue_exchange_def enqueue_link_def dequeue_load_def dequeue_take_def
      dequeue_store_def dequeue_delete_def free_def queue_items_def deref_def Let_def
      split: if_splits producer.splits consumer.splits option.splits)

text \<open>An empty queue has no items, or a producer has not linked its node yet.\<close>

lemma empty_queue:
  assumes "reachable q"
  obtains e where "empty q = Inr e" and "e \<longrightarrow> queue_items q = [] \<or> (\<exists>t. producers q t \<noteq> PIdle)"
proof -
  obtain ch where ch: "mpsc_inv q ch" using reachable_inv [OF assms] ..
  then have c: "chain_inv q ch" by (simp add: mpsc_inv_def)
  then obtain n where n: "heap q (q_tail q) = Some n"
    using chain_alive [OF c, of "q_tail q"] chain_invD(1,3) [OF c] by (metis hd_in_set imageI not_None_eq)
  have "queue_items q = [] \<or> (\<exists>t. producers q t \<noteq> PIdle)" if "nextPtr n = None"
  proof (rule ccontr)
    assume "\<not> ?thesis"
    then have "tl ch \<noteq> []" "\<And>t p m. producers q t \<noteq> PExchanged p m" using queue_items_chain [OF ch] by auto
    from chain_linked [OF ch this] that n show False by (simp add: next_of_def)
  qed
  with n that show thesis by (simp add: empty_def deref_def)
qed

section \<open>Every step keeps the invariant\<close>

lemma on_funcs_cases:
  assumes "on_funcs e s = Some r" and "reachable (m_funcs s)"
  obtains q where "act e (m_funcs s) = Some (Inr q)" and "r = Inr (s\<lparr>m_funcs := q\<rparr>)" and "reachable q"
proof -
  obtain r1 where r1: "act e (m_funcs s) = Some r1" "r = and_then r1 (\<lambda>q. Inr (s\<lparr>m_funcs := q\<rparr>))"
    using assms(1) by (auto simp: on_funcs_def)
  obtain q where "r1 = Inr q" "reachable q" by (rule act_reachable [OF assms(2) r1(1)])
  with r1 that show thesis by simp
qed

lemma EventLoop_new_inv: "EventLoop_new this t a b timers tls = Inr (tls', s) \<Longrightarrow> el_inv s"
  using mpsc_inv_new [of b undefined]
  by (auto simp: EventLoop_new_def el_inv_def quiescent_def MpscQueue_new_def queue_items_def past_drain_def
      intro: reachable_new [unfolded MpscQueue_new_def])

text \<open>Changes of the caller of one thread.\<close>

lemma set_caller_simps [simp]:
  "m_funcs (set_caller t p s) = m_funcs s" "m_funcOnQuit (set_caller t p s) = m_funcOnQuit s"
  "callers (set_caller t p s) = (callers s)(t := p)" "loop_pc (set_caller t p s) = loop_pc s"
  "m_looping (set_caller t p s) = m_looping s" "m_tid (set_caller t p s) = m_tid s"
  "wakeup_count (set_caller t p s) = wakeup_count s" "m_quit (set_caller t p s) = m_quit s"
  by (simp_all add: set_caller_def)

lemma waking_caller: "p \<in> {QEnqueue, QCheck, QWake} \<Longrightarrow> waking (set_caller t p s)"
  by (auto simp: waking_def)

lemma may_call_pc:
  "may_call t s \<Longrightarrow> callers s t = QIdle \<and>
     (t = m_tid s \<longrightarrow> loop_pc s \<notin> {LStarting, LCheck, LPoll, LEmpty, LDrain, LDequeue})"
  by (auto simp: may_call_def split: loop_pc.splits)

lemma wake_other: "\<exists>u. c u = QWake \<Longrightarrow> c t \<noteq> QWake \<Longrightarrow> \<exists>u. (c(t := p)) u = QWake"
  by (metis fun_upd_other)

lemma el_inv_caller:
  assumes inv: "el_inv s" and q: "reachable q" "consumer q = consumer (m_funcs s)"
    and p: "\<And>u. producers q u \<noteq> PIdle \<longleftrightarrow> ((callers s)(t := c)) u = QEnqueue"
    and t: "c = QIdle \<or> callers s t \<noteq> QIdle \<or> may_call t s"
    and d: "past_drain (loop_pc s) \<Longrightarrow> queue_items q = [] \<or> waking (set_caller t c s)"
    and w: "callers s t \<noteq> QWake"
  shows "el_inv (set_caller t c (s\<lparr>m_funcs := q\<rparr>))"
proof -
  note D = el_invD [OF inv]
  have 1: "waking (set_caller t c (s\<lparr>m_funcs := q\<rparr>)) = waking (set_caller t c s)" by (simp add: waking_def)
  have 2: "((callers s)(t := c)) (m_tid s) = QIdle" if "loop_pc s \<in> {LStarting, LCheck, LPoll, LEmpty, LDrain, LDequeue}"
    using D(6) [OF that] t may_call_pc [of t s] that by auto
  have 3: "wakeup_count s > 0 \<or> (\<exists>u. ((callers s)(t := c)) u = QWake)" if "loop_pc s = LPoll" "m_quit s"
    using D(8) [OF that] wake_other [of "callers s" t c] w by blast
  show ?thesis unfolding el_inv_def 1 using D(2,4,5) q p d 2 3 by simp
qed

lemma queue_step:
  assumes inv: "el_inv s" and act: "el_act (Queue t a f) s = Some r"
  obtains s' where "r = Inr s'" and "el_inv s'"
proof -
  note D = el_invD [OF inv]
  have m: "may_call t s" using act by (simp split: if_splits)
  obtain r1 where r1: "on_funcs (Enq_New t a f) s = Some r1" "r = and_then r1 (\<lambda>s1. Inr (set_caller t QEnqueue s1))"
    using act by (auto split: if_splits)
  obtain q where q: "act (Enq_New t a f) (m_funcs s) = Some (Inr q)" "r1 = Inr (s\<lparr>m_funcs := q\<rparr>)" "reachable q"
    by (rule on_funcs_cases [OF r1(1) D(1)])
  note fr = act_frame(1) [OF q(1)]
  have "el_inv (set_caller t QEnqueue (s\<lparr>m_funcs := q\<rparr>))"
    by (rule el_inv_caller [OF inv q(3)]) (use D(3) may_call_pc [OF m] m fr waking_caller in auto)
  with r1(2) q(2) that show thesis by simp
qed

lemma link_step:
  assumes inv: "el_inv s" and act: "el_act (Queue_Link t) s = Some r"
  obtains s' where "r = Inr s'" and "el_inv s'"
proof -
  note D = el_invD [OF inv]
  have c: "callers s t = QEnqueue" using act by (simp split: if_splits)
  obtain r1 where r1: "on_funcs (Enq_Link t) s = Some r1" "r = and_then r1 (\<lambda>s1. Inr (set_caller t QCheck s1))"
    using act by (auto split: if_splits)
  obtain q where q: "act (Enq_Link t) (m_funcs s) = Some (Inr q)" "r1 = Inr (s\<lparr>m_funcs := q\<rparr>)" "reachable q"
    by (rule on_funcs_cases [OF r1(1) D(1)])
  note fr = act_frame(3) [OF q(1)]
  have "el_inv (set_caller t QCheck (s\<lparr>m_funcs := q\<rparr>))"
    by (rule el_inv_caller [OF inv q(3)]) (use D(3) c fr waking_caller in auto)
  with r1(2) q(2) that show thesis by simp
qed

lemma exchange_step:
  assumes inv: "el_inv s" and act: "el_act (Queue_Exchange t) s = Some r"
  obtains s' where "r = Inr s'" and "el_inv s'"
proof -
  note D = el_invD [OF inv]
  have c: "callers s t = QEnqueue" and a: "on_funcs (Enq_Exchange t) s = Some r" using act by (auto split: if_splits)
  obtain q where q: "act (Enq_Exchange t) (m_funcs s) = Some (Inr q)" "r = Inr (s\<lparr>m_funcs := q\<rparr>)" "reachable q"
    by (rule on_funcs_cases [OF a D(1)])
  obtain p where p: "p \<noteq> PIdle" "producers q = (producers (m_funcs s))(t := p)" "consumer q = consumer (m_funcs s)"
    using act_frame(2) [OF q(1)] by blast
  have "waking (s\<lparr>m_funcs := q\<rparr>)" using c by (auto simp: waking_def)
  moreover have "\<And>u. producers q u \<noteq> PIdle \<longleftrightarrow> callers s u = QEnqueue" using p(1,2) D(3) c by simp
  ultimately have "el_inv (s\<lparr>m_funcs := q\<rparr>)"
    using D(2,4-6,8) p(3) q(3) unfolding el_inv_def by simp
  with q(2) that show thesis by simp
qed

text \<open>The other steps of callers.\<close>

lemma waking_mono:
  assumes "waking s" and "callers s t \<notin> {QEnqueue, QCheck, QWake}"
  shows "waking (set_caller t p s)"
proof (cases "wakeup_count s > 0")
  case False
  then obtain u where u: "callers s u \<in> {QEnqueue, QCheck, QWake}" using assms(1) by (auto simp: waking_def)
  then have "u \<noteq> t" using assms(2) by blast
  with u show ?thesis unfolding waking_def by (intro disjI2 exI [of _ u]) simp
qed (simp add: waking_def)

lemma caller_away:
  assumes "el_inv s" and "callers s t \<noteq> QIdle" and "m_looping s" and "past_drain (loop_pc s)"
  shows "t \<noteq> m_tid s"
  using el_invD(5,6) [OF assms(1)] assms(2-4) by (auto simp: past_drain_def)

lemma check_step:
  assumes inv: "el_inv s" and c: "callers s t = QCheck"
  shows "el_inv (queueInLoop_check t s)"
proof -
  note D = el_invD [OF inv]
  let ?c = "if \<not> isInLoopThread t s \<or> \<not> m_looping s then QWake else QIdle"
  have "?c = QWake" if "past_drain (loop_pc s)"
    using caller_away [OF inv, of t] that c by (auto simp: isInLoopThread_def)
  then have d: "past_drain (loop_pc s) \<Longrightarrow> waking (set_caller t ?c s)" using waking_caller [of QWake t s] by simp
  have "el_inv (set_caller t ?c (s\<lparr>m_funcs := m_funcs s\<rparr>))"
    by (rule el_inv_caller [OF inv D(1) refl]) (use D(3) c d in simp_all)
  then show ?thesis by (simp add: queueInLoop_check_def)
qed

lemma wake_step:
  assumes inv: "el_inv s" and c: "callers s t = QWake"
  shows "el_inv (set_caller t QIdle (wakeup s))"
proof -
  note D = el_invD [OF inv]
  have "((callers s)(t := QIdle)) (m_tid s) = QIdle" if "loop_pc s \<in> {LStarting, LCheck, LPoll, LEmpty, LDrain, LDequeue}"
    using D(6) [OF that] by simp
  moreover have "producers (m_funcs s) u \<noteq> PIdle \<longleftrightarrow> ((callers s)(t := QIdle)) u = QEnqueue" for u
    using D(3) c by simp
  ultimately show ?thesis using D(1,2,4,5) unfolding el_inv_def by (simp add: wakeup_def waking_def)
qed

lemma quit_steps:
  assumes inv: "el_inv s"
  shows "may_call t s \<Longrightarrow> el_inv (quit_load t s)" and "callers s t = QuitStore \<Longrightarrow> el_inv (quit_store t s)"
proof -
  note D = el_invD [OF inv]
  show "el_inv (quit_load t s)" if m: "may_call t s"
  proof -
    have c: "callers s t = QIdle" using may_call_pc [OF m] by simp
    have "el_inv (set_caller t QuitStore (s\<lparr>m_funcs := m_funcs s\<rparr>))"
      by (rule el_inv_caller [OF inv D(1) refl]) (use D(3,7) c m waking_mono [of s t QuitStore] in auto)
    with inv show ?thesis by (simp add: quit_load_def)
  qed
  show "el_inv (quit_store t s)" if c: "callers s t = QuitStore"
  proof -
    let ?c = "if \<not> isInLoopThread t s then QWake else QIdle"
    have "el_inv (set_caller t ?c (s\<lparr>m_funcs := m_funcs s\<rparr>))"
      by (rule el_inv_caller [OF inv D(1) refl]) (use D(3,7) c waking_mono [of s t ?c] in auto)
    then have i: "el_inv (set_caller t ?c s)" by simp
    have "\<exists>u. ((callers s)(t := ?c)) u = QWake" if "loop_pc s = LPoll"
      using caller_away [OF inv, of t] D(5) that c by (intro exI [of _ t]) (simp add: isInLoopThread_def past_drain_def)
    then show ?thesis using el_invD(1-7) [OF i]
      unfolding el_inv_def quit_store_def by (simp add: isInLoopThread_def waking_def)
  qed
qed

lemma on_quit_step:
  assumes inv: "el_inv s" and "heap (m_funcOnQuit s) a = None"
  shows "\<exists>s'. runOnQuit a f s = Inr s' \<and> el_inv s'"
proof -
  note D = el_invD [OF inv]
  obtain q where q: "enqueue 0 a f (m_funcOnQuit s) = Inr q" "quiescent q" using mpsc.enq_law [OF D(2) assms(2), of f] by blast
  have "el_inv (s\<lparr>m_funcOnQuit := q\<rparr>)" using D q(2) unfolding el_inv_def by (simp add: waking_def)
  with q(1) show ?thesis by (simp add: runOnQuit_def)
qed

text \<open>Steps of the loop that leave the queue alone.\<close>

lemma loop_flag_steps:
  assumes inv: "el_inv s" and c: "callers s (m_tid s) = QIdle"
  shows "loop_pc s = LIdle \<Longrightarrow> \<exists>s'. loop_start s = Inr s' \<and> el_inv s'"
    and "loop_pc s = LStarting \<Longrightarrow> el_inv (loop_reset s)"
    and "loop_pc s = LCheck \<Longrightarrow> el_inv (loop_check s)"
    and "loop_pc s = LHandle [] \<Longrightarrow> el_inv (loop_handled s)"
    and "loop_pc s = LHandle (x # xs) \<Longrightarrow> el_inv (loop_handle x xs s)"
    and "loop_pc s = LRun f \<Longrightarrow> el_inv (funcs_ran f s)"
    and "loop_pc s = LPoll \<Longrightarrow> el_inv (loop_polled cs s)"
proof -
  note D = el_invD [OF inv]
  show "\<exists>s'. loop_start s = Inr s' \<and> el_inv s'" if "loop_pc s = LIdle"
    using D(1-5,7) c that unfolding el_inv_def by (simp add: loop_start_def waking_def past_drain_def)
  show "el_inv (loop_reset s)" if "loop_pc s = LStarting"
    using D(1-5,7) c that unfolding el_inv_def by (simp add: loop_reset_def waking_def past_drain_def)
  show "el_inv (loop_check s)" if "loop_pc s = LCheck"
    using D(1-5,7) c that unfolding el_inv_def by (simp add: loop_check_def waking_def past_drain_def)
  show "el_inv (loop_handled s)" if "loop_pc s = LHandle []"
    using D(1-5) c that unfolding el_inv_def by (simp add: loop_handled_def past_drain_def)
  show "el_inv (loop_handle x xs s)" if "loop_pc s = LHandle (x # xs)"
    using D(1-5) that unfolding el_inv_def by (simp add: loop_handle_def wakeupRead_def past_drain_def Let_def)
  show "el_inv (funcs_ran f s)" if "loop_pc s = LRun f"
    using D(1-5) c that unfolding el_inv_def by (simp add: funcs_ran_def past_drain_def)
  show "el_inv (loop_polled cs s)" if "loop_pc s = LPoll"
    using D(1-5) that unfolding el_inv_def by (simp add: loop_polled_def past_drain_def)
qed

lemma loop_queue_steps:
  assumes inv: "el_inv s" and c: "callers s (m_tid s) = QIdle"
  shows "loop_pc s = LEmpty \<Longrightarrow> \<exists>s'. funcs_empty s = Inr s' \<and> el_inv s'"
    and "loop_pc s = LQuitFuncs \<Longrightarrow> \<exists>s'. quit_funcs s = Inr s' \<and> el_inv s'"
    and "loop_pc s = LDrain \<Longrightarrow> funcs_load s = Some r \<Longrightarrow> \<exists>s'. r = Inr s' \<and> el_inv s'"
    and "loop_pc s = LDequeue \<Longrightarrow> funcs_dequeue s = Some r \<Longrightarrow> \<exists>s'. r = Inr s' \<and> el_inv s'"
proof -
  note D = el_invD [OF inv]
  show "\<exists>s'. funcs_empty s = Inr s' \<and> el_inv s'" if pc: "loop_pc s = LEmpty"
  proof -
    obtain e where e: "empty (m_funcs s) = Inr e" "e \<longrightarrow> queue_items (m_funcs s) = [] \<or> (\<exists>t. producers (m_funcs s) t \<noteq> PIdle)"
      by (rule empty_queue [OF D(1)])
    have "queue_items (m_funcs s) = [] \<or> waking s" if e using e(2) that D(3) by (auto simp: waking_def)
    with e(1) D(1-5) c pc show ?thesis unfolding el_inv_def
      by (cases e) (simp_all add: funcs_empty_def past_drain_def waking_def)
  qed
  show "\<exists>s'. quit_funcs s = Inr s' \<and> el_inv s'" if pc: "loop_pc s = LQuitFuncs"
  proof -
    have "\<exists>f q. dequeue (m_funcOnQuit s) = Inr (f, q) \<and> quiescent q"
      using mpsc.deq_nil [OF D(2)] mpsc.deq_cons [OF D(2)] D(2) by (cases "queue_items (m_funcOnQuit s)") blast+
    then obtain f q where "dequeue (m_funcOnQuit s) = Inr (f, q)" "quiescent q" by blast
    with D(1,3-5,7) pc show ?thesis unfolding el_inv_def
      by (cases f) (simp_all add: quit_funcs_def Let_def past_drain_def waking_def)
  qed
  show "\<exists>s'. r = Inr s' \<and> el_inv s'" if pc: "loop_pc s = LDrain" and eq: "funcs_load s = Some r"
  proof -
    obtain r1 where r1: "on_funcs Deq_Load s = Some r1" "r = and_then r1 (\<lambda>s1.
        Inr (s1\<lparr>loop_pc := if consumer (m_funcs s1) = CIdle then LEmpty else LDequeue\<rparr>))"
      using eq by (auto simp: funcs_load_def)
    obtain q where q: "act Deq_Load (m_funcs s) = Some (Inr q)" "r1 = Inr (s\<lparr>m_funcs := q\<rparr>)" "reachable q"
      by (rule on_funcs_cases [OF r1(1) D(1)])
    note fr = act_frame(4) [OF q(1)]
    show ?thesis using D(2,3,5) c pc fr q(2,3) r1(2) unfolding el_inv_def
      by (cases "consumer q = CIdle") (simp_all add: past_drain_def)
  qed
  show "\<exists>s'. r = Inr s' \<and> el_inv s'" if pc: "loop_pc s = LDequeue" and eq: "funcs_dequeue s = Some r"
  proof -
    have keep: "el_inv (s\<lparr>m_funcs := q, loop_pc := p\<rparr>)" if "reachable q" "producers q = producers (m_funcs s)"
      "consumer q = CIdle \<longleftrightarrow> p \<noteq> LDequeue" "p = LDequeue \<or> p = LRun f" for q p f
      using D(2,3,5) c pc that unfolding el_inv_def by (auto simp: past_drain_def)
    have same: "s\<lparr>m_funcs := q\<rparr> = s\<lparr>m_funcs := q, loop_pc := LDequeue\<rparr>" for q using pc by simp
    show ?thesis
    proof (cases "consumer (m_funcs s)")
      case (CLoaded a b)
      then have "on_funcs Deq_Take s = Some r" using eq by (simp add: funcs_dequeue_def)
      then obtain q where "act Deq_Take (m_funcs s) = Some (Inr q)" "r = Inr (s\<lparr>m_funcs := q\<rparr>)" "reachable q"
        using on_funcs_cases D(1) by blast
      with act_frame(5) [OF this(1)] keep [of q LDequeue] same show ?thesis by auto
    next
      case (CTaken a b f)
      then have "on_funcs Deq_Store s = Some r" using eq by (simp add: funcs_dequeue_def)
      then obtain q where "act Deq_Store (m_funcs s) = Some (Inr q)" "r = Inr (s\<lparr>m_funcs := q\<rparr>)" "reachable q"
        using on_funcs_cases D(1) by blast
      with act_frame(6) [OF this(1)] keep [of q LDequeue] same show ?thesis by auto
    next
      case (CStored a f)
      then obtain r1 where r1: "on_funcs Deq_Delete s = Some r1" "r = and_then r1 (\<lambda>s1. Inr (s1\<lparr>loop_pc := LRun f\<rparr>))"
        using eq by (auto simp: funcs_dequeue_def)
      obtain q where q: "act Deq_Delete (m_funcs s) = Some (Inr q)" "r1 = Inr (s\<lparr>m_funcs := q\<rparr>)" "reachable q"
        by (rule on_funcs_cases [OF r1(1) D(1)])
      with act_frame(7) [OF q(1)] keep [of q "LRun f"] r1(2) show ?thesis by auto
    qed (use eq in \<open>simp add: funcs_dequeue_def\<close>)
  qed
qed

lemma el_act_inv:
  assumes inv: "el_inv s" and act: "el_act e s = Some r"
  shows "\<exists>s'. r = Inr s' \<and> el_inv s'"
proof (cases e)
  case (Queue t a f)
  with queue_step [OF inv, of t a f] act show ?thesis by blast
next
  case (Queue_Exchange t)
  with exchange_step [OF inv, of t] act show ?thesis by blast
next
  case (Queue_Link t)
  with link_step [OF inv, of t] act show ?thesis by blast
next
  case Loop
  then have c: "callers s (m_tid s) = QIdle" and l: "loop_step s = Some r" using act by (auto split: if_splits)
  note L = loop_flag_steps [OF inv c] loop_queue_steps [OF inv c]
  show ?thesis
  proof (cases "loop_pc s")
    case (LHandle cs)
    then show ?thesis using l L(4,5) by (cases cs) (auto simp: loop_step_def)
  qed (use l L in \<open>auto simp: loop_step_def\<close>)
next
  case (Polled cs)
  then show ?thesis using act loop_flag_steps(7) [OF inv] el_invD(6) [OF inv] by (auto split: if_splits)
qed (use act check_step [OF inv] wake_step [OF inv] quit_steps [OF inv] on_quit_step [OF inv] in \<open>auto split: if_splits\<close>)

lemma el_reach_inv: "el_reach s \<Longrightarrow> el_inv s"
proof (induction rule: el_reach.induct)
  case (step s e s')
  then show ?case using el_act_inv by fastforce
qed (rule EventLoop_new_inv)

lemma run_el_ok: "el_reach s \<Longrightarrow> \<exists>s'. run_el es s = Inr s' \<and> el_reach s'"
proof (induction es arbitrary: s)
  case (Cons e es)
  show ?case
  proof (cases "el_act e s")
    case (Some r)
    obtain s' where "r = Inr s'" using el_act_inv [OF el_reach_inv [OF Cons.prems] Some] by blast
    with Some Cons show ?thesis using el_reach.step by fastforce
  qed (use Cons in simp)
qed simp

section \<open>Functions run once and in order\<close>

definition in_hand :: "loop_pc \<Rightarrow> nat consumer \<Rightarrow> nat list" where
  "in_hand p c = (case p of LRun f \<Rightarrow> [f] | LDequeue \<Rightarrow> (case c of CStored t f \<Rightarrow> [f] | _ \<Rightarrow> []) | _ \<Rightarrow> [])"

definition el_ran :: "EventLoop \<Rightarrow> bool" where
  "el_ran s \<longleftrightarrow> dequeued (m_funcs s) = ran_funcs s @ in_hand (loop_pc s) (consumer (m_funcs s))"

lemma act_dequeued:
  "act (Enq_New t a f) q = Some (Inr q') \<Longrightarrow> dequeued q' = dequeued q \<and> consumer q' = consumer q"
  "act (Enq_Exchange t) q = Some (Inr q') \<Longrightarrow> dequeued q' = dequeued q \<and> consumer q' = consumer q"
  "act (Enq_Link t) q = Some (Inr q') \<Longrightarrow> dequeued q' = dequeued q \<and> consumer q' = consumer q"
  "act Deq_Load q = Some (Inr q') \<Longrightarrow> dequeued q' = dequeued q \<and> (\<forall>t x. consumer q' \<noteq> CStored t x)"
  "act Deq_Take q = Some (Inr q') \<Longrightarrow> dequeued q' = dequeued q \<and> (\<forall>t x. consumer q' \<noteq> CStored t x)"
  "consumer q = CTaken t n x \<Longrightarrow> act Deq_Store q = Some (Inr q') \<Longrightarrow> dequeued q' = dequeued q @ [x] \<and> consumer q' = CStored t x"
  "act Deq_Delete q = Some (Inr q') \<Longrightarrow> dequeued q' = dequeued q"
  by (auto simp: enqueue_new_def enqueue_exchange_def enqueue_link_def dequeue_load_def dequeue_take_def
      dequeue_store_def dequeue_delete_def free_def deref_def Let_def
      split: if_splits producer.splits consumer.splits option.splits)

lemma on_funcs_Inr:
  "on_funcs e s = Some (Inr s') \<Longrightarrow> \<exists>q. act e (m_funcs s) = Some (Inr q) \<and> s' = s\<lparr>m_funcs := q\<rparr>"
  by (auto simp: on_funcs_def)

lemma set_caller_ran [simp]: "el_ran (set_caller t p s) = el_ran s"
  by (simp add: el_ran_def set_caller_def)

lemma enqueue_ran:
  assumes "on_funcs e s = Some (Inr s')" and "e \<in> {Enq_New t a f, Enq_Exchange t, Enq_Link t}" and "el_ran s"
  shows "el_ran s'"
proof -
  obtain q where q: "act e (m_funcs s) = Some (Inr q)" "s' = s\<lparr>m_funcs := q\<rparr>" using on_funcs_Inr [OF assms(1)] by blast
  from assms(2) consider "e = Enq_New t a f" | "e = Enq_Exchange t" | "e = Enq_Link t" by blast
  then have "dequeued q = dequeued (m_funcs s) \<and> consumer q = consumer (m_funcs s)"
  proof cases
    case 1
    from q(1) [unfolded this] show ?thesis by (rule act_dequeued(1))
  next
    case 2
    from q(1) [unfolded this] show ?thesis by (rule act_dequeued(2))
  next
    case 3
    from q(1) [unfolded this] show ?thesis by (rule act_dequeued(3))
  qed
  with q(2) assms(3) show ?thesis by (simp add: el_ran_def)
qed

lemma loop_ran:
  assumes "el_inv s" and "el_ran s" and "loop_step s = Some (Inr s')"
  shows "el_ran s'"
proof (cases "loop_pc s")
  case LDrain
  then have "on_funcs Deq_Load s \<noteq> None" using assms(3) by (auto simp: loop_step_def funcs_load_def)
  then obtain s1 where s1: "on_funcs Deq_Load s = Some (Inr s1)"
    "s' = s1\<lparr>loop_pc := if consumer (m_funcs s1) = CIdle then LEmpty else LDequeue\<rparr>"
    using assms(3) LDrain by (auto simp: loop_step_def funcs_load_def)
  from on_funcs_Inr [OF s1(1)] obtain q where q: "act Deq_Load (m_funcs s) = Some (Inr q)" "s1 = s\<lparr>m_funcs := q\<rparr>" by blast
  show ?thesis using act_dequeued(4) [OF q(1)] q(2) s1(2) assms(2) LDrain
    by (auto simp: el_ran_def in_hand_def split: consumer.split)
next
  case LDequeue
  show ?thesis
  proof (cases "consumer (m_funcs s)")
    case (CLoaded a b)
    with assms(3) LDequeue have on: "on_funcs Deq_Take s = Some (Inr s')" by (simp add: loop_step_def funcs_dequeue_def)
    obtain q where "act Deq_Take (m_funcs s) = Some (Inr q)" "s' = s\<lparr>m_funcs := q\<rparr>" using on_funcs_Inr [OF on] by blast
    with act_dequeued(5) [OF this(1)] assms(2) CLoaded LDequeue show ?thesis
      by (auto simp: el_ran_def in_hand_def split: consumer.split)
  next
    case (CTaken a b f)
    with assms(3) LDequeue have on: "on_funcs Deq_Store s = Some (Inr s')" by (simp add: loop_step_def funcs_dequeue_def)
    obtain q where "act Deq_Store (m_funcs s) = Some (Inr q)" "s' = s\<lparr>m_funcs := q\<rparr>" using on_funcs_Inr [OF on] by blast
    with act_dequeued(6) [OF CTaken this(1)] assms(2) CTaken LDequeue show ?thesis
      by (simp add: el_ran_def in_hand_def)
  next
    case (CStored a f)
    with assms(3) LDequeue obtain s1 where s1: "on_funcs Deq_Delete s = Some (Inr s1)" "s' = s1\<lparr>loop_pc := LRun f\<rparr>"
      by (auto simp: loop_step_def funcs_dequeue_def)
    from on_funcs_Inr [OF s1(1)] obtain q where q: "act Deq_Delete (m_funcs s) = Some (Inr q)" "s1 = s\<lparr>m_funcs := q\<rparr>" by blast
    show ?thesis using act_dequeued(7) [OF q(1)] q(2) s1(2) assms(2) CStored LDequeue by (simp add: el_ran_def in_hand_def)
  qed (use assms(3) LDequeue in \<open>simp add: loop_step_def funcs_dequeue_def\<close>)
next
  case (LHandle cs)
  then show ?thesis using assms(2,3)
    by (cases cs) (auto simp: loop_step_def el_ran_def in_hand_def loop_handled_def loop_handle_def wakeupRead_def Let_def)
next
  case LQuitFuncs
  then obtain f q where "dequeue (m_funcOnQuit s) = Inr (f, q)" using assms(3) by (auto simp: loop_step_def quit_funcs_def)
  with LQuitFuncs assms(2,3) show ?thesis
    by (cases f) (auto simp: loop_step_def el_ran_def in_hand_def quit_funcs_def Let_def)
qed (use assms(2,3) in \<open>auto simp: loop_step_def el_ran_def in_hand_def loop_start_def loop_reset_def loop_check_def
      funcs_empty_def funcs_ran_def\<close>)

lemma el_act_ran:
  assumes "el_inv s" and "el_ran s" and "el_act e s = Some (Inr s')"
  shows "el_ran s'"
proof (cases e)
  case (Queue t a f)
  then show ?thesis using assms enqueue_ran [of "Enq_New t a f" s _ t a f] by (auto split: if_splits)
next
  case (Queue_Exchange t)
  then show ?thesis using assms enqueue_ran [of "Enq_Exchange t" s _ t] by (auto split: if_splits)
next
  case (Queue_Link t)
  then show ?thesis using assms enqueue_ran [of "Enq_Link t" s _ t] by (auto split: if_splits)
next
  case Loop
  then show ?thesis using assms loop_ran by (auto split: if_splits)
next
  case (Polled cs)
  then show ?thesis using assms by (auto simp: loop_polled_def el_ran_def in_hand_def split: if_splits)
qed (use assms in \<open>auto simp: queueInLoop_check_def wakeup_def quit_load_def quit_store_def runOnQuit_def el_ran_def
      set_caller_def split: if_splits\<close>)

lemma el_reach_ran: "el_reach s \<Longrightarrow> el_ran s"
proof (induction rule: el_reach.induct)
  case (step s e s')
  then show ?case using el_act_ran [OF el_reach_inv] by blast
qed (auto simp: EventLoop_new_def el_ran_def in_hand_def MpscQueue_new_def)

section \<open>Properties\<close>

definition demo_loop :: EventLoop where
  "demo_loop = snd (projr (EventLoop_new 1 7 0 0 (TimerQueue_new 0 0) Map.empty))"

lemma demo_loop_reach: "el_reach demo_loop"
  by (rule el_reach.start [of 1 7 0 0 "TimerQueue_new 0 0" Map.empty "[7 \<mapsto> 1]"])
    (simp add: demo_loop_def EventLoop_new_def)

text \<open>
  C3. No function and no request to quit is lost: whatever any number of threads and the loop do, in
  any interleaving of their accesses, when the loop waits in the poller with nothing to wake it and no
  thread is inside \<^verbatim>\<open>queueInLoop\<close> or about to set the flag in \<^verbatim>\<open>quit\<close>, every function ever handed over
  has been run, exactly once and in the order of the queue, and the loop has not been asked to quit.
\<close>

theorem eventloop_no_lost_wakeup:
  assumes "el_reach s" and "loop_pc s = LPoll" and "wakeup_count s = 0" and "\<And>t. callers s t \<in> {QIdle, QuitStore}"
  shows "ran_funcs s = enqueued (m_funcs s) \<and> \<not> m_quit s"
proof -
  have nw: "callers s t \<notin> {QEnqueue, QCheck, QWake}" for t using assms(4) [of t] by auto
  note I = el_reach_inv [OF assms(1)]
  note D = el_invD(7,8) [OF I]
  have q: "queue_items (m_funcs s) = []" "\<not> m_quit s" using D assms(2,3) nw by (auto simp: waking_def past_drain_def)
  obtain ch where "mpsc_inv (m_funcs s) ch" using reachable_inv [OF el_invD(1) [OF I]] ..
  then have "enqueued (m_funcs s) = dequeued (m_funcs s)" using q(1) queue_items_chain by (fastforce simp: mpsc_inv_def)
  with el_reach_ran [OF assms(1)] assms(2) q(2) show ?thesis by (simp add: el_ran_def in_hand_def)
qed

definition demo_schedule :: "el_action list" where
  "demo_schedule = [Queue 3 1 9, Queue_Exchange 3, Queue_Link 3, Queue_Check 3, Loop, Wake 3, Loop, Loop, Polled [0],
     Loop, Loop, Loop, Loop, Loop, Loop, Loop, Loop, Loop, Loop, Loop]"

lemmas demo_eval = may_call_def on_funcs_def set_caller_def MpscQueue_new_def enqueue_new_def enqueue_exchange_def
  enqueue_link_def deref_def queueInLoop_check_def isInLoopThread_def wakeup_def wakeupRead_def loop_step_def loop_start_def
  loop_reset_def loop_check_def loop_polled_def loop_handle_def loop_handled_def funcs_empty_def empty_def funcs_load_def
  dequeue_load_def funcs_dequeue_def dequeue_take_def dequeue_store_def dequeue_delete_def free_def funcs_ran_def Let_def

theorem eventloop_no_lost_wakeup_witness:
  "\<exists>s. run_el demo_schedule demo_loop = Inr s \<and> loop_pc s = LPoll \<and> enqueued (m_funcs s) = [9] \<and> ran_funcs s = [9]"
proof -
  obtain s where s: "run_el demo_schedule demo_loop = Inr s" "el_reach s"
    using run_el_ok [OF demo_loop_reach] by blast
  have e: "loop_pc s = LPoll" "wakeup_count s = 0" "callers s = (\<lambda>_. QIdle)" "enqueued (m_funcs s) = [9]"
    using s(1) by (simp_all add: demo_schedule_def demo_loop_def EventLoop_new_def demo_eval) auto
  with eventloop_no_lost_wakeup [OF s(2)] s(1) show ?thesis by auto
qed

end
