(* ===== verification/Connector.thy ===== *)
theory Connector
  imports Complex_Main Channel
begin

text \<open>
  \<^verbatim>\<open>netpoll/net/inner/connector.{h,cc}\<close>: the connector opens a non-blocking socket, waits until it is
  writable, and hands the descriptor to its owner, or closes it and tries again with a delay that
  doubles up to thirty seconds.

  The record keeps_handed, beside the members of the class, what its calls leave in the event loop (queued
  functions and pending timers), the callbacks it made, the descriptors it opened that are still open,
  and those among them that belong to the receiver of \<^verbatim>\<open>m_newConnectionCallback\<close>. The answers of the
  system (the new descriptor, the result of \<^verbatim>\<open>connect\<close>, \<^verbatim>\<open>SO_ERROR\<close>, whether the socket is connected to
  itself) are arguments. A handler runs as one step; the loop is set before any other call.
\<close>

section \<open>State\<close>

datatype Status = StatusDisconnected | StatusConnecting | StatusConnected

datatype conn_errno =
    E_OK | EINPROGRESS | EINTR | EISCONN
  | EAGAIN | EADDRINUSE | EADDRNOTAVAIL | ECONNREFUSED | ENETUNREACH
  | EACCES | EPERM | EAFNOSUPPORT | EALREADY | EBADF | EFAULT | ENOTSOCK
  | E_OTHER int

datatype connector_task = StartInLoop | RemoveAndResetChannel | KeepChannel Channel

datatype conn_cb = NewConnection int | ConnectionError

record Connector =
  cn_channelPtr :: "Channel option"
  cn_started :: bool
  cn_status :: Status
  cn_retryInterval :: int
  cn_maxRetryInterval :: int
  cn_retry :: bool
  cn_socketHanded :: bool
  cn_fd :: int
  cn_newConnectionCallback :: bool
  cn_errorCallback :: bool
  cn_tasks :: "connector_task list"
  cn_timers :: "rat list"
  cn_log :: "conn_cb list"
  cn_open :: "int set"
  cn_handed :: "int set"

definition kMaxRetryDelayMs :: int where "kMaxRetryDelayMs = 30 * 1000"

definition kInitRetryDelayMs :: int where "kInitRetryDelayMs = 500"

definition Connector_new :: "bool \<Rightarrow> Connector" where
  "Connector_new retry =
     \<lparr>cn_channelPtr = None, cn_started = False, cn_status = StatusDisconnected,
      cn_retryInterval = kInitRetryDelayMs, cn_maxRetryInterval = kMaxRetryDelayMs,
      cn_retry = retry, cn_socketHanded = False, cn_fd = -1,
      cn_newConnectionCallback = False, cn_errorCallback = False,
      cn_tasks = [], cn_timers = [], cn_log = [], cn_open = {}, cn_handed = {}\<rparr>"

definition setNewConnectionCallback :: "Connector \<Rightarrow> Connector" where
  "setNewConnectionCallback s = s\<lparr>cn_newConnectionCallback := True\<rparr>"

definition setErrorCallback :: "bool \<Rightarrow> Connector \<Rightarrow> Connector" where
  "setErrorCallback cb s = s\<lparr>cn_errorCallback := cb\<rparr>"

section \<open>Operations\<close>

definition close_fd :: "int \<Rightarrow> Connector \<Rightarrow> Connector result" where
  "close_fd fd s = (if fd \<in> cn_open s then Inr (s\<lparr>cn_open := cn_open s - {fd}\<rparr>) else Inl DoubleClose)"

definition error_callback :: "Connector \<Rightarrow> Connector" where
  "error_callback s = (if cn_errorCallback s then s\<lparr>cn_log := cn_log s @ [ConnectionError]\<rparr> else s)"

definition Connector_delete :: "Connector \<Rightarrow> Connector result" where
  "Connector_delete s = (if \<not> cn_socketHanded s \<and> cn_fd s \<noteq> -1 then close_fd (cn_fd s) s else Inr s)"

definition retry :: "int \<Rightarrow> Connector \<Rightarrow> Connector result" where
  "retry sockfd s =
     assert_that (cn_retry s)
       (and_then (close_fd sockfd s) (\<lambda>s.
          let s = s\<lparr>cn_status := StatusDisconnected\<rparr>
          in Inr (if cn_started s
                  then s\<lparr>cn_timers := cn_timers s @ [of_int (cn_retryInterval s) / 1000],
                         cn_retryInterval :=
                           (let i = cn_retryInterval s * 2
                            in if i > cn_maxRetryInterval s then cn_maxRetryInterval s else i)\<rparr>
                  else s)))"

text \<open>The channel that \<open>connecting\<close> makes: three callbacks, and interest in writing only.\<close>

definition connecting_channel :: "int \<Rightarrow> Channel" where
  "connecting_channel sockfd =
     (Channel_new sockfd)\<lparr>ch_writeCallback := True, ch_errorCallback := True, ch_closeCallback := True,
                         ch_events := enableWriting 0, ch_addedToLoop := True\<rparr>"

definition connecting :: "int \<Rightarrow> Connector \<Rightarrow> Connector result" where
  "connecting sockfd s =
     (let s = s\<lparr>cn_status := StatusConnecting\<rparr>
      in assert_that (cn_channelPtr s = None)
           (Inr (s\<lparr>cn_channelPtr := Some (connecting_channel sockfd)\<rparr>)))"

definition progress_errnos :: "conn_errno list" where
  "progress_errnos = [E_OK, EINPROGRESS, EINTR, EISCONN]"

definition retry_errnos :: "conn_errno list" where
  "retry_errnos = [EAGAIN, EADDRINUSE, EADDRNOTAVAIL, ECONNREFUSED, ENETUNREACH]"

definition connect :: "int \<Rightarrow> conn_errno \<Rightarrow> Connector \<Rightarrow> Connector result" where
  "connect fd savedErrno s =
     (let s = s\<lparr>cn_socketHanded := False, cn_fd := fd, cn_open := insert fd (cn_open s)\<rparr>
      in if savedErrno \<in> set progress_errnos then connecting fd s
         else if savedErrno \<in> set retry_errnos then (if cn_retry s then retry fd s else Inr s)
         else and_then (close_fd fd (s\<lparr>cn_socketHanded := True\<rparr>)) (\<lambda>s. Inr (error_callback s)))"

definition startInLoop :: "int \<Rightarrow> conn_errno \<Rightarrow> Connector \<Rightarrow> Connector result" where
  "startInLoop fd e s =
     assert_that (cn_status s = StatusDisconnected)
       (if cn_started s then connect fd e s else Inr s)"

definition start :: "bool \<Rightarrow> int \<Rightarrow> conn_errno \<Rightarrow> Connector \<Rightarrow> Connector result" where
  "start inLoop fd e s =
     (let s = s\<lparr>cn_started := True\<rparr>
      in if inLoop then startInLoop fd e s else Inr (s\<lparr>cn_tasks := cn_tasks s @ [StartInLoop]\<rparr>))"

definition removeAndResetChannel :: "Connector \<Rightarrow> int \<times> Connector" where
  "removeAndResetChannel s =
     (case cn_channelPtr s of
        None \<Rightarrow> (-1, s)
      | Some c \<Rightarrow>
          (ch_fd c,
           s\<lparr>cn_channelPtr := None,
             cn_tasks := cn_tasks s @
               [KeepChannel (c\<lparr>ch_events := disableAll (ch_events c), ch_addedToLoop := False\<rparr>)]\<rparr>))"

definition stop :: "bool \<Rightarrow> Connector \<Rightarrow> Connector" where
  "stop inLoop s =
     (let s = s\<lparr>cn_started := False, cn_status := StatusDisconnected\<rparr>
      in if inLoop then snd (removeAndResetChannel s)
         else s\<lparr>cn_tasks := cn_tasks s @ [RemoveAndResetChannel]\<rparr>)"

definition restart :: "bool \<Rightarrow> int \<Rightarrow> conn_errno \<Rightarrow> Connector \<Rightarrow> Connector result" where
  "restart inLoop fd e s = start inLoop fd e (stop inLoop s)"

text \<open>Both failures of \<open>handleWrite\<close>, an error of the socket and a connection to itself, end the same way.\<close>

definition give_up :: "int \<Rightarrow> Connector \<Rightarrow> Connector result" where
  "give_up sockfd s =
     and_then (if cn_retry s then retry sockfd s
               else close_fd sockfd (s\<lparr>cn_socketHanded := True\<rparr>))
       (\<lambda>s. Inr (error_callback s))"

definition newConnection :: "int \<Rightarrow> Connector \<Rightarrow> Connector result" where
  "newConnection sockfd s =
     (if cn_newConnectionCallback s
      then Inr (s\<lparr>cn_log := cn_log s @ [NewConnection sockfd], cn_handed := insert sockfd (cn_handed s)\<rparr>)
      else Inl BadFunctionCall)"

definition handleWrite :: "int \<Rightarrow> bool \<Rightarrow> Connector \<Rightarrow> Connector result" where
  "handleWrite err selfConnect s =
     (let s = s\<lparr>cn_socketHanded := True\<rparr>
      in if cn_status s = StatusConnecting
         then (let (sockfd, s) = removeAndResetChannel s
               in if err \<noteq> 0 then give_up sockfd s
                  else if selfConnect then give_up sockfd s
                  else (let s = s\<lparr>cn_status := StatusConnected\<rparr>
                        in if cn_started s then newConnection sockfd s
                           else close_fd sockfd (s\<lparr>cn_socketHanded := True\<rparr>)))
         else assert_that (cn_status s = StatusDisconnected) (Inr s))"

definition handleError :: "Connector \<Rightarrow> Connector result" where
  "handleError s =
     (let s = s\<lparr>cn_socketHanded := True\<rparr>
      in if cn_status s = StatusConnecting
         then (let s = s\<lparr>cn_status := StatusDisconnected\<rparr>;
                   (sockfd, s) = removeAndResetChannel s
               in and_then (if cn_retry s then retry sockfd s else close_fd sockfd s)
                    (\<lambda>s. Inr (error_callback s)))
         else Inr s)"

section \<open>Runs\<close>

text \<open>The callbacks of the channel, and the events that the poller reports for it.\<close>

fun run_callbacks :: "event_cb list \<Rightarrow> int \<Rightarrow> bool \<Rightarrow> Connector \<Rightarrow> Connector result" where
  "run_callbacks [] err self s = Inr s"
| "run_callbacks (cb # cbs) err self s =
     and_then (case cb of
                 WriteCB \<Rightarrow> handleWrite err self s
               | ErrorCB \<Rightarrow> handleError s
               | CloseCB \<Rightarrow> handleError s
               | _ \<Rightarrow> Inr s)
       (run_callbacks cbs err self)"

definition channel_event :: "platform \<Rightarrow> 32 word \<Rightarrow> int \<Rightarrow> bool \<Rightarrow> Connector \<Rightarrow> Connector result" where
  "channel_event p revents err self s =
     (case cn_channelPtr s of
        None \<Rightarrow> Inr s
      | Some c \<Rightarrow>
          (let c = setRevents revents c
           in run_callbacks (handleEvent p c) err self (s\<lparr>cn_channelPtr := Some c\<rparr>)))"

definition run_loop_task :: "connector_task \<Rightarrow> int \<Rightarrow> conn_errno \<Rightarrow> Connector \<Rightarrow> Connector result" where
  "run_loop_task t fd e s =
     (case t of
        StartInLoop \<Rightarrow> startInLoop fd e s
      | RemoveAndResetChannel \<Rightarrow> Inr (snd (removeAndResetChannel s))
      | KeepChannel c \<Rightarrow> Inr s)"

datatype conn_act =
    DoStart bool int conn_errno
  | DoStop bool
  | DoRestart bool int conn_errno
  | RunTask int conn_errno
  | TimerFires int conn_errno
  | ChannelEvent "32 word" int bool
  | OwnerCloses int

text \<open>
  \<open>None\<close> when the action cannot happen: no function is queued, no timer runs, the descriptor that the
  system would return is still open, or the descriptor is not the owner's.
\<close>

definition conn_step :: "platform \<Rightarrow> conn_act \<Rightarrow> Connector \<Rightarrow> Connector result option" where
  "conn_step p a s =
     (case a of
        DoStart inLoop fd e \<Rightarrow> if 0 \<le> fd \<and> fd \<notin> cn_open s then Some (start inLoop fd e s) else None
      | DoStop inLoop \<Rightarrow> Some (Inr (stop inLoop s))
      | DoRestart inLoop fd e \<Rightarrow> if 0 \<le> fd \<and> fd \<notin> cn_open s then Some (restart inLoop fd e s) else None
      | RunTask fd e \<Rightarrow>
          (case cn_tasks s of
             [] \<Rightarrow> None
           | t # ts \<Rightarrow> if 0 \<le> fd \<and> fd \<notin> cn_open s then Some (run_loop_task t fd e (s\<lparr>cn_tasks := ts\<rparr>)) else None)
      | TimerFires fd e \<Rightarrow>
          (case cn_timers s of
             [] \<Rightarrow> None
           | d # ds \<Rightarrow> if 0 \<le> fd \<and> fd \<notin> cn_open s then Some (startInLoop fd e (s\<lparr>cn_timers := ds\<rparr>)) else None)
      | ChannelEvent r err self \<Rightarrow> Some (channel_event p r err self s)
      | OwnerCloses fd \<Rightarrow>
          if fd \<in> cn_handed s
          then Some (Inr (s\<lparr>cn_handed := cn_handed s - {fd}, cn_open := cn_open s - {fd}\<rparr>))
          else None)"

text \<open>
  What the assertions of \<open>startInLoop\<close> and \<open>connecting\<close> ask of the owner: no attempt is under way or
  planned when it starts the connector.
\<close>

definition no_attempt :: "Connector \<Rightarrow> bool" where
  "no_attempt s \<longleftrightarrow> cn_timers s = [] \<and> StartInLoop \<notin> set (cn_tasks s)"

definition owner_ok :: "conn_act \<Rightarrow> Connector \<Rightarrow> bool" where
  "owner_ok a s =
     (case a of
        DoStart inLoop fd e \<Rightarrow>
          no_attempt s \<and> cn_status s = StatusDisconnected \<and> (inLoop \<longrightarrow> cn_channelPtr s = None)
      | DoRestart inLoop fd e \<Rightarrow> no_attempt s
      | _ \<Rightarrow> True)"

inductive connector_reach :: "platform \<Rightarrow> Connector \<Rightarrow> bool" for p where
  init: "connector_reach p (setErrorCallback cb (setNewConnectionCallback (Connector_new r)))"
| step: "connector_reach p s \<Longrightarrow> owner_ok a s \<Longrightarrow> conn_step p a s = Some (Inr s') \<Longrightarrow> connector_reach p s'"

text \<open>One attempt to connect, and attempts that follow each other when the timer of \<open>retry\<close> fires.\<close>

type_synonym attempt_in = "int \<times> conn_errno \<times> 32 word \<times> int \<times> bool"

definition attempt :: "platform \<Rightarrow> attempt_in \<Rightarrow> Connector \<Rightarrow> Connector result" where
  "attempt p a s =
     (case a of (fd, e, r, err, self) \<Rightarrow>
        and_then (startInLoop fd e s) (channel_event p r err self))"

fun run_attempts :: "platform \<Rightarrow> attempt_in list \<Rightarrow> Connector \<Rightarrow> (rat list \<times> Connector) result" where
  "run_attempts p [] s = Inr ([], s)"
| "run_attempts p (a # as) s =
     and_then (attempt p a s) (\<lambda>s.
       case cn_timers s of
         [] \<Rightarrow> Inr ([], s)
       | d # ds \<Rightarrow> and_then (run_attempts p as (s\<lparr>cn_timers := ds\<rparr>)) (\<lambda>(w, s). Inr (d # w, s)))"

definition callbacks_of :: "platform \<Rightarrow> attempt_in \<Rightarrow> event_cb list" where
  "callbacks_of p a = (case a of (fd, e, r, err, self) \<Rightarrow> handleEvent p (setRevents r (connecting_channel fd)))"

definition attempt_fails :: "platform \<Rightarrow> attempt_in \<Rightarrow> bool" where
  "attempt_fails p a =
     (case a of (fd, e, r, err, self) \<Rightarrow>
        0 \<le> fd \<and>
        (e \<in> set retry_errnos \<or>
         e \<in> set progress_errnos \<and> callbacks_of p a \<noteq> [] \<and>
         (callbacks_of p a = [WriteCB] \<longrightarrow> err \<noteq> 0 \<or> self)))"

definition attempt_succeeds :: "platform \<Rightarrow> attempt_in \<Rightarrow> bool" where
  "attempt_succeeds p a =
     (case a of (fd, e, r, err, self) \<Rightarrow>
        0 \<le> fd \<and> e \<in> set progress_errnos \<and> callbacks_of p a = [WriteCB] \<and> err = 0 \<and> \<not> self)"

definition backoff :: "nat \<Rightarrow> int" where
  "backoff n = min (kInitRetryDelayMs * 2 ^ n) kMaxRetryDelayMs"

section \<open>The invariant\<close>

definition conn_inv :: "Connector \<Rightarrow> bool" where
  "conn_inv s \<longleftrightarrow>
     cn_newConnectionCallback s \<and>
     cn_maxRetryInterval s = kMaxRetryDelayMs \<and> (\<exists>n. cn_retryInterval s = backoff n) \<and>
     (\<forall>d\<in>set (cn_timers s). \<exists>n. d = of_int (backoff n) / 1000) \<and>
     length (cn_timers s) + length (filter (\<lambda>t. t = StartInLoop) (cn_tasks s)) \<le> 1 \<and>
     (\<not> no_attempt s \<longrightarrow> cn_status s = StatusDisconnected) \<and>
     (cn_timers s \<noteq> [] \<longrightarrow> cn_channelPtr s = None) \<and>
     (cn_status s = StatusConnected \<longrightarrow> cn_channelPtr s = None) \<and>
     (cn_channelPtr s \<noteq> None \<longrightarrow> cn_status s \<noteq> StatusConnecting \<longrightarrow>
        RemoveAndResetChannel \<in> set (takeWhile (\<lambda>t. t \<noteq> StartInLoop) (cn_tasks s))) \<and>
     (\<forall>c. cn_channelPtr s = Some c \<longrightarrow>
        (\<exists>r. c = setRevents r (connecting_channel (ch_fd c))) \<and> ch_fd c \<in> cn_open s - cn_handed s) \<and>
     cn_handed s \<subseteq> cn_open s \<and>
     (\<not> cn_socketHanded s \<longrightarrow> cn_fd s \<notin> cn_handed s)"

lemma backoff_double:
  "(let i = backoff n * 2 in if i > kMaxRetryDelayMs then kMaxRetryDelayMs else i) = backoff (Suc n)"
  by (simp add: backoff_def kMaxRetryDelayMs_def min_def Let_def)

lemma backoff_0: "backoff 0 = kInitRetryDelayMs"
  by (simp add: backoff_def kInitRetryDelayMs_def kMaxRetryDelayMs_def)

lemma backoff_bounds: "500 \<le> backoff n" "backoff n \<le> 30000"
proof -
  have "(1::int) \<le> 2 ^ n" by simp
  then show "500 \<le> backoff n" by (simp add: backoff_def kInitRetryDelayMs_def kMaxRetryDelayMs_def)
  show "backoff n \<le> 30000" by (simp add: backoff_def kMaxRetryDelayMs_def)
qed

lemma errnos_disjoint: "e \<in> set retry_errnos \<Longrightarrow> e \<notin> set progress_errnos"
  by (auto simp: retry_errnos_def progress_errnos_def)

lemma callbacks_connecting:
  "\<exists>cs ws. handleEvent p (setRevents r (connecting_channel fd)) = cs @ ws \<and>
     set cs \<subseteq> {CloseCB, ErrorCB} \<and> (ws = [] \<or> ws = [WriteCB])"
proof -
  have ev: "enableWriting 0 \<noteq> (0 :: 32 word)"
    by (simp add: enableWriting_def kWriteEvent_def POLLOUT_def)
  let ?c = "setRevents r (connecting_channel fd)"
  let ?cs = "(if has_flag r POLLHUP \<and> \<not> has_flag r POLLIN then [CloseCB] else []) @
     (if has_flag r (nval p OR POLLERR) then [ErrorCB] else [])"
  let ?ws = "if has_flag r POLLOUT \<and> (p = Windows \<longrightarrow> \<not> has_flag r POLLHUP) then [WriteCB] else []"
  have "handleEvent p ?c = ?cs @ ?ws"
    using ev by (simp add: handleEvent_def handleEventSafely_def setRevents_def connecting_channel_def
        Channel_new_def kNoneEvent_def Let_def)
  moreover have "set ?cs \<subseteq> {CloseCB, ErrorCB}" by auto
  ultimately show ?thesis by (intro exI [of _ ?cs] exI [of _ ?ws]) simp
qed

section \<open>The handlers keep the invariant\<close>

lemma removeAndReset_Some:
  "cn_channelPtr s = Some c \<Longrightarrow>
   removeAndResetChannel s =
     (ch_fd c, s\<lparr>cn_channelPtr := None,
        cn_tasks := cn_tasks s @ [KeepChannel (c\<lparr>ch_events := disableAll (ch_events c), ch_addedToLoop := False\<rparr>)]\<rparr>)"
  by (simp add: removeAndResetChannel_def)

lemma takeWhile_in_append: "x \<in> set (takeWhile P xs) \<Longrightarrow> x \<in> set (takeWhile P (xs @ ys))"
  by (induction xs) auto

lemma conn_inv_remove:
  assumes "conn_inv s" and "cn_channelPtr s = Some c"
  shows "conn_inv (snd (removeAndResetChannel s))"
  using assms by (simp add: conn_inv_def removeAndReset_Some no_attempt_def)

lemma conn_inv_status:
  assumes "conn_inv s" and "cn_channelPtr s = None" and "st \<noteq> StatusDisconnected \<longrightarrow> no_attempt s"
  shows "conn_inv (s\<lparr>cn_status := st\<rparr>)"
  using assms by (auto simp: conn_inv_def no_attempt_def)

lemma conn_inv_handed: "conn_inv s \<Longrightarrow> conn_inv (s\<lparr>cn_socketHanded := True\<rparr>)"
  by (simp add: conn_inv_def no_attempt_def)

lemma conn_inv_error_callback: "conn_inv s \<Longrightarrow> conn_inv (error_callback s)"
  by (simp add: conn_inv_def no_attempt_def error_callback_def)

lemma conn_inv_close:
  assumes "conn_inv s" and "cn_channelPtr s = None" and "fd \<in> cn_open s - cn_handed s"
  shows "\<exists>s'. close_fd fd s = Inr s' \<and> conn_inv s' \<and> cn_status s' = cn_status s \<and> cn_channelPtr s' = None \<and>
    cn_timers s' = cn_timers s \<and> cn_tasks s' = cn_tasks s"
  using assms by (auto simp: conn_inv_def no_attempt_def close_fd_def)

lemma conn_inv_timer:
  assumes "conn_inv s" and "cn_status s = StatusDisconnected" and "cn_channelPtr s = None" and "no_attempt s"
  shows "conn_inv (s\<lparr>cn_timers := cn_timers s @ [of_int (cn_retryInterval s) / 1000],
     cn_retryInterval := (let i = cn_retryInterval s * 2 in if i > cn_maxRetryInterval s then cn_maxRetryInterval s else i)\<rparr>)"
proof -
  obtain n where n: "cn_retryInterval s = backoff n" using assms(1) by (auto simp: conn_inv_def)
  have m: "cn_maxRetryInterval s = kMaxRetryDelayMs" using assms(1) by (simp add: conn_inv_def)
  have l: "filter (\<lambda>t. t = StartInLoop) (cn_tasks s) = []"
    using assms(4) by (auto simp: no_attempt_def filter_empty_conv)
  have t: "cn_timers s = []" using assms(4) by (simp add: no_attempt_def)
  show ?thesis using assms(1-3) l t unfolding n m backoff_double
    by (auto simp: conn_inv_def no_attempt_def)
qed

lemma retry_ok:
  assumes "conn_inv s" and "cn_retry s" and "cn_channelPtr s = None" and "no_attempt s"
    and "fd \<in> cn_open s - cn_handed s"
  shows "\<exists>s'. retry fd s = Inr s' \<and> conn_inv s' \<and> cn_status s' = StatusDisconnected"
proof -
  obtain s1 where s1: "close_fd fd s = Inr s1" "conn_inv s1" "cn_channelPtr s1 = None"
    "cn_timers s1 = cn_timers s" "cn_tasks s1 = cn_tasks s"
    using conn_inv_close [OF assms(1,3,5)] by blast
  let ?s2 = "s1\<lparr>cn_status := StatusDisconnected\<rparr>"
  have i2: "conn_inv ?s2" using s1 by (intro conn_inv_status) simp_all
  have na: "no_attempt ?s2" using assms(4) s1 by (simp add: no_attempt_def)
  show ?thesis
  proof (cases "cn_started s1")
    case True
    then show ?thesis using conn_inv_timer [OF i2 _ _ na] s1 assms(2)
      by (simp add: retry_def Let_def)
  next
    case False
    then show ?thesis using i2 s1 assms(2) by (simp add: retry_def Let_def)
  qed
qed

text \<open>The channel of an attempt under way, and what is left once it is removed.\<close>

lemma removed_state:
  assumes "conn_inv s" and "cn_status s = StatusConnecting" and "cn_channelPtr s = Some c"
  defines "s' \<equiv> snd (removeAndResetChannel s)"
  shows "conn_inv s'" "cn_channelPtr s' = None" "no_attempt s'" "ch_fd c \<in> cn_open s' - cn_handed s'"
    "fst (removeAndResetChannel s) = ch_fd c" "cn_status s' = StatusConnecting"
proof -
  show "conn_inv s'" unfolding s'_def by (rule conn_inv_remove [OF assms(1,3)])
  have na: "no_attempt s" using assms(1,2) by (auto simp: conn_inv_def)
  show "no_attempt s'" using na by (simp add: s'_def removeAndReset_Some [OF assms(3)] no_attempt_def)
  show "ch_fd c \<in> cn_open s' - cn_handed s'"
    using assms(1,3) by (simp add: s'_def removeAndReset_Some [OF assms(3)] conn_inv_def)
qed (simp_all add: s'_def removeAndReset_Some [OF assms(3)] assms(2))

lemma give_up_ok:
  assumes "conn_inv s" and "cn_channelPtr s = None" and "no_attempt s" and "fd \<in> cn_open s - cn_handed s"
  shows "\<exists>s'. give_up fd s = Inr s' \<and> conn_inv s'"
proof (cases "cn_retry s")
  case True
  then show ?thesis using retry_ok [OF assms(1) _ assms(2-4)] conn_inv_error_callback
    by (auto simp: give_up_def)
next
  case False
  have "conn_inv (s\<lparr>cn_socketHanded := True\<rparr>)" by (rule conn_inv_handed [OF assms(1)])
  from conn_inv_close [OF this, of fd] show ?thesis using assms False conn_inv_error_callback
    by (auto simp: give_up_def)
qed

lemma handleError_inv:
  assumes "conn_inv s" and "cn_channelPtr s \<noteq> None \<or> cn_status s = StatusDisconnected"
    and "cn_status s \<noteq> StatusConnected"
  shows "\<exists>s'. handleError s = Inr s' \<and> conn_inv s' \<and> cn_status s' = StatusDisconnected"
proof (cases "cn_status s = StatusConnecting")
  case True
  then obtain c where c: "cn_channelPtr s = Some c" using assms(2) by auto
  let ?h = "s\<lparr>cn_socketHanded := True\<rparr>"
  have h: "conn_inv ?h" "cn_status ?h = StatusConnecting" "cn_channelPtr ?h = Some c"
    using conn_inv_handed [OF assms(1)] True c by simp_all
  let ?r = "snd (removeAndResetChannel ?h)" and ?d = "\<lambda>s. s\<lparr>cn_status := StatusDisconnected\<rparr>"
  note r = removed_state [OF h]
  have eq: "removeAndResetChannel (?d ?h) = (ch_fd c, ?d ?r)"
    by (simp add: removeAndReset_Some c)
  have d: "conn_inv (?d ?r)" "cn_channelPtr (?d ?r) = None" "no_attempt (?d ?r)"
    "ch_fd c \<in> cn_open (?d ?r) - cn_handed (?d ?r)"
    using conn_inv_status [OF r(1,2)] r(2-4) by (simp_all add: no_attempt_def)
  have "\<exists>s'. (if cn_retry (?d ?r) then retry (ch_fd c) (?d ?r) else close_fd (ch_fd c) (?d ?r)) = Inr s' \<and>
     conn_inv s' \<and> cn_status s' = StatusDisconnected"
    using retry_ok [OF d(1) _ d(2-4)] conn_inv_close [OF d(1,2,4)] by auto
  then obtain s' where s': "(if cn_retry (?d ?r) then retry (ch_fd c) (?d ?r) else close_fd (ch_fd c) (?d ?r)) = Inr s'"
    "conn_inv s'" "cn_status s' = StatusDisconnected" by blast
  have e: "handleError s = Inr (error_callback s')"
    using s'(1) True eq by (simp add: handleError_def Let_def)
  show ?thesis unfolding e using conn_inv_error_callback [OF s'(2)] s'(3) by (simp add: error_callback_def)
next
  case False
  then have "cn_status s = StatusDisconnected" using assms(3) by (cases "cn_status s") simp_all
  then show ?thesis using conn_inv_handed [OF assms(1)] by (simp add: handleError_def)
qed

lemma handleWrite_inv:
  assumes "conn_inv s" and "cn_channelPtr s \<noteq> None \<or> cn_status s = StatusDisconnected"
    and "cn_status s \<noteq> StatusConnected"
  shows "\<exists>s'. handleWrite err self s = Inr s' \<and> conn_inv s'"
proof (cases "cn_status s = StatusConnecting")
  case True
  then obtain c where c: "cn_channelPtr s = Some c" using assms(2) by auto
  let ?h = "s\<lparr>cn_socketHanded := True\<rparr>"
  have h: "conn_inv ?h" "cn_status ?h = StatusConnecting" "cn_channelPtr ?h = Some c"
    using conn_inv_handed [OF assms(1)] True c by simp_all
  let ?r = "snd (removeAndResetChannel ?h)"
  note r = removed_state [OF h]
  let ?c = "?r\<lparr>cn_status := StatusConnected\<rparr>"
  have ic: "conn_inv ?c" using conn_inv_status [OF r(1,2)] r(3) by simp
  show ?thesis
  proof (cases "err \<noteq> 0 \<or> self")
    case True
    then have "handleWrite err self s = give_up (ch_fd c) ?r"
      using \<open>cn_status s = StatusConnecting\<close> by (auto simp: handleWrite_def Let_def removeAndReset_Some c)
    then show ?thesis using give_up_ok [OF r(1-4)] by simp
  next
    case False
    show ?thesis
    proof (cases "cn_started s")
      case True
      have "handleWrite err self s = newConnection (ch_fd c) ?c"
        using False True \<open>cn_status s = StatusConnecting\<close>
        by (simp add: handleWrite_def Let_def removeAndReset_Some c)
      moreover have "\<exists>s'. newConnection (ch_fd c) ?c = Inr s' \<and> conn_inv s'"
        using ic r(2,4) by (simp add: newConnection_def conn_inv_def no_attempt_def removeAndReset_Some c)
      ultimately show ?thesis by simp
    next
      case ns: False
      have "handleWrite err self s = close_fd (ch_fd c) (?c\<lparr>cn_socketHanded := True\<rparr>)"
        using False ns \<open>cn_status s = StatusConnecting\<close>
        by (simp add: handleWrite_def Let_def removeAndReset_Some c)
      then show ?thesis using conn_inv_close [OF conn_inv_handed [OF ic], of "ch_fd c"] r(2,4) by auto
    qed
  qed
next
  case False
  then have "cn_status s = StatusDisconnected" using assms(3) by (cases "cn_status s") simp_all
  then show ?thesis using conn_inv_handed [OF assms(1)] by (simp add: handleWrite_def)
qed

lemma run_callbacks_append:
  "run_callbacks (xs @ ys) err self s = and_then (run_callbacks xs err self s) (run_callbacks ys err self)"
proof (induction xs arbitrary: s)
  case Nil
  then show ?case by simp
next
  case (Cons x xs)
  have assoc: "and_then (and_then r f) g = and_then r (\<lambda>x. and_then (f x) g)" for r :: "Connector result" and f g
    by (cases r) simp_all
  have "run_callbacks (xs @ ys) err self = (\<lambda>s. and_then (run_callbacks xs err self s) (run_callbacks ys err self))"
    by (rule ext) (rule Cons.IH)
  then show ?case by (simp add: assoc)
qed

lemma run_errors_ok:
  assumes "set cs \<subseteq> {CloseCB, ErrorCB}" and "conn_inv s"
    and "cn_channelPtr s \<noteq> None \<or> cn_status s = StatusDisconnected" and "cn_status s \<noteq> StatusConnected"
  shows "\<exists>s'. run_callbacks cs err self s = Inr s' \<and> conn_inv s' \<and> cn_status s' \<noteq> StatusConnected \<and>
    (cn_channelPtr s' \<noteq> None \<or> cn_status s' = StatusDisconnected)"
  using assms
proof (induction cs arbitrary: s)
  case Nil
  then show ?case by simp
next
  case (Cons c cs)
  obtain s1 where s1: "handleError s = Inr s1" "conn_inv s1" "cn_status s1 = StatusDisconnected"
    using handleError_inv [OF Cons.prems(2-4)] by blast
  have "run_callbacks (c # cs) err self s = run_callbacks cs err self s1"
    using Cons.prems(1) s1(1) by auto
  then show ?case using Cons.IH [of s1] Cons.prems(1) s1 by auto
qed

lemma channel_event_ok:
  assumes "conn_inv s"
  shows "\<exists>s'. channel_event p r err self s = Inr s' \<and> conn_inv s'"
proof (cases "cn_channelPtr s")
  case None
  then show ?thesis using assms by (simp add: channel_event_def)
next
  case (Some c)
  let ?c = "setRevents r c" and ?s = "s\<lparr>cn_channelPtr := Some (setRevents r c)\<rparr>"
  obtain r0 where r0: "c = setRevents r0 (connecting_channel (ch_fd c))"
    using assms Some by (auto simp: conn_inv_def)
  have c: "setRevents r c = setRevents r (connecting_channel (ch_fd c))"
    by (subst r0) (simp add: setRevents_def)
  have fd: "ch_fd (setRevents r c) = ch_fd c" by (simp add: setRevents_def)
  have i: "conn_inv ?s" using assms Some c fd unfolding conn_inv_def no_attempt_def by auto
  have st: "cn_status ?s \<noteq> StatusConnected" using assms Some by (auto simp: conn_inv_def)
  obtain cs ws where cw: "handleEvent p ?c = cs @ ws" "set cs \<subseteq> {CloseCB, ErrorCB}" "ws = [] \<or> ws = [WriteCB]"
    using callbacks_connecting [of p r "ch_fd c"] unfolding c by blast
  obtain s1 where s1: "run_callbacks cs err self ?s = Inr s1" "conn_inv s1" "cn_status s1 \<noteq> StatusConnected"
     "cn_channelPtr s1 \<noteq> None \<or> cn_status s1 = StatusDisconnected"
    using run_errors_ok [OF cw(2) i _ st, of err self] by auto
  obtain s2 where s2: "handleWrite err self s1 = Inr s2" "conn_inv s2"
    using handleWrite_inv [OF s1(2,4,3)] by blast
  show ?thesis using cw(3) s1(1,2) s2
    by (auto simp: channel_event_def Some cw(1) run_callbacks_append)
qed


section \<open>Steps keep the invariant\<close>

lemma conn_inv_connect:
  assumes "conn_inv s" and "cn_channelPtr s = None" and "no_attempt s" and "0 \<le> fd" and "fd \<notin> cn_open s"
    and "cn_status s = StatusDisconnected"
  shows "\<exists>s'. connect fd e s = Inr s' \<and> conn_inv s'"
proof -
  let ?s = "s\<lparr>cn_socketHanded := False, cn_fd := fd, cn_open := insert fd (cn_open s)\<rparr>"
  have i: "conn_inv ?s" using assms(1,2,5) by (auto simp: conn_inv_def no_attempt_def)
  have st: "cn_channelPtr ?s = None" "no_attempt ?s" "fd \<in> cn_open ?s - cn_handed ?s"
    using assms by (auto simp: no_attempt_def conn_inv_def)
  consider "e \<in> set progress_errnos" | "e \<in> set retry_errnos" "e \<notin> set progress_errnos"
    | "e \<notin> set retry_errnos" "e \<notin> set progress_errnos" by blast
  then show ?thesis
  proof cases
    case 1
    have "conn_inv (?s\<lparr>cn_status := StatusConnecting, cn_channelPtr := Some (connecting_channel fd)\<rparr>)"
    proof -
      have "\<exists>r. connecting_channel fd = setRevents r (connecting_channel fd)"
        by (rule exI [of _ 0]) (simp add: setRevents_def connecting_channel_def Channel_new_def)
      moreover have "ch_fd (connecting_channel fd) = fd" by (simp add: connecting_channel_def Channel_new_def)
      ultimately show ?thesis using i st by (simp add: conn_inv_def no_attempt_def)
    qed
    then show ?thesis using 1 assms(2) by (simp add: connect_def connecting_def)
  next
    case 2
    then show ?thesis using retry_ok [OF i _ st] i by (auto simp: connect_def Let_def)
  next
    case 3
    have "conn_inv (?s\<lparr>cn_socketHanded := True\<rparr>)" by (rule conn_inv_handed [OF i])
    from conn_inv_close [OF this, of fd] obtain s' where "close_fd fd (?s\<lparr>cn_socketHanded := True\<rparr>) = Inr s'" "conn_inv s'"
      using st by auto
    then show ?thesis using 3 conn_inv_error_callback by (simp add: connect_def Let_def)
  qed
qed

lemma startInLoop_ok:
  assumes "conn_inv s" and "cn_channelPtr s = None" and "no_attempt s" and "0 \<le> fd" and "fd \<notin> cn_open s"
    and "cn_status s = StatusDisconnected"
  shows "\<exists>s'. startInLoop fd e s = Inr s' \<and> conn_inv s'"
  using conn_inv_connect [OF assms] assms(1,6) by (simp add: startInLoop_def)

lemma stop_ok:
  assumes "conn_inv s"
  shows "conn_inv (stop inLoop s)" "cn_open (stop inLoop s) = cn_open s"
    "cn_status (stop inLoop s) = StatusDisconnected" "inLoop \<Longrightarrow> cn_channelPtr (stop inLoop s) = None"
    "no_attempt (stop inLoop s) = no_attempt s"
    "\<not> inLoop \<Longrightarrow> RemoveAndResetChannel \<in> set (cn_tasks (stop inLoop s))"
proof -
  have tw: "StartInLoop \<notin> set ts \<Longrightarrow>
    RemoveAndResetChannel \<in> set (takeWhile (\<lambda>t. t \<noteq> StartInLoop) (ts @ [RemoveAndResetChannel]))" for ts
    by (induction ts) auto
  have k: "RemoveAndResetChannel \<in> set (takeWhile (\<lambda>t. t \<noteq> StartInLoop) (cn_tasks s @ [RemoveAndResetChannel]))"
    if ch: "cn_channelPtr s \<noteq> None"
  proof (cases "cn_status s = StatusConnecting")
    case True
    then have "no_attempt s" using assms by (auto simp: conn_inv_def)
    then show ?thesis by (intro tw) (simp add: no_attempt_def)
  next
    case False
    then show ?thesis using ch assms by (intro takeWhile_in_append) (simp add: conn_inv_def)
  qed
  show "conn_inv (stop inLoop s)"
  proof (cases inLoop)
    case True
    then show ?thesis using assms
      by (cases "cn_channelPtr s") (simp_all add: stop_def Let_def removeAndResetChannel_def conn_inv_def no_attempt_def)
  next
    case False
    then show ?thesis using assms k by (simp add: stop_def conn_inv_def no_attempt_def)
  qed
qed (auto simp: stop_def Let_def removeAndResetChannel_def no_attempt_def split: option.split)

lemma queue_start_ok:
  assumes "conn_inv s" and "no_attempt s" and "cn_status s = StatusDisconnected"
  shows "conn_inv (s\<lparr>cn_started := True, cn_tasks := cn_tasks s @ [StartInLoop]\<rparr>)"
proof -
  have f: "filter (\<lambda>t. t = StartInLoop) (cn_tasks s) = []"
    using assms(2) by (auto simp: no_attempt_def filter_empty_conv)
  have t: "cn_timers s = []" using assms(2) by (simp add: no_attempt_def)
  have m: "cn_channelPtr s \<noteq> None \<Longrightarrow> RemoveAndResetChannel \<in>
        set (takeWhile (\<lambda>t. t \<noteq> StartInLoop) (cn_tasks s @ [StartInLoop]))"
    using assms(1,3) by (intro takeWhile_in_append) (simp add: conn_inv_def)
  show ?thesis using assms f t m by (auto simp: conn_inv_def no_attempt_def)
qed

lemma start_ok:
  assumes "conn_inv s" and "no_attempt s" and "cn_status s = StatusDisconnected"
    and "inLoop \<Longrightarrow> cn_channelPtr s = None" and "0 \<le> fd" and "fd \<notin> cn_open s"
  shows "\<exists>s'. start inLoop fd e s = Inr s' \<and> conn_inv s'"
proof (cases inLoop)
  case True
  have "conn_inv (s\<lparr>cn_started := True\<rparr>)" "no_attempt (s\<lparr>cn_started := True\<rparr>)"
    using assms(1,2) by (simp_all add: conn_inv_def no_attempt_def)
  from startInLoop_ok [OF this(1) _ this(2) assms(5)] show ?thesis
    using True assms by (simp add: start_def)
next
  case False
  then show ?thesis using queue_start_ok [OF assms(1-3)] by (simp add: start_def)
qed

lemma run_loop_task_ok:
  assumes "conn_inv s" and "cn_tasks s = t # ts" and "0 \<le> fd" and "fd \<notin> cn_open s"
  shows "\<exists>s'. run_loop_task t fd e (s\<lparr>cn_tasks := ts\<rparr>) = Inr s' \<and> conn_inv s'"
proof (cases t)
  case StartInLoop
  let ?s = "s\<lparr>cn_tasks := ts\<rparr>"
  have na: "\<not> no_attempt s" using StartInLoop assms(2) by (simp add: no_attempt_def)
  have st: "cn_status s = StatusDisconnected" using assms(1) na by (simp add: conn_inv_def)
  have ch: "cn_channelPtr s = None"
    using assms(1,2) st StartInLoop by (auto simp: conn_inv_def)
  have cnt: "cn_timers s = []" "StartInLoop \<notin> set ts" "filter (\<lambda>t. t = StartInLoop) ts = []"
    using assms(1,2) StartInLoop by (auto simp: conn_inv_def filter_empty_conv)
  have "conn_inv ?s" using assms(1) st ch cnt by (auto simp: conn_inv_def no_attempt_def)
  from startInLoop_ok [OF this _ _ assms(3)] show ?thesis
    using assms(4) StartInLoop st ch cnt by (simp add: run_loop_task_def no_attempt_def)
next
  case RemoveAndResetChannel
  have "conn_inv (snd (removeAndResetChannel (s\<lparr>cn_tasks := ts\<rparr>)))"
    using assms(1,2) RemoveAndResetChannel
    by (auto simp: removeAndResetChannel_def conn_inv_def no_attempt_def split: option.split)
  then show ?thesis by (simp add: run_loop_task_def RemoveAndResetChannel)
next
  case (KeepChannel c)
  have "conn_inv (s\<lparr>cn_tasks := ts\<rparr>)"
    using assms(1,2) KeepChannel by (auto simp: conn_inv_def no_attempt_def)
  then show ?thesis by (simp add: run_loop_task_def KeepChannel)
qed

lemma timer_ok:
  assumes "conn_inv s" and "cn_timers s = d # ds" and "0 \<le> fd" and "fd \<notin> cn_open s"
  shows "\<exists>s'. startInLoop fd e (s\<lparr>cn_timers := ds\<rparr>) = Inr s' \<and> conn_inv s'"
proof -
  have na: "\<not> no_attempt s" using assms(2) by (simp add: no_attempt_def)
  have st: "cn_status s = StatusDisconnected" "cn_channelPtr s = None"
    using assms(1,2) na by (simp_all add: conn_inv_def)
  have cnt: "ds = []" "StartInLoop \<notin> set (cn_tasks s)"
    using assms(1,2) by (auto simp: conn_inv_def filter_empty_conv)
  have "conn_inv (s\<lparr>cn_timers := ds\<rparr>)" using assms(1,2) st cnt by (auto simp: conn_inv_def no_attempt_def)
  from startInLoop_ok [OF this _ _ assms(3)] show ?thesis
    using assms(4) st cnt by (simp add: no_attempt_def)
qed

lemma conn_step_ok:
  assumes "conn_inv s" and "owner_ok a s" and "conn_step p a s = Some r"
  shows "\<exists>s'. r = Inr s' \<and> conn_inv s'"
proof (cases a)
  case (DoStart inLoop fd e)
  then have r: "r = start inLoop fd e s" "0 \<le> fd" "fd \<notin> cn_open s"
    using assms(3) by (simp_all add: conn_step_def split: if_splits)
  show ?thesis unfolding r(1) using assms(2) r(2,3) DoStart
    by (intro start_ok [OF assms(1)]) (simp_all add: owner_ok_def)
next
  case (DoStop inLoop)
  then show ?thesis using assms(3) stop_ok(1) [OF assms(1), of inLoop] by (auto simp: conn_step_def)
next
  case (DoRestart inLoop fd e)
  then have r: "r = start inLoop fd e (stop inLoop s)" "0 \<le> fd" "fd \<notin> cn_open s" "no_attempt s"
    using assms(2,3) by (simp_all add: conn_step_def restart_def owner_ok_def split: if_splits)
  show ?thesis unfolding r(1) using r(2-4) stop_ok(2-5) [OF assms(1), of inLoop]
    by (intro start_ok [OF stop_ok(1) [OF assms(1)]]) simp_all
next
  case (RunTask fd e)
  then obtain t ts where t: "cn_tasks s = t # ts" "r = run_loop_task t fd e (s\<lparr>cn_tasks := ts\<rparr>)" "0 \<le> fd" "fd \<notin> cn_open s"
    using assms(3) by (auto simp: conn_step_def split: list.splits if_splits)
  show ?thesis unfolding t(2) by (rule run_loop_task_ok [OF assms(1) t(1,3,4)])
next
  case (TimerFires fd e)
  then obtain d ds where t: "cn_timers s = d # ds" "r = startInLoop fd e (s\<lparr>cn_timers := ds\<rparr>)" "0 \<le> fd" "fd \<notin> cn_open s"
    using assms(3) by (auto simp: conn_step_def split: list.splits if_splits)
  show ?thesis unfolding t(2) by (rule timer_ok [OF assms(1) t(1,3,4)])
next
  case (ChannelEvent rv err self)
  then show ?thesis using assms(3) channel_event_ok [OF assms(1), of p rv err self] by (auto simp: conn_step_def)
next
  case (OwnerCloses fd)
  then have r: "r = Inr (s\<lparr>cn_handed := cn_handed s - {fd}, cn_open := cn_open s - {fd}\<rparr>)" "fd \<in> cn_handed s"
    using assms(3) by (auto simp: conn_step_def split: if_splits)
  show ?thesis using assms(1) r(2) unfolding r(1) by (auto simp: conn_inv_def no_attempt_def)
qed

lemma conn_inv_new: "conn_inv (setErrorCallback cb (setNewConnectionCallback (Connector_new r)))"
  unfolding conn_inv_def setErrorCallback_def setNewConnectionCallback_def Connector_new_def no_attempt_def
  using backoff_0 [symmetric] by auto

lemma connector_reach_inv: "connector_reach p s \<Longrightarrow> conn_inv s"
proof (induction rule: connector_reach.induct)
  case (init cb r)
  then show ?case by (rule conn_inv_new)
next
  case (step s a s')
  then show ?case using conn_step_ok by blast
qed

section \<open>What was handed over\<close>

definition keeps_handed :: "int set \<Rightarrow> Connector result \<Rightarrow> bool" where
  "keeps_handed H r \<longleftrightarrow> (\<forall>s. r = Inr s \<longrightarrow> H \<subseteq> cn_handed s)"

named_theorems keeps_intros \<open>operations keep what was handed over\<close>

lemma keeps_simps [simp]: "keeps_handed H (Inr s) \<longleftrightarrow> H \<subseteq> cn_handed s" "keeps_handed H (Inl f)"
  by (simp_all add: keeps_handed_def)

lemma keeps_assert [keeps_intros]: "keeps_handed H r \<Longrightarrow> keeps_handed H (assert_that b r)"
  by (cases b) simp_all

lemma keeps_and_then [keeps_intros]:
  "keeps_handed H r \<Longrightarrow> (\<And>s. H \<subseteq> cn_handed s \<Longrightarrow> keeps_handed H (f s)) \<Longrightarrow> keeps_handed H (and_then r f)"
  by (cases r) simp_all

lemma keeps_if [keeps_intros]: "keeps_handed H a \<Longrightarrow> keeps_handed H b \<Longrightarrow> keeps_handed H (if c then a else b)"
  by simp

lemma keeps_close [keeps_intros]: "H \<subseteq> cn_handed s \<Longrightarrow> keeps_handed H (close_fd fd s)"
  by (simp add: close_fd_def)

lemma handed_error_callback [simp]: "cn_handed (error_callback s) = cn_handed s"
  by (simp add: error_callback_def)

lemma keeps_retry [keeps_intros]: "H \<subseteq> cn_handed s \<Longrightarrow> keeps_handed H (retry fd s)"
  unfolding retry_def Let_def by (intro keeps_intros) simp_all

lemma keeps_connecting [keeps_intros]: "H \<subseteq> cn_handed s \<Longrightarrow> keeps_handed H (connecting fd s)"
  unfolding connecting_def Let_def by (intro keeps_intros) simp

lemma keeps_connect [keeps_intros]: "H \<subseteq> cn_handed s \<Longrightarrow> keeps_handed H (connect fd e s)"
  unfolding connect_def Let_def by (intro keeps_intros) simp_all

lemma keeps_startInLoop [keeps_intros]: "H \<subseteq> cn_handed s \<Longrightarrow> keeps_handed H (startInLoop fd e s)"
  unfolding startInLoop_def by (intro keeps_intros) simp_all

lemma handed_remove: "cn_handed (snd (removeAndResetChannel s)) = cn_handed s"
  by (simp add: removeAndResetChannel_def split: option.split)

lemma handed_stop [simp]: "cn_handed (stop inLoop s) = cn_handed s"
  by (simp add: stop_def Let_def handed_remove)

lemma keeps_start [keeps_intros]: "H \<subseteq> cn_handed s \<Longrightarrow> keeps_handed H (start inLoop fd e s)"
  unfolding start_def Let_def by (intro keeps_intros) simp_all

lemma keeps_give_up [keeps_intros]: "H \<subseteq> cn_handed s \<Longrightarrow> keeps_handed H (give_up fd s)"
  unfolding give_up_def by (intro keeps_intros) simp_all

lemma keeps_newConnection [keeps_intros]: "H \<subseteq> cn_handed s \<Longrightarrow> keeps_handed H (newConnection fd s)"
  unfolding newConnection_def by (intro keeps_intros) auto

lemma keeps_handleError [keeps_intros]: "H \<subseteq> cn_handed s \<Longrightarrow> keeps_handed H (handleError s)"
  unfolding handleError_def Let_def case_prod_beta by (intro keeps_intros) (simp_all add: handed_remove)

lemma keeps_handleWrite [keeps_intros]: "H \<subseteq> cn_handed s \<Longrightarrow> keeps_handed H (handleWrite err self s)"
  unfolding handleWrite_def Let_def case_prod_beta by (intro keeps_intros) (simp_all add: handed_remove)

lemma keeps_callbacks [keeps_intros]: "H \<subseteq> cn_handed s \<Longrightarrow> keeps_handed H (run_callbacks cbs err self s)"
proof (induction cbs arbitrary: s)
  case (Cons cb cbs)
  have "keeps_handed H (case cb of WriteCB \<Rightarrow> handleWrite err self s | ErrorCB \<Rightarrow> handleError s
      | CloseCB \<Rightarrow> handleError s | _ \<Rightarrow> Inr s)"
    using Cons.prems by (cases cb) (simp_all add: keeps_handleError keeps_handleWrite)
  then show ?case unfolding run_callbacks.simps by (rule keeps_and_then) (rule Cons.IH)
qed simp

lemma keeps_channel_event [keeps_intros]: "H \<subseteq> cn_handed s \<Longrightarrow> keeps_handed H (channel_event p r err self s)"
  by (cases "cn_channelPtr s") (simp_all add: channel_event_def Let_def keeps_callbacks)

lemma keeps_run_loop_task [keeps_intros]: "H \<subseteq> cn_handed s \<Longrightarrow> keeps_handed H (run_loop_task t fd e s)"
  by (cases t) (simp_all add: run_loop_task_def keeps_startInLoop handed_remove)

lemma keeps_step:
  assumes "conn_step p a s = Some r" and "a \<notin> range OwnerCloses"
  shows "keeps_handed (cn_handed s) r"
proof (cases a)
  case (DoStart inLoop fd e)
  then have r: "r = start inLoop fd e s" using assms(1) by (simp add: conn_step_def split: if_splits)
  show ?thesis unfolding r by (intro keeps_intros) simp
next
  case (DoStop inLoop)
  then have r: "r = Inr (stop inLoop s)" using assms(1) by (simp add: conn_step_def)
  show ?thesis unfolding r by simp
next
  case (DoRestart inLoop fd e)
  then have r: "r = start inLoop fd e (stop inLoop s)"
    using assms(1) by (simp add: conn_step_def restart_def split: if_splits)
  show ?thesis unfolding r by (intro keeps_intros) simp
next
  case (RunTask fd e)
  then obtain t ts where r: "r = run_loop_task t fd e (s\<lparr>cn_tasks := ts\<rparr>)"
    using assms(1) by (auto simp: conn_step_def split: list.splits if_splits)
  show ?thesis unfolding r by (intro keeps_intros) simp
next
  case (TimerFires fd e)
  then obtain ds where r: "r = startInLoop fd e (s\<lparr>cn_timers := ds\<rparr>)"
    using assms(1) by (auto simp: conn_step_def split: list.splits if_splits)
  show ?thesis unfolding r by (intro keeps_intros) simp
next
  case (ChannelEvent rv err self)
  then have r: "r = channel_event p rv err self s" using assms(1) by (simp add: conn_step_def)
  show ?thesis unfolding r by (intro keeps_intros) simp
next
  case (OwnerCloses fd)
  then show ?thesis using assms(2) by simp
qed

section \<open>Properties\<close>



section \<open>Attempts and delays\<close>

definition planned :: "rat list \<Rightarrow> nat \<Rightarrow> Connector \<Rightarrow> bool" where
  "planned ts n s \<longleftrightarrow>
     cn_started s \<and> cn_retry s \<and> cn_newConnectionCallback s \<and> cn_status s = StatusDisconnected \<and>
     cn_channelPtr s = None \<and> cn_timers s = ts \<and> cn_open s = {} \<and> cn_handed s = {} \<and>
     cn_retryInterval s = backoff n \<and> cn_maxRetryInterval s = kMaxRetryDelayMs \<and>
     set (cn_log s) \<subseteq> {ConnectionError}"

definition trying :: "nat \<Rightarrow> int \<Rightarrow> Connector \<Rightarrow> bool" where
  "trying n fd s \<longleftrightarrow>
     cn_started s \<and> cn_retry s \<and> cn_newConnectionCallback s \<and> cn_timers s = [] \<and> cn_open s = {fd} \<and> cn_handed s = {} \<and>
     cn_retryInterval s = backoff n \<and> cn_maxRetryInterval s = kMaxRetryDelayMs \<and>
     set (cn_log s) \<subseteq> {ConnectionError}"

lemma retry_planned:
  assumes "trying n fd s" and "cn_channelPtr s = None"
  shows "\<exists>s'. retry fd s = Inr s' \<and> planned [of_int (backoff n) / 1000] (Suc n) s' \<and> cn_socketHanded s' = cn_socketHanded s"
proof -
  let ?s = "s\<lparr>cn_open := {}, cn_status := StatusDisconnected, cn_timers := [of_int (backoff n) / 1000],
    cn_retryInterval := backoff (Suc n)\<rparr>"
  have "retry fd s = Inr ?s"
    using assms(1) by (simp add: retry_def close_fd_def trying_def backoff_double [symmetric] Let_def)
  moreover have "planned [of_int (backoff n) / 1000] (Suc n) ?s"
    using assms by (simp add: planned_def trying_def)
  ultimately show ?thesis by simp
qed

lemma planned_error_callback: "planned ts n s \<Longrightarrow> planned ts n (error_callback s)"
  by (simp add: planned_def error_callback_def)

lemma trying_removed:
  assumes "trying n fd s" and "cn_channelPtr s = Some c" and "ch_fd c = fd"
  shows "\<exists>s'. removeAndResetChannel s = (fd, s') \<and> trying n fd s' \<and> cn_channelPtr s' = None \<and>
    cn_status s' = cn_status s \<and> cn_socketHanded s' = cn_socketHanded s"
  using assms by (simp add: removeAndReset_Some trying_def)

lemma trying_update [simp]:
  "trying n fd (s\<lparr>cn_socketHanded := b\<rparr>) = trying n fd s"
  "trying n fd (s\<lparr>cn_status := st\<rparr>) = trying n fd s"
  "trying n fd (s\<lparr>cn_channelPtr := c\<rparr>) = trying n fd s"
  by (simp_all add: trying_def)

lemma handleError_planned:
  assumes "trying n fd s" and "cn_status s = StatusConnecting" and "cn_channelPtr s = Some c" and "ch_fd c = fd"
  shows "\<exists>s'. handleError s = Inr s' \<and> planned [of_int (backoff n) / 1000] (Suc n) s' \<and> cn_socketHanded s'"
proof -
  let ?s = "s\<lparr>cn_socketHanded := True, cn_status := StatusDisconnected\<rparr>"
  obtain s1 where s1: "removeAndResetChannel ?s = (fd, s1)" "trying n fd s1" "cn_channelPtr s1 = None" "cn_socketHanded s1"
    using trying_removed [of n fd ?s c] assms by auto
  obtain s2 where s2: "retry fd s1 = Inr s2" "planned [of_int (backoff n) / 1000] (Suc n) s2" "cn_socketHanded s2"
    using retry_planned [OF s1(2,3)] s1(4) by blast
  have "handleError s = Inr (error_callback s2)"
    using assms(2) s1 s2 by (simp add: handleError_def trying_def)
  then show ?thesis using planned_error_callback [OF s2(2)] s2(3) by (simp add: error_callback_def)
qed

lemma handleWrite_trying:
  assumes "trying n fd s" and "cn_status s = StatusConnecting" and "cn_channelPtr s = Some c" and "ch_fd c = fd"
  shows "err \<noteq> 0 \<or> self \<Longrightarrow>
      \<exists>s'. handleWrite err self s = Inr s' \<and> planned [of_int (backoff n) / 1000] (Suc n) s' \<and> cn_socketHanded s'"
    and "\<exists>s'. handleWrite 0 False s = Inr s' \<and> cn_status s' = StatusConnected \<and> cn_timers s' = [] \<and> cn_socketHanded s' \<and>
      cn_open s' = {fd} \<and> cn_handed s' = {fd} \<and> (\<exists>l. cn_log s' = l @ [NewConnection fd] \<and> set l \<subseteq> {ConnectionError})"
proof -
  let ?s = "s\<lparr>cn_socketHanded := True\<rparr>"
  obtain s1 where s1: "removeAndResetChannel ?s = (fd, s1)" "trying n fd s1" "cn_channelPtr s1 = None" "cn_socketHanded s1"
    using trying_removed [of n fd ?s c] assms by auto
  obtain s2 where s2: "retry fd s1 = Inr s2" "planned [of_int (backoff n) / 1000] (Suc n) s2" "cn_socketHanded s2"
    using retry_planned [OF s1(2,3)] s1(4) by blast
  show "\<exists>s'. handleWrite err self s = Inr s' \<and> planned [of_int (backoff n) / 1000] (Suc n) s' \<and> cn_socketHanded s'"
    if f: "err \<noteq> 0 \<or> self"
  proof -
    have "handleWrite err self s = Inr (error_callback s2)"
      using f assms(2) s1 s2 by (auto simp: handleWrite_def give_up_def trying_def)
    then show ?thesis using planned_error_callback [OF s2(2)] s2(3) by (simp add: error_callback_def)
  qed
  have "handleWrite 0 False s = newConnection fd (s1\<lparr>cn_status := StatusConnected\<rparr>)"
    using assms(2) s1 by (simp add: handleWrite_def trying_def)
  then show "\<exists>s'. handleWrite 0 False s = Inr s' \<and> cn_status s' = StatusConnected \<and> cn_timers s' = [] \<and> cn_socketHanded s' \<and>
      cn_open s' = {fd} \<and> cn_handed s' = {fd} \<and> (\<exists>l. cn_log s' = l @ [NewConnection fd] \<and> set l \<subseteq> {ConnectionError})"
    using s1(2,4) by (simp add: newConnection_def trying_def)
qed

lemma run_callbacks_idle:
  assumes "cn_status s = StatusDisconnected" and "cn_socketHanded s"
  shows "run_callbacks cbs err self s = Inr s"
proof (induction cbs)
  case (Cons cb cbs)
  have "s\<lparr>cn_socketHanded := True\<rparr> = s" using assms(2) by simp
  then show ?case using Cons.IH assms(1) by (cases cb) (simp_all add: handleWrite_def handleError_def)
qed simp

lemma start_trying:
  assumes "planned [] n s" and "e \<in> set progress_errnos"
  shows "\<exists>s'. startInLoop fd e s = Inr s' \<and> trying n fd s' \<and> cn_status s' = StatusConnecting \<and>
    cn_channelPtr s' = Some (connecting_channel fd)"
  using assms by (simp add: startInLoop_def connect_def connecting_def planned_def trying_def)

lemma start_refused:
  assumes "planned [] n s" and "e \<in> set retry_errnos"
  shows "\<exists>s'. startInLoop fd e s = Inr s' \<and> planned [of_int (backoff n) / 1000] (Suc n) s'"
proof -
  let ?s = "s\<lparr>cn_socketHanded := False, cn_fd := fd, cn_open := {fd}\<rparr>"
  have "trying n fd ?s" "cn_channelPtr ?s = None" using assms(1) by (simp_all add: trying_def planned_def)
  moreover have "startInLoop fd e s = retry fd ?s"
    using assms errnos_disjoint by (simp add: startInLoop_def connect_def planned_def)
  ultimately show ?thesis using retry_planned [of n fd ?s] by auto
qed

lemma channel_event_trying:
  assumes "trying n fd s" and "cn_status s = StatusConnecting" and "cn_channelPtr s = Some (connecting_channel fd)"
  shows "callbacks_of p (fd, e, r, err, self) \<noteq> [] \<Longrightarrow>
      (callbacks_of p (fd, e, r, err, self) = [WriteCB] \<longrightarrow> err \<noteq> 0 \<or> self) \<Longrightarrow>
      \<exists>s'. channel_event p r err self s = Inr s' \<and> planned [of_int (backoff n) / 1000] (Suc n) s'"
    and "callbacks_of p (fd, e, r, err, self) = [WriteCB] \<Longrightarrow> err = 0 \<Longrightarrow> \<not> self \<Longrightarrow>
      \<exists>s'. channel_event p r err self s = Inr s' \<and> cn_status s' = StatusConnected \<and> cn_timers s' = [] \<and> cn_socketHanded s' \<and>
      cn_open s' = {fd} \<and> cn_handed s' = {fd} \<and> (\<exists>l. cn_log s' = l @ [NewConnection fd] \<and> set l \<subseteq> {ConnectionError})"
proof -
  let ?c = "setRevents r (connecting_channel fd)"
  let ?s = "s\<lparr>cn_channelPtr := Some ?c\<rparr>" and ?cbs = "handleEvent p ?c"
  have ev: "channel_event p r err self s = run_callbacks ?cbs err self ?s"
    using assms(3) by (simp add: channel_event_def Let_def)
  have fd: "ch_fd ?c = fd" by (simp add: setRevents_def connecting_channel_def Channel_new_def)
  have cb: "callbacks_of p (fd, e, r, err, self) = ?cbs" by (simp add: callbacks_of_def)
  have t: "trying n fd ?s" using assms(1) by simp
  note on_error = handleError_planned [OF t, of ?c] and on_write = handleWrite_trying [OF t, of ?c]
  obtain cs ws where cw: "?cbs = cs @ ws" "set cs \<subseteq> {CloseCB, ErrorCB}" "ws = [] \<or> ws = [WriteCB]"
    using callbacks_connecting [of p r fd] by blast
  show "\<exists>s'. channel_event p r err self s = Inr s' \<and> planned [of_int (backoff n) / 1000] (Suc n) s'"
    if "callbacks_of p (fd, e, r, err, self) \<noteq> []"
      and f: "callbacks_of p (fd, e, r, err, self) = [WriteCB] \<longrightarrow> err \<noteq> 0 \<or> self"
  proof (cases cs)
    case Nil
    then have w: "?cbs = [WriteCB]" using that(1) cw cb by auto
    obtain s' where "handleWrite err self ?s = Inr s'" "planned [of_int (backoff n) / 1000] (Suc n) s'"
      using on_write(1) [of err self] f w cb assms(2) fd by auto
    then show ?thesis by (simp add: ev w)
  next
    case (Cons c cs')
    obtain s' where s': "handleError ?s = Inr s'" "planned [of_int (backoff n) / 1000] (Suc n) s'" "cn_socketHanded s'"
      using on_error assms(2) fd by auto
    have "run_callbacks (c # cs' @ ws) err self ?s = run_callbacks (cs' @ ws) err self s'"
      using s'(1) cw(2) Cons by auto
    also have "\<dots> = Inr s'" using s' by (intro run_callbacks_idle) (simp_all add: planned_def)
    finally have "channel_event p r err self s = Inr s'" by (simp only: ev cw(1) Cons append_Cons)
    then show ?thesis using s'(2) by simp
  qed
  show "\<exists>s'. channel_event p r err self s = Inr s' \<and> cn_status s' = StatusConnected \<and> cn_timers s' = [] \<and> cn_socketHanded s' \<and>
      cn_open s' = {fd} \<and> cn_handed s' = {fd} \<and> (\<exists>l. cn_log s' = l @ [NewConnection fd] \<and> set l \<subseteq> {ConnectionError})"
    if w: "callbacks_of p (fd, e, r, err, self) = [WriteCB]" and ok: "err = 0" "\<not> self"
  proof -
    obtain s' where "handleWrite err self ?s = Inr s'" "cn_status s' = StatusConnected" "cn_timers s' = []" "cn_socketHanded s'"
      "cn_open s' = {fd}" "cn_handed s' = {fd}" "\<exists>l. cn_log s' = l @ [NewConnection fd] \<and> set l \<subseteq> {ConnectionError}"
      using on_write(2) assms(2) fd ok by auto
    then show ?thesis using w by (simp add: ev cb)
  qed
qed

lemma attempt_failing:
  assumes "planned [] n s" and "attempt_fails p a"
  shows "\<exists>s'. attempt p a s = Inr s' \<and> planned [of_int (backoff n) / 1000] (Suc n) s'"
proof -
  obtain fd e r err self where a: "a = (fd, e, r, err, self)" by (cases a)
  show ?thesis
  proof (cases "e \<in> set retry_errnos")
    case True
    obtain s' where s': "startInLoop fd e s = Inr s'" "planned [of_int (backoff n) / 1000] (Suc n) s'"
      using start_refused [OF assms(1) True] by blast
    have "channel_event p r err self s' = Inr s'" using s'(2) by (simp add: channel_event_def planned_def)
    then show ?thesis using s' by (simp add: attempt_def a)
  next
    case False
    then have f: "e \<in> set progress_errnos" "callbacks_of p (fd, e, r, err, self) \<noteq> []"
      "callbacks_of p (fd, e, r, err, self) = [WriteCB] \<longrightarrow> err \<noteq> 0 \<or> self"
      using assms(2) by (auto simp: attempt_fails_def a)
    obtain s' where s': "startInLoop fd e s = Inr s'" "trying n fd s'" "cn_status s' = StatusConnecting"
      "cn_channelPtr s' = Some (connecting_channel fd)"
      using start_trying [OF assms(1) f(1)] by blast
    show ?thesis using channel_event_trying(1) [OF s'(2-4) f(2,3)] s'(1) by (simp add: attempt_def a)
  qed
qed

lemma attempt_success:
  assumes "planned [] n s" and "attempt_succeeds p a"
  shows "\<exists>s' l. attempt p a s = Inr s' \<and> cn_timers s' = [] \<and> cn_status s' = StatusConnected \<and> cn_socketHanded s' \<and>
    cn_open s' = {fst a} \<and> cn_handed s' = {fst a} \<and> cn_log s' = l @ [NewConnection (fst a)] \<and> set l \<subseteq> {ConnectionError}"
proof -
  obtain fd e r err self where a: "a = (fd, e, r, err, self)" by (cases a)
  then have f: "e \<in> set progress_errnos" "callbacks_of p (fd, e, r, err, self) = [WriteCB]" "err = 0" "\<not> self"
    using assms(2) by (auto simp: attempt_succeeds_def)
  obtain s' where s': "startInLoop fd e s = Inr s'" "trying n fd s'" "cn_status s' = StatusConnecting"
    "cn_channelPtr s' = Some (connecting_channel fd)"
    using start_trying [OF assms(1) f(1)] by blast
  show ?thesis using channel_event_trying(2) [OF s'(2-4) f(2-4)] s'(1) by (auto simp: attempt_def a)
qed

lemma run_attempts_backoff:
  assumes "planned [] n s" and "\<forall>a\<in>set as. attempt_fails p a" and "attempt_succeeds p a"
  shows "\<exists>s' l. run_attempts p (as @ [a]) s = Inr (map (\<lambda>i. of_int (backoff i) / 1000) [n ..< n + length as], s') \<and>
    cn_status s' = StatusConnected \<and> cn_open s' = {fst a} \<and> cn_handed s' = {fst a} \<and>
    cn_log s' = l @ [NewConnection (fst a)] \<and> set l \<subseteq> {ConnectionError} \<and> Connector_delete s' = Inr s'"
  using assms(1,2)
proof (induction as arbitrary: n s)
  case Nil
  obtain s' l where s': "attempt p a s = Inr s'" "cn_timers s' = []" "cn_status s' = StatusConnected" "cn_socketHanded s'"
    "cn_open s' = {fst a}" "cn_handed s' = {fst a}" "cn_log s' = l @ [NewConnection (fst a)]" "set l \<subseteq> {ConnectionError}"
    using attempt_success [OF Nil.prems(1) assms(3)] by (elim exE conjE) (rule that)
  have "run_attempts p ([] @ [a]) s = Inr ([], s')" using s'(1,2) by simp
  moreover have "Connector_delete s' = Inr s'" using s'(4) by (simp add: Connector_delete_def)
  ultimately show ?case using s' by simp
next
  case (Cons b as)
  obtain s1 where s1: "attempt p b s = Inr s1" "planned [of_int (backoff n) / 1000] (Suc n) s1"
    using attempt_failing [OF Cons.prems(1)] Cons.prems(2) by (metis list.set_intros(1))
  let ?s2 = "s1\<lparr>cn_timers := []\<rparr>"
  have p2: "planned [] (Suc n) ?s2" and t: "cn_timers s1 = [of_int (backoff n) / 1000]"
    using s1(2) by (simp_all add: planned_def)
  obtain s' l where s': "run_attempts p (as @ [a]) ?s2 =
      Inr (map (\<lambda>i. of_int (backoff i) / 1000) [Suc n ..< Suc n + length as], s')" "cn_status s' = StatusConnected"
    "cn_open s' = {fst a}" "cn_handed s' = {fst a}" "cn_log s' = l @ [NewConnection (fst a)]"
    "set l \<subseteq> {ConnectionError}" "Connector_delete s' = Inr s'"
    using Cons.IH [OF p2] Cons.prems(2) by (auto simp del: upt_Suc)
  have "[n ..< n + length (b # as)] = n # [Suc n ..< Suc n + length as]" by (simp add: upt_conv_Cons del: upt_Suc)
  then have "run_attempts p ((b # as) @ [a]) s =
      Inr (map (\<lambda>i. of_int (backoff i) / 1000) [n ..< n + length (b # as)], s')"
    using s1(1) s'(1) t by (simp del: upt_Suc)
  then show ?case using s'(2-7) by (intro exI [of _ s'] exI [of _ l] conjI)
qed

text \<open>C32. A connector that retries, started while the server is unreachable, makes one attempt after another: after
the n-th failure, immediate or reported by the poller, it waits \<^verbatim>\<open>min(500 * 2^n, 30000)\<close> milliseconds. Once an
attempt succeeds the owner is called exactly once, with the descriptor of that attempt; the descriptors of all failed
attempts are closed, and destroying the connector leaves the owner's descriptor open.\<close>
theorem connector_backoff:
  assumes "\<forall>a\<in>set as. attempt_fails p a" and "attempt_succeeds p a"
  shows "\<exists>s' l. run_attempts p (as @ [a])
      ((setErrorCallback cb (setNewConnectionCallback (Connector_new True)))\<lparr>cn_started := True\<rparr>) =
      Inr (map (\<lambda>n. of_int (min (500 * 2 ^ n) 30000) / 1000) [0 ..< length as], s') \<and>
    cn_status s' = StatusConnected \<and> cn_open s' = {fst a} \<and> cn_handed s' = {fst a} \<and>
    cn_log s' = l @ [NewConnection (fst a)] \<and> set l \<subseteq> {ConnectionError} \<and> Connector_delete s' = Inr s'"
proof -
  let ?s = "(setErrorCallback cb (setNewConnectionCallback (Connector_new True)))\<lparr>cn_started := True\<rparr>"
  have "planned [] 0 ?s"
    by (simp add: planned_def setErrorCallback_def setNewConnectionCallback_def Connector_new_def backoff_0)
  from run_attempts_backoff [OF this assms] show ?thesis
    by (simp add: backoff_def kInitRetryDelayMs_def kMaxRetryDelayMs_def)
qed

lemma connector_backoff_witness:
  "\<exists>s' l. run_attempts Linux [(5, ECONNREFUSED, 0, 0, False), (5, EINPROGRESS, POLLERR OR POLLHUP, 111, False),
        (6, EINPROGRESS, POLLOUT, 0, False)]
      ((setErrorCallback True (setNewConnectionCallback (Connector_new True)))\<lparr>cn_started := True\<rparr>) =
      Inr ([1 / 2, 1], s') \<and> cn_handed s' = {6} \<and> cn_log s' = l @ [NewConnection 6]"
proof -
  note ev = callbacks_of_def handleEvent_def handleEventSafely_def setRevents_def connecting_channel_def Channel_new_def
    enableWriting_def kWriteEvent_def kNoneEvent_def has_flag_def nval_def poll_flags
  have f: "\<forall>a\<in>set [(5, ECONNREFUSED, 0, 0, False), (5, EINPROGRESS, POLLERR OR POLLHUP, 111, False)]. attempt_fails Linux a"
    by (simp add: attempt_fails_def retry_errnos_def progress_errnos_def ev)
  have s: "attempt_succeeds Linux (6, EINPROGRESS, POLLOUT, 0, False)"
    by (simp add: attempt_succeeds_def progress_errnos_def ev)
  have u: "[0 ..< 2] = [0, Suc 0]" by (simp add: upt_conv_Cons)
  show ?thesis using connector_backoff [OF f s, of True] u by (auto simp: numeral_2_eq_2)
qed

text \<open>C37. When the system refuses a connection at once, a connector that retries closes the descriptor but still
counts it as its own: destroying the connector after \<^verbatim>\<open>stop\<close> closes the descriptor a second time. A connector that does
not retry keeps_handed the descriptor open, plans nothing and reports nothing to its owner.\<close>
theorem connector_refused:
  assumes "e \<in> set retry_errnos" and "cn_status s = StatusDisconnected" and "cn_started s"
    and "cn_channelPtr s = None" and "0 \<le> fd" and "fd \<notin> cn_open s"
  shows "\<exists>s'. startInLoop fd e s = Inr s' \<and>
    (if cn_retry s then Connector_delete (stop True s') = Inl DoubleClose
     else fd \<in> cn_open s' \<and> cn_timers s' = cn_timers s \<and> cn_log s' = cn_log s \<and> cn_status s' = StatusDisconnected)"
proof -
  have np: "e \<notin> set progress_errnos" by (rule errnos_disjoint [OF assms(1)])
  show ?thesis using assms np
    by (simp add: startInLoop_def connect_def retry_def close_fd_def stop_def removeAndResetChannel_def
        Connector_delete_def Let_def)
qed

lemma connector_refused_witness:
  "\<exists>s'. startInLoop 5 ECONNREFUSED ((Connector_new True)\<lparr>cn_started := True\<rparr>) = Inr s' \<and>
     Connector_delete (stop True s') = Inl DoubleClose"
  using connector_refused [of ECONNREFUSED "(Connector_new True)\<lparr>cn_started := True\<rparr>" 5]
  by (simp add: retry_errnos_def Connector_new_def)

end
