(* ===== verification/Spec2Isabelle.thy ===== *)
theory Spec2Isabelle
  imports Message_Buffer Lockfree_Queue Timer_Queue Timing_Wheel Poll_Poller Epoll_Poller Wepoll_Port_Props
    Tcp_Connection_Props Event_Loop Connector
begin

text \<open>
  Verification of netpoll, an event-driven network library in C++ (\<^verbatim>\<open>src/netpoll\<close>), together with the epoll
  emulation it ships for Windows (\<^verbatim>\<open>src/dependencies/wepoll\<close>).

  A thread runs an event loop. The loop asks a poller which of its channels, one for each file
  descriptor, have events and dispatches them; other threads hand it functions through a lock-free
  queue and timers through a timer queue. Connections read into and write from message buffers, and a
  timing wheel closes those that are idle.

  Conventions (\<open>Prelude\<close>): a function that can fail an assertion, leave a buffer or use freed memory
  returns a value of \<open>'a result\<close>, whose left side is the fault. \<^verbatim>\<open>size_t\<close> is \<open>nat\<close>, with subtraction as
  \<open>size_sub\<close> where it could wrap. What the operating system does is a parameter.

  \<^item> \<open>Funcs\<close>: \<^verbatim>\<open>netpoll/util/funcs.h\<close>, the byte order of integers and the splitting of strings.
  \<^item> \<open>Message_Buffer\<close>: \<^verbatim>\<open>netpoll/util/message_buffer.cc\<close> and \<^verbatim>\<open>.h\<close>. The buffer is a vector with two indices;
    it refines a queue of bytes (locale \<open>byte_stream\<close>), and no operation leaves the vector.
  \<^item> \<open>Lockfree_Queue\<close>: \<^verbatim>\<open>netpoll/util/lockfree_queue.h\<close>, with each atomic access as one step, any number of
    producers and one consumer; no freed node is used and the order is that of the exchanges (locale
    \<open>task_queue\<close>).
  \<^item> \<open>Timer_Queue\<close>: \<^verbatim>\<open>netpoll/net/inner/timer_queue.cc\<close> and \<^verbatim>\<open>timer.cc\<close>. Timers in a priority queue (locale
    \<open>priority_queue\<close>); which timers run, that cancelled ones do not, that the timer descriptor is armed.
  \<^item> \<open>Timing_Wheel\<close>: \<^verbatim>\<open>netpoll/net/inner/timing_wheel.cc\<close>, the wheels of shared pointers with counted
    references; when an entry is dropped.
  \<^item> \<open>Channel\<close>: \<^verbatim>\<open>netpoll/net/channel.cc\<close> and \<^verbatim>\<open>.h\<close>, and the contract of a poller (locale \<open>poller\<close>).
  \<^item> \<open>Poll_Poller\<close>: \<^verbatim>\<open>netpoll/net/inner/poller/poll_poller.cc\<close> implements that contract.
  \<^item> \<open>Wepoll_Port\<close>, \<open>Wepoll_Port_Inv\<close>, \<open>Wepoll_Port_Props\<close>: the ports of \<^verbatim>\<open>wepoll.c\<close>, their invariant and their
    properties: memory safety in every reachable state, that no event is missed, what is reported.
  \<^item> \<open>Epoll_Poller\<close>: \<^verbatim>\<open>netpoll/net/inner/poller/epoll_poller.cc\<close> over any epoll instance (locale
    \<open>epoll_instance\<close>, a \<^theory_text>\<open>sublocale\<close> of \<open>poller\<close>); the ports of wepoll are one.
  \<^item> \<open>Tcp_Connection\<close>, \<open>Tcp_Connection_Props\<close>: \<^verbatim>\<open>netpoll/net/inner/tcp_connection_impl.cc\<close>. The write side is a
    list of message buffers, files and streams; the bytes taken by the system and the pending ones are
    always whole messages in the order of the sends, and the list drains.
  \<^item> \<open>Event_Loop\<close>: \<^verbatim>\<open>netpoll/net/eventloop.cc\<close>. The loop and the calls of other threads, interleaved at every
    shared access, over the steps of \<open>Lockfree_Queue\<close>; no function and no request to quit is lost.
  \<^item> \<open>Connector\<close>: \<^verbatim>\<open>netpoll/net/inner/connector.cc\<close>. Attempts to connect, with the descriptors they open; runs of
    a well-behaved owner are safe, and failing attempts follow the exponential back-off.

  Loops that may wait for the system consume a list of answers of the system, one for each call, and
  return \<open>None\<close> when the list is used up; all other loops are total functions.
\<close>

end
